(* ===== verification/Sic_Prelude.thy ===== *)
theory Sic_Prelude
  imports Main "HOL-Library.Word"
begin

text \<open>
  Shared vocabulary of the development: the widths of the kernel's integers
  (\<^verbatim>\<open>include/types.h\<close>), 64-bit wrap-around written out on natural numbers, the page
  alignment macros of \<^verbatim>\<open>include/mm/pmm.h\<close>, the error numbers of
  \<^verbatim>\<open>include/abi/abi.h\<close>, and the generic facts on lists, counting and bits that the
  components share.

  Convention: a quantity the kernel keeps in a \<^verbatim>\<open>uint64_t\<close> or \<^verbatim>\<open>size_t\<close> is
  a \<^typ>\<open>nat\<close> below \<open>2 ^ 64\<close> where it is only counted and compared, with
  \<open>wrap64\<close>, \<open>add64\<close> and \<open>sub64\<close> where the C expression can wrap; it is
  a \<open>64 word\<close> where its bits matter.
\<close>

unbundle bit_operations_syntax

named_theorems inv_defs \<open>definitions of the component invariants\<close>
named_theorems op_defs \<open>definitions of the components' operations\<close>

type_synonym u8 = "8 word"
type_synonym u16 = "16 word"
type_synonym u32 = "32 word"
type_synonym u64 = "64 word"

subsection \<open>Wrap-around on natural numbers\<close>

definition wrap64 :: "nat \<Rightarrow> nat" where
  "wrap64 x = x mod 2 ^ 64"

definition add64 :: "nat \<Rightarrow> nat \<Rightarrow> nat" where
  "add64 a b = wrap64 (a + b)"

definition sub64 :: "nat \<Rightarrow> nat \<Rightarrow> nat" where
  "sub64 a b = wrap64 (a + (2 ^ 64 - b mod 2 ^ 64))"

lemma wrap64_less [simplified, simp]: "wrap64 x < 2 ^ 64"
  by (simp add: wrap64_def)

lemma wrap64_id [simplified, simp]: "x < 2 ^ 64 \<Longrightarrow> wrap64 x = x"
  by (simp add: wrap64_def)

lemma add64_id [simplified, simp]: "a + b < 2 ^ 64 \<Longrightarrow> add64 a b = a + b"
  by (simp add: add64_def)

lemma sub64_id [simplified, simp]: "b \<le> a \<Longrightarrow> a < 2 ^ 64 \<Longrightarrow> sub64 a b = a - b"
  by (simp add: sub64_def wrap64_def mod_if)

lemma sub64_less [simplified, simp]: "sub64 a b < 2 ^ 64"
  by (simp add: sub64_def)

lemma add64_less [simplified, simp]: "add64 a b < 2 ^ 64"
  by (simp add: add64_def)

lemma unat_add64: "unat (a + b :: u64) = add64 (unat a) (unat b)"
  by (simp add: add64_def wrap64_def unat_word_ariths)

lemma unat_sub64: "unat (a - b :: u64) = sub64 (unat a) (unat b)"
proof -
  have "unat b < 2 ^ 64" and "unat a < 2 ^ 64"
    using unsigned_less [of b, where ?'a = nat] unsigned_less [of a, where ?'a = nat] by simp_all
  then show ?thesis
    by (auto simp: unat_sub_if_size word_size sub64_def wrap64_def mod_if)
qed

subsection \<open>Pages\<close>

abbreviation PAGE_SIZE :: nat where "PAGE_SIZE \<equiv> 4096"

text \<open>\<^verbatim>\<open>PAGE_ALIGN_DOWN\<close> and \<^verbatim>\<open>PAGE_ALIGN_UP\<close> (pmm.h).\<close>

definition PAGE_ALIGN_DOWN :: "nat \<Rightarrow> nat" where
  "PAGE_ALIGN_DOWN x = x div PAGE_SIZE * PAGE_SIZE"

definition PAGE_ALIGN_UP :: "nat \<Rightarrow> nat" where
  "PAGE_ALIGN_UP x = PAGE_ALIGN_DOWN (add64 x (PAGE_SIZE - 1))"

text \<open>
  The two macros are written with a mask in C; on 64-bit words the mask computes exactly the
  functions above.
\<close>

lemma word_align_down: "unat (w AND NOT 4095 :: u64) = PAGE_ALIGN_DOWN (unat w)"
proof -
  have m: "(4095 :: u64) = mask 12"
    by (simp add: mask_eq_exp_minus_1)
  have "w AND NOT 4095 = push_bit 12 (drop_bit 12 w)"
    unfolding m by (rule bit_eqI) (auto simp: bit_and_iff bit_not_iff bit_mask_iff bit_push_bit_iff bit_drop_bit_eq)
  then have "unat (w AND NOT 4095) = take_bit 64 (push_bit 12 (drop_bit 12 (unat w)))"
    by (simp add: unsigned_push_bit_eq unat_drop_bit_eq)
  moreover have "unat w div 4096 * 4096 < 2 ^ 64"
    using unsigned_less [of w, where ?'a = nat]
    by (intro le_less_trans [OF div_times_less_eq_dividend]) simp
  ultimately show ?thesis
    by (simp add: PAGE_ALIGN_DOWN_def push_bit_eq_mult drop_bit_eq_div take_bit_eq_mod)
qed

lemma PAGE_ALIGN_DOWN_le: "PAGE_ALIGN_DOWN x \<le> x"
  by (simp add: PAGE_ALIGN_DOWN_def)

lemma PAGE_ALIGN_DOWN_aligned [simp]: "PAGE_ALIGN_DOWN x mod PAGE_SIZE = 0"
  by (simp add: PAGE_ALIGN_DOWN_def)

lemma PAGE_ALIGN_UP_ge: "x + 4095 < 2 ^ 64 \<Longrightarrow> x \<le> PAGE_ALIGN_UP x"
  by (simp add: PAGE_ALIGN_UP_def PAGE_ALIGN_DOWN_def)

lemma PAGE_ALIGN_UP_aligned [simp]: "PAGE_ALIGN_UP x mod PAGE_SIZE = 0"
  by (simp add: PAGE_ALIGN_UP_def)

subsection \<open>Error numbers and poll bits\<close>

text \<open>
  \<^verbatim>\<open>include/abi/abi.h\<close>. A system call returns a \<^verbatim>\<open>long\<close>, an \<^typ>\<open>int\<close> here, negative for an error.
\<close>

abbreviation EPERM :: int where "EPERM \<equiv> 1"
abbreviation ENOENT :: int where "ENOENT \<equiv> 2"
abbreviation ESRCH :: int where "ESRCH \<equiv> 3"
abbreviation EINTR :: int where "EINTR \<equiv> 4"
abbreviation EIO :: int where "EIO \<equiv> 5"
abbreviation ENXIO :: int where "ENXIO \<equiv> 6"
abbreviation EBADF :: int where "EBADF \<equiv> 9"
abbreviation ECHILD :: int where "ECHILD \<equiv> 10"
abbreviation EAGAIN :: int where "EAGAIN \<equiv> 11"
abbreviation ENOMEM :: int where "ENOMEM \<equiv> 12"
abbreviation EACCES :: int where "EACCES \<equiv> 13"
abbreviation EFAULT :: int where "EFAULT \<equiv> 14"
abbreviation EEXIST :: int where "EEXIST \<equiv> 17"
abbreviation ENOTDIR :: int where "ENOTDIR \<equiv> 20"
abbreviation EISDIR :: int where "EISDIR \<equiv> 21"
abbreviation EINVAL :: int where "EINVAL \<equiv> 22"
abbreviation EMFILE :: int where "EMFILE \<equiv> 24"
abbreviation ENOTTY :: int where "ENOTTY \<equiv> 25"
abbreviation ENOSPC :: int where "ENOSPC \<equiv> 28"
abbreviation ESPIPE :: int where "ESPIPE \<equiv> 29"
abbreviation EPIPE :: int where "EPIPE \<equiv> 32"
abbreviation ERANGE :: int where "ERANGE \<equiv> 34"
abbreviation ENAMETOOLONG :: int where "ENAMETOOLONG \<equiv> 36"
abbreviation ENOTEMPTY :: int where "ENOTEMPTY \<equiv> 39"
abbreviation ELOOP :: int where "ELOOP \<equiv> 40"
abbreviation EXDEV :: int where "EXDEV \<equiv> 18"
abbreviation EBUSY :: int where "EBUSY \<equiv> 16"
abbreviation ENODEV :: int where "ENODEV \<equiv> 19"
abbreviation EMSGSIZE :: int where "EMSGSIZE \<equiv> 90"
abbreviation EADDRINUSE :: int where "EADDRINUSE \<equiv> 98"
abbreviation EISCONN :: int where "EISCONN \<equiv> 106"
abbreviation ENOTCONN :: int where "ENOTCONN \<equiv> 107"
abbreviation ECONNREFUSED :: int where "ECONNREFUSED \<equiv> 111"

abbreviation POLLIN :: u32 where "POLLIN \<equiv> 0x001"
abbreviation POLLOUT :: u32 where "POLLOUT \<equiv> 0x004"
abbreviation POLLERR :: u32 where "POLLERR \<equiv> 0x008"
abbreviation POLLHUP :: u32 where "POLLHUP \<equiv> 0x010"
abbreviation O_NONBLOCK :: u32 where "O_NONBLOCK \<equiv> 0x800"
abbreviation O_RDONLY :: u32 where "O_RDONLY \<equiv> 0"

subsection \<open>Counting\<close>

definition count_upto :: "(nat \<Rightarrow> bool) \<Rightarrow> nat \<Rightarrow> nat" where
  "count_upto P n = length (filter P [0 ..< n])"

lemma count_upto_card: "count_upto P n = card {i. i < n \<and> P i}"
  by (auto simp: count_upto_def length_filter_conv_card intro!: arg_cong [where f = card])

lemma count_upto_le: "count_upto P n \<le> n"
  unfolding count_upto_def by (rule order_trans [OF length_filter_le]) simp

lemma count_upto_cong: "(\<And>i. i < n \<Longrightarrow> P i = Q i) \<Longrightarrow> count_upto P n = count_upto Q n"
  by (auto simp: count_upto_card intro!: arg_cong [where f = card])

lemma count_upto_all: "(\<And>i. i < n \<Longrightarrow> P i) \<Longrightarrow> count_upto P n = n"
  by (simp add: count_upto_def)

lemma count_upto_range:
  assumes "b \<le> n" and "\<And>i. a \<le> i \<Longrightarrow> i < b \<Longrightarrow> \<not> P i"
  shows "count_upto (\<lambda>i. a \<le> i \<and> i < b \<or> P i) n = count_upto P n + (b - a)"
proof -
  have "{i. i < n \<and> (a \<le> i \<and> i < b \<or> P i)} = {i. i < n \<and> P i} \<union> {a ..< b}"
    using assms(1) by auto
  moreover have "{i. i < n \<and> P i} \<inter> {a ..< b} = {}"
    using assms(2) by auto
  ultimately show ?thesis
    by (simp add: count_upto_card card_Un_disjoint)
qed

lemma count_upto_set:
  assumes "i < n" and "\<not> P i"
  shows "count_upto (P(i := True)) n = Suc (count_upto P n)"
proof -
  have "P(i := True) = (\<lambda>j. i \<le> j \<and> j < Suc i \<or> P j)" by (auto simp: fun_eq_iff)
  then show ?thesis
    using count_upto_range [of "Suc i" n i P] assms by (auto simp: le_less_Suc_eq)
qed

lemma count_upto_clear:
  assumes "i < n" and "P i"
  shows "Suc (count_upto (P(i := False)) n) = count_upto P n"
proof -
  have "(P(i := False))(i := True) = P" using assms(2) by (auto simp: fun_eq_iff)
  then show ?thesis
    using count_upto_set [of i n "P(i := False)"] assms(1) by simp
qed

subsection \<open>Words\<close>

lemma word_le_1: "x \<le> (1 :: 'a::len word) \<Longrightarrow> x = 0 \<or> x = 1"
proof -
  assume "x \<le> 1"
  then have "unat x \<le> 1"
    by (simp add: word_le_nat_alt)
  then have "unat x = 0 \<or> unat x = unat (1 :: 'a word)"
    by auto
  then show ?thesis
    by (auto simp only: word_unat_eq_iff unat_0)
qed

end
