(* ===== verification/Pmm.thy ===== *)
theory Pmm
  imports Sic_Prelude
begin

text \<open>
  The physical memory manager, \<^verbatim>\<open>kernel/mm/pmm.c\<close>: one bit per 4 KiB frame (1 = used), a
  16-bit reference count per frame, and a search hint. The file's static variables are the
  fields of \<open>pmm\<close>; every operation that takes \<^verbatim>\<open>pmm_lock\<close> holds it for its whole
  body, so it is one atomic function on that state. Console messages about a double free are
  kept in the field \<open>reports\<close>, the frame numbers in the order they are printed.

  Frame and page counts are \<^typ>\<open>nat\<close>: frame numbers are below \<open>2 ^ 52\<close>, and so are the
  counts callers pass (they are byte sizes divided by the page size), so that the sums
  of indices and counts of this file do not wrap. Sums of byte addresses are taken with
  \<open>add64\<close>, \<^verbatim>\<open>used_pages\<close> is decremented with \<open>sub64\<close>, and the
  reference counts are 16-bit words.
\<close>

subsection \<open>The state\<close>

record mmap_entry =
  me_base :: nat
  me_length :: nat
  me_type :: nat

abbreviation ZAEBOOT_MEM_USABLE :: nat where "ZAEBOOT_MEM_USABLE \<equiv> 1"
abbreviation ZAEBOOT_MEM_BOOTLOADER :: nat where "ZAEBOOT_MEM_BOOTLOADER \<equiv> 5"
abbreviation ZAEBOOT_MEM_BOOT_SERVICES :: nat where "ZAEBOOT_MEM_BOOT_SERVICES \<equiv> 7"

record pmm =
  regions :: "mmap_entry list"
  bitmap :: "u64 list"
  bitmap_pages :: nat
  refcounts :: "u16 list option"      \<comment> \<open>\<open>None\<close> is the NULL pointer\<close>
  highest_addr :: nat
  total_pages :: nat
  used_pages :: nat
  search_hint :: nat
  keep :: "(nat \<times> nat) list"
  reports :: "nat list"

subsection \<open>Bits and counts\<close>

definition test_bit :: "pmm \<Rightarrow> nat \<Rightarrow> bool" where
  "test_bit s i = bit (bitmap s ! (i div 64)) (i mod 64)"

definition set_bit :: "nat \<Rightarrow> pmm \<Rightarrow> pmm" where
  "set_bit i s = s\<lparr>bitmap := (bitmap s)[i div 64 := bitmap s ! (i div 64) OR push_bit (i mod 64) 1]\<rparr>"

definition clr_bit :: "nat \<Rightarrow> pmm \<Rightarrow> pmm" where
  "clr_bit i s = s\<lparr>bitmap := (bitmap s)[i div 64 := bitmap s ! (i div 64) AND NOT (push_bit (i mod 64) 1)]\<rparr>"

text \<open>\<^verbatim>\<open>if (refcounts) refcounts[i] = v\<close>.\<close>

definition ref_put :: "nat \<Rightarrow> u16 \<Rightarrow> pmm \<Rightarrow> pmm" where
  "ref_put i v s = s\<lparr>refcounts := map_option (\<lambda>rc. rc[i := v]) (refcounts s)\<rparr>"

definition ref_of :: "pmm \<Rightarrow> nat \<Rightarrow> u16" where
  "ref_of s i = (case refcounts s of None \<Rightarrow> 0 | Some rc \<Rightarrow> rc ! i)"

definition lower_hint :: "nat \<Rightarrow> pmm \<Rightarrow> pmm" where
  "lower_hint i s = (if i < search_hint s then s\<lparr>search_hint := i\<rparr> else s)"

subsection \<open>Operations\<close>

text \<open>The loop body of \<^verbatim>\<open>mark_range\<close>, for frame \<open>i\<close>.\<close>

definition mark_frame :: "bool \<Rightarrow> nat \<Rightarrow> pmm \<Rightarrow> pmm" where
  "mark_frame used i s =
     (if used \<and> \<not> test_bit s i then
        (ref_put i 1 (set_bit i s))\<lparr>used_pages := add64 (used_pages s) 1\<rparr>
      else if \<not> used \<and> test_bit s i then
        lower_hint i ((ref_put i 0 (clr_bit i s))\<lparr>used_pages := sub64 (used_pages s) 1\<rparr>)
      else s)"

definition mark_range :: "nat \<Rightarrow> nat \<Rightarrow> bool \<Rightarrow> pmm \<Rightarrow> pmm" where
  "mark_range base len used s =
     (let first = (if used then PAGE_ALIGN_DOWN base else PAGE_ALIGN_UP base);
          end = (if used then PAGE_ALIGN_UP (add64 base len) else PAGE_ALIGN_DOWN (add64 base len));
          end = (if end > bitmap_pages s * PAGE_SIZE then bitmap_pages s * PAGE_SIZE else end)
      in fold (mark_frame used) [first div PAGE_SIZE ..< (end + PAGE_SIZE - 1) div PAGE_SIZE] s)"

text \<open>\<^verbatim>\<open>while (run < count && !test_bit(i + run)) run++;\<close>\<close>

function run_from :: "pmm \<Rightarrow> nat \<Rightarrow> nat \<Rightarrow> nat \<Rightarrow> nat" where
  "run_from s i count run =
     (if run < count \<and> \<not> test_bit s (i + run) then run_from s i count (Suc run) else run)"
  by pat_completeness auto
termination
  by (relation "measure (\<lambda>(s, i, count, run). count - run)") auto

declare run_from.simps [simp del]

text \<open>
  The search loop of \<^verbatim>\<open>pmm_alloc_pages_below\<close>: \<open>Some i\<close> is the frame at which the
  body falls through to the allocation, \<open>None\<close> the loop's end. A run that is too short is
  skipped together with the used frame that ends it (\<^verbatim>\<open>i += run; continue;\<close> and then the
  loop's own \<^verbatim>\<open>i++\<close>).
\<close>

function find_run :: "pmm \<Rightarrow> nat \<Rightarrow> nat \<Rightarrow> nat \<Rightarrow> nat option" where
  "find_run s count max_pages i =
     (if i + count \<le> max_pages then
        if test_bit s i then find_run s count max_pages (Suc i)
        else let run = run_from s i count 1
             in if run < count then find_run s count max_pages (Suc (i + run)) else Some i
      else None)"
  by pat_completeness auto
termination
  by (relation "measure (\<lambda>(s, count, max_pages, i). Suc max_pages - i)") auto

declare find_run.simps [simp del]

definition take_frame :: "nat \<Rightarrow> pmm \<Rightarrow> pmm" where
  "take_frame i s = ref_put i 1 (set_bit i s)"

definition pmm_alloc_pages_below :: "nat \<Rightarrow> nat \<Rightarrow> pmm \<Rightarrow> nat \<times> pmm" where
  "pmm_alloc_pages_below count limit s =
     (if count = 0 then (0, s)
      else let max_pages = min (limit div PAGE_SIZE) (bitmap_pages s)
           in case find_run s count max_pages (search_hint s) of
                None \<Rightarrow> (0, s)
              | Some i \<Rightarrow>
                  let s1 = fold take_frame [i ..< i + count] s;
                      s2 = s1\<lparr>used_pages := add64 (used_pages s1) count\<rparr>;
                      s3 = (if count = 1 \<or> i = search_hint s then s2\<lparr>search_hint := i + count\<rparr> else s2)
                  in (i * PAGE_SIZE, s3))"

definition pmm_alloc_pages :: "nat \<Rightarrow> pmm \<Rightarrow> nat \<times> pmm" where
  "pmm_alloc_pages count s = pmm_alloc_pages_below count (2 ^ 64 - 1) s"

definition pmm_alloc_page :: "pmm \<Rightarrow> nat \<times> pmm" where
  "pmm_alloc_page s = pmm_alloc_pages 1 s"

text \<open>The loop body of \<^verbatim>\<open>pmm_free_pages\<close>, for frame \<open>j\<close>.\<close>

definition free_frame :: "nat \<Rightarrow> pmm \<Rightarrow> pmm" where
  "free_frame j s =
     (if j \<ge> bitmap_pages s \<or> \<not> test_bit s j then s\<lparr>reports := reports s @ [j]\<rparr>
      else if refcounts s \<noteq> None \<and> ref_of s j > 1 then ref_put j (ref_of s j - 1) s
      else let s1 = clr_bit j (ref_put j 0 s)
           in s1\<lparr>used_pages := sub64 (used_pages s1) 1\<rparr>)"

definition pmm_free_pages :: "nat \<Rightarrow> nat \<Rightarrow> pmm \<Rightarrow> pmm" where
  "pmm_free_pages phys count s =
     (let i = phys div PAGE_SIZE in lower_hint i (fold free_frame [i ..< i + count] s))"

definition pmm_free_page :: "nat \<Rightarrow> pmm \<Rightarrow> pmm" where
  "pmm_free_page phys s = pmm_free_pages phys 1 s"

definition pmm_page_inc_ref :: "nat \<Rightarrow> pmm \<Rightarrow> pmm" where
  "pmm_page_inc_ref phys s =
     (let i = phys div PAGE_SIZE
      in if i < bitmap_pages s \<and> refcounts s \<noteq> None then ref_put i (ref_of s i + 1) s else s)"

definition pmm_page_get_ref :: "nat \<Rightarrow> pmm \<Rightarrow> u16" where
  "pmm_page_get_ref phys s =
     (let i = phys div PAGE_SIZE
      in if i < bitmap_pages s \<and> refcounts s \<noteq> None then ref_of s i else 1)"

definition pmm_page_dec_ref :: "nat \<Rightarrow> pmm \<Rightarrow> nat \<times> pmm" where
  "pmm_page_dec_ref phys s =
     (let i = phys div PAGE_SIZE
      in if i < bitmap_pages s \<and> refcounts s \<noteq> None then
           if ref_of s i > 1 then
             let s1 = ref_put i (ref_of s i - 1) s in (unat (ref_of s1 i), s1)
           else
             let s1 = clr_bit i (ref_put i 0 s);
                 s2 = s1\<lparr>used_pages := sub64 (used_pages s1) 1\<rparr>
             in (0, lower_hint i s2)
         else (0, s))"

subsection \<open>Start-up\<close>

definition region_end :: "mmap_entry \<Rightarrow> nat" where
  "region_end r = add64 (me_base r) (me_length r)"




definition pmm_keep :: "nat \<Rightarrow> nat \<Rightarrow> pmm \<Rightarrow> pmm" where
  "pmm_keep base len s = (if length (keep s) < 8 then s\<lparr>keep := keep s @ [(base, len)]\<rparr> else s)"

text \<open>The loop body of \<^verbatim>\<open>pmm_reclaim_boot_memory\<close>, without the retyping of the region.\<close>

definition reclaim_region :: "nat \<Rightarrow> nat \<Rightarrow> mmap_entry \<Rightarrow> pmm \<Rightarrow> pmm" where
  "reclaim_region kstart kend r s =
     (if me_type r \<noteq> ZAEBOOT_MEM_BOOTLOADER \<and> me_type r \<noteq> ZAEBOOT_MEM_BOOT_SERVICES then s
      else let base = me_base r; end = region_end r
           in if base < kend \<and> end > kstart then
                let s1 = (if base < kstart then mark_range base (sub64 kstart base) False s else s)
                in if end > kend then mark_range kend (sub64 end kend) False s1 else s1
              else mark_range base (sub64 end base) False s)"

definition retype_region :: "mmap_entry \<Rightarrow> mmap_entry" where
  "retype_region r =
     (if me_type r \<noteq> ZAEBOOT_MEM_BOOTLOADER \<and> me_type r \<noteq> ZAEBOOT_MEM_BOOT_SERVICES then r
      else r\<lparr>me_type := ZAEBOOT_MEM_USABLE\<rparr>)"

definition pmm_reclaim_boot_memory :: "nat \<Rightarrow> nat \<Rightarrow> pmm \<Rightarrow> pmm" where
  "pmm_reclaim_boot_memory ks ke s =
     (let kstart = PAGE_ALIGN_DOWN ks; kend = PAGE_ALIGN_UP ke;
          s1 = fold (reclaim_region kstart kend) (regions s) s;
          s2 = s1\<lparr>regions := map retype_region (regions s1)\<rparr>;
          s3 = mark_range 0 0x100000 True s2
      in fold (\<lambda>(b, l). mark_range b l True) (keep s3) s3)"

subsection \<open>What the primitive updates do\<close>

lemma test_bit_set_bit [simp]:
  "i < 64 * length (bitmap s) \<Longrightarrow> test_bit (set_bit i s) = (test_bit s)(i := True)"
proof (rule ext)
  fix j assume i: "i < 64 * length (bitmap s)"
  then have "i div 64 < length (bitmap s)" by (simp add: less_mult_imp_div_less mult.commute)
  moreover have "j = i \<longleftrightarrow> j div 64 = i div 64 \<and> j mod 64 = i mod 64"
    by (metis mod_div_mult_eq)
  ultimately show "test_bit (set_bit i s) j = ((test_bit s)(i := True)) j"
    by (auto simp: test_bit_def set_bit_def nth_list_update bit_simps)
qed

lemma test_bit_clr_bit [simp]:
  "i < 64 * length (bitmap s) \<Longrightarrow> test_bit (clr_bit i s) = (test_bit s)(i := False)"
proof (rule ext)
  fix j assume i: "i < 64 * length (bitmap s)"
  then have "i div 64 < length (bitmap s)" by (simp add: less_mult_imp_div_less mult.commute)
  moreover have "j = i \<longleftrightarrow> j div 64 = i div 64 \<and> j mod 64 = i mod 64"
    by (metis mod_div_mult_eq)
  moreover have "j mod 64 < 64" by simp
  ultimately show "test_bit (clr_bit i s) j = ((test_bit s)(i := False)) j"
    by (auto simp: test_bit_def clr_bit_def nth_list_update bit_simps)
qed

lemma test_bit_frame [simp]:
  "test_bit (ref_put i v s) = test_bit s"
  "test_bit (lower_hint i s) = test_bit s"
  "test_bit (s\<lparr>used_pages := n\<rparr>) = test_bit s"
  "test_bit (s\<lparr>search_hint := n\<rparr>) = test_bit s"
  "test_bit (s\<lparr>regions := r\<rparr>) = test_bit s"
  "test_bit (s\<lparr>keep := k\<rparr>) = test_bit s"
  "test_bit (s\<lparr>reports := p\<rparr>) = test_bit s"
  by (auto simp: fun_eq_iff test_bit_def ref_put_def lower_hint_def)

lemma ref_of_frame [simp]:
  "ref_of (set_bit i s) = ref_of s"
  "ref_of (clr_bit i s) = ref_of s"
  "ref_of (lower_hint i s) = ref_of s"
  "ref_of (s\<lparr>used_pages := n\<rparr>) = ref_of s"
  "ref_of (s\<lparr>search_hint := n\<rparr>) = ref_of s"
  "ref_of (s\<lparr>regions := r\<rparr>) = ref_of s"
  "ref_of (s\<lparr>keep := k\<rparr>) = ref_of s"
  "ref_of (s\<lparr>reports := p\<rparr>) = ref_of s"
  by (auto simp: fun_eq_iff ref_of_def set_bit_def clr_bit_def lower_hint_def)

text \<open>The shape of the two tables, which no operation changes after \<^verbatim>\<open>pmm_init\<close>.\<close>

definition pmm_shape :: "pmm \<Rightarrow> bool" where
  "pmm_shape s \<longleftrightarrow> bitmap_pages s \<le> 64 * length (bitmap s) \<and> bitmap_pages s < 2 ^ 52 \<and>
     (case refcounts s of None \<Rightarrow> False | Some rc \<Rightarrow> bitmap_pages s \<le> length rc)"

lemma ref_of_ref_put [simp]:
  "pmm_shape s \<Longrightarrow> i < bitmap_pages s \<Longrightarrow> ref_of (ref_put i v s) = (ref_of s)(i := v)"
  by (auto simp: pmm_shape_def ref_of_def ref_put_def fun_eq_iff nth_list_update split: option.splits)

lemma fields_frame [simp]:
  "bitmap_pages (set_bit i s) = bitmap_pages s" "bitmap_pages (clr_bit i s) = bitmap_pages s"
  "bitmap_pages (ref_put i v s) = bitmap_pages s" "bitmap_pages (lower_hint i s) = bitmap_pages s"
  "used_pages (set_bit i s) = used_pages s" "used_pages (clr_bit i s) = used_pages s"
  "used_pages (ref_put i v s) = used_pages s" "used_pages (lower_hint i s) = used_pages s"
  "search_hint (set_bit i s) = search_hint s" "search_hint (clr_bit i s) = search_hint s"
  "search_hint (ref_put i v s) = search_hint s"
  "search_hint (lower_hint i s) = min i (search_hint s)"
  "keep (set_bit i s) = keep s" "keep (clr_bit i s) = keep s"
  "keep (ref_put i v s) = keep s" "keep (lower_hint i s) = keep s"
  "regions (set_bit i s) = regions s" "regions (clr_bit i s) = regions s"
  "regions (ref_put i v s) = regions s" "regions (lower_hint i s) = regions s"
  "reports (set_bit i s) = reports s" "reports (clr_bit i s) = reports s"
  "reports (ref_put i v s) = reports s" "reports (lower_hint i s) = reports s"
  "refcounts (set_bit i s) = refcounts s" "refcounts (clr_bit i s) = refcounts s"
  "refcounts (lower_hint i s) = refcounts s"
  "length (bitmap (set_bit i s)) = length (bitmap s)"
  "length (bitmap (clr_bit i s)) = length (bitmap s)"
  "bitmap (ref_put i v s) = bitmap s" "bitmap (lower_hint i s) = bitmap s"
  by (auto simp: set_bit_def clr_bit_def ref_put_def lower_hint_def)

lemma shape_frame [simp]:
  "pmm_shape (set_bit i s) = pmm_shape s" "pmm_shape (clr_bit i s) = pmm_shape s"
  "pmm_shape (ref_put i v s) = pmm_shape s" "pmm_shape (lower_hint i s) = pmm_shape s"
  "pmm_shape (s\<lparr>used_pages := n\<rparr>) = pmm_shape s"
  "pmm_shape (s\<lparr>search_hint := n\<rparr>) = pmm_shape s"
  "pmm_shape (s\<lparr>regions := r\<rparr>) = pmm_shape s"
  "pmm_shape (s\<lparr>keep := k\<rparr>) = pmm_shape s"
  "pmm_shape (s\<lparr>reports := p\<rparr>) = pmm_shape s"
  by (auto simp: pmm_shape_def ref_put_def split: option.splits)

lemma shape_bit [simp]: "pmm_shape s \<Longrightarrow> i < bitmap_pages s \<Longrightarrow> i < 64 * length (bitmap s)"
  by (simp add: pmm_shape_def)

lemma shape_refcounts [simp]: "pmm_shape s \<Longrightarrow> \<exists>rc. refcounts s = Some rc"
  by (auto simp: pmm_shape_def split: option.splits)

subsection \<open>The invariant\<close>

text \<open>
  The used count is the number of set bits, no frame below the hint is free, a frame with a
  positive reference count is used, and the first megabyte (with the NULL frame) is used.
\<close>

definition low_frames :: nat where "low_frames = 256"

definition hint_ok :: "pmm \<Rightarrow> bool" where
  "hint_ok s \<longleftrightarrow> (\<forall>i < bitmap_pages s. i < search_hint s \<longrightarrow> test_bit s i)"

definition refs_ok :: "pmm \<Rightarrow> bool" where
  "refs_ok s \<longleftrightarrow> (\<forall>i < bitmap_pages s. ref_of s i \<noteq> 0 \<longrightarrow> test_bit s i)"

definition low_ok :: "pmm \<Rightarrow> bool" where
  "low_ok s \<longleftrightarrow> (\<forall>i < bitmap_pages s. i < low_frames \<longrightarrow> test_bit s i)"

definition count_ok :: "pmm \<Rightarrow> bool" where
  "count_ok s \<longleftrightarrow> used_pages s = count_upto (test_bit s) (bitmap_pages s)"

definition pmm_core :: "pmm \<Rightarrow> bool" where
  "pmm_core s \<longleftrightarrow> pmm_shape s \<and> count_ok s \<and> hint_ok s \<and> refs_ok s"

definition pmm_inv :: "pmm \<Rightarrow> bool" where
  "pmm_inv s \<longleftrightarrow> pmm_core s \<and> low_ok s"

lemmas core_defs = pmm_core_def count_ok_def hint_ok_def refs_ok_def

lemma core_used_bound: "pmm_core s \<Longrightarrow> used_pages s < 2 ^ 52"
  using count_upto_le [of "test_bit s" "bitmap_pages s"]
  by (simp add: pmm_core_def count_ok_def pmm_shape_def)

lemma core_add64 [simp]: "pmm_core s \<Longrightarrow> add64 (used_pages s) 1 = Suc (used_pages s)"
  using core_used_bound [of s] by simp

lemma core_sub64:
  assumes "pmm_core s" and "i < bitmap_pages s" and "test_bit s i"
  shows "sub64 (used_pages s) 1 = count_upto ((test_bit s)(i := False)) (bitmap_pages s)"
  using count_upto_clear [of i "bitmap_pages s" "test_bit s"] core_used_bound [OF assms(1)] assms
  by (simp add: pmm_core_def count_ok_def)

subsection \<open>\<^verbatim>\<open>mark_range\<close>\<close>

lemma mark_frame_effect:
  assumes "pmm_core s" and "i < bitmap_pages s"
  shows "pmm_core (mark_frame u i s) \<and> bitmap_pages (mark_frame u i s) = bitmap_pages s \<and>
         keep (mark_frame u i s) = keep s \<and> regions (mark_frame u i s) = regions s \<and>
         test_bit (mark_frame u i s) = (test_bit s)(i := u)"
proof -
  have sh: "pmm_shape s" using assms(1) by (simp add: pmm_core_def)
  consider (set) "u" "\<not> test_bit s i" | (clr) "\<not> u" "test_bit s i" | (same) "u = test_bit s i"
    by auto
  then show ?thesis
  proof cases
    case set
    then show ?thesis
      using assms sh count_upto_set [of i "bitmap_pages s" "test_bit s"] core_add64 [OF assms(1)]
      by (auto simp: mark_frame_def core_defs)
  next
    case clr
    then show ?thesis
      using assms sh core_sub64 [OF assms] by (auto simp: mark_frame_def core_defs)
  next
    case same
    then show ?thesis using assms by (auto simp: mark_frame_def fun_eq_iff)
  qed
qed

lemma fold_mark_frame_effect:
  assumes "pmm_core s" and "\<And>i. i \<in> set xs \<Longrightarrow> i < bitmap_pages s"
  shows "pmm_core (fold (mark_frame u) xs s) \<and>
         bitmap_pages (fold (mark_frame u) xs s) = bitmap_pages s \<and>
         keep (fold (mark_frame u) xs s) = keep s \<and> regions (fold (mark_frame u) xs s) = regions s \<and>
         test_bit (fold (mark_frame u) xs s) = (\<lambda>i. if i \<in> set xs then u else test_bit s i)"
  using assms
proof (induction xs arbitrary: s)
  case Nil
  then show ?case by simp
next
  case (Cons x xs)
  have e: "pmm_core (mark_frame u x s)" "bitmap_pages (mark_frame u x s) = bitmap_pages s"
    "test_bit (mark_frame u x s) = (test_bit s)(x := u)"
    "keep (mark_frame u x s) = keep s" "regions (mark_frame u x s) = regions s"
    using mark_frame_effect [OF Cons.prems(1), of x u] Cons.prems(2) by auto
  have "i \<in> set xs \<Longrightarrow> i < bitmap_pages (mark_frame u x s)" for i
    using Cons.prems(2) e(2) by simp
  from Cons.IH [OF e(1) this] show ?case
    by (auto simp: e fun_eq_iff)
qed

text \<open>The frames a call of \<^verbatim>\<open>mark_range\<close> touches.\<close>

definition mark_frames :: "nat \<Rightarrow> nat \<Rightarrow> bool \<Rightarrow> pmm \<Rightarrow> nat set" where
  "mark_frames base len u s =
     (if u then {PAGE_ALIGN_DOWN base div PAGE_SIZE ..< PAGE_ALIGN_UP (add64 base len) div PAGE_SIZE}
      else {PAGE_ALIGN_UP base div PAGE_SIZE ..< PAGE_ALIGN_DOWN (add64 base len) div PAGE_SIZE})
     \<inter> {..< bitmap_pages s}"

lemma page_aligned_up_div: "x mod PAGE_SIZE = 0 \<Longrightarrow> (x + PAGE_SIZE - 1) div PAGE_SIZE = x div PAGE_SIZE"
  by (auto simp: mod_eq_0_iff_dvd elim!: dvdE)

lemma mark_range_effect:
  assumes "pmm_core s"
  shows "pmm_core (mark_range base len u s) \<and>
         bitmap_pages (mark_range base len u s) = bitmap_pages s \<and>
         keep (mark_range base len u s) = keep s \<and> regions (mark_range base len u s) = regions s \<and>
         test_bit (mark_range base len u s) = (\<lambda>i. if i \<in> mark_frames base len u s then u else test_bit s i)"
proof -
  define f e where "f = (if u then PAGE_ALIGN_DOWN base else PAGE_ALIGN_UP base)"
    and "e = (if u then PAGE_ALIGN_UP (add64 base len) else PAGE_ALIGN_DOWN (add64 base len))"
  define e' where "e' = (if e > bitmap_pages s * PAGE_SIZE then bitmap_pages s * PAGE_SIZE else e)"
  have "e' mod PAGE_SIZE = 0" by (auto simp: e'_def e_def)
  then have d: "(e' + PAGE_SIZE - 1) div PAGE_SIZE = min (e div PAGE_SIZE) (bitmap_pages s)"
    by (subst page_aligned_up_div) (auto simp: e'_def min_def div_le_mono less_eq_div_iff_mult_less_eq)
  have r: "mark_range base len u s =
      fold (mark_frame u) [f div PAGE_SIZE ..< min (e div PAGE_SIZE) (bitmap_pages s)] s"
    unfolding mark_range_def Let_def f_def [symmetric] e_def [symmetric] e'_def [symmetric] d ..
  define xs where "xs = [f div PAGE_SIZE ..< min (e div PAGE_SIZE) (bitmap_pages s)]"
  have sx: "set xs = mark_frames base len u s"
    by (auto simp: xs_def mark_frames_def f_def e_def)
  have b: "\<And>i. i \<in> set xs \<Longrightarrow> i < bitmap_pages s"
    by (simp add: xs_def)
  show ?thesis
    unfolding r xs_def [symmetric] sx [symmetric]
    by (rule fold_mark_frame_effect [OF assms b])
qed

subsection \<open>The search\<close>

lemma run_from_spec:
  assumes "run \<le> count"
  shows "run \<le> run_from s i count run \<and> run_from s i count run \<le> count \<and>
         (\<forall>k. run \<le> k \<and> k < run_from s i count run \<longrightarrow> \<not> test_bit s (i + k)) \<and>
         (run_from s i count run < count \<longrightarrow> test_bit s (i + run_from s i count run))"
  using assms
proof (induction s i count run rule: run_from.induct)
  case (1 s i count run)
  show ?case
  proof (cases "run < count \<and> \<not> test_bit s (i + run)")
    case True
    then have eq: "run_from s i count run = run_from s i count (Suc run)"
      by (simp add: run_from.simps [of s i count run])
    show ?thesis
      unfolding eq using "1.IH" [OF True] True by (auto simp: Suc_le_eq less_le)
  next
    case False
    then show ?thesis
      using "1.prems" by (auto simp: run_from.simps [of s i count run])
  qed
qed

text \<open>A window of \<open>count\<close> frames is free.\<close>

definition free_run :: "pmm \<Rightarrow> nat \<Rightarrow> nat \<Rightarrow> bool" where
  "free_run s i count \<longleftrightarrow> (\<forall>k < count. \<not> test_bit s (i + k))"

lemma free_run_blocked: "test_bit s j \<Longrightarrow> i \<le> j \<Longrightarrow> j < i + count \<Longrightarrow> \<not> free_run s i count"
  unfolding free_run_def by (metis add_diff_inverse_nat less_diff_conv2 not_less add.commute)

lemma find_run_spec:
  assumes "0 < count"
  shows "case find_run s count m i of
           Some j \<Rightarrow> i \<le> j \<and> j + count \<le> m \<and> free_run s j count \<and> (\<forall>j'. i \<le> j' \<and> j' < j \<longrightarrow> \<not> free_run s j' count)
         | None \<Rightarrow> (\<forall>j. i \<le> j \<and> j + count \<le> m \<longrightarrow> \<not> free_run s j count)"
  using assms
proof (induction s count m i rule: find_run.induct)
  case (1 s count m i)
  define run where "run = run_from s i count 1"
  have run: "1 \<le> run" "run \<le> count" "run < count \<Longrightarrow> test_bit s (i + run)"
    "\<And>k. 1 \<le> k \<Longrightarrow> k < run \<Longrightarrow> \<not> test_bit s (i + k)"
    using run_from_spec [of 1 count s i] "1.prems" by (auto simp: run_def)
  consider (out) "\<not> i + count \<le> m" | (used) "i + count \<le> m" "test_bit s i"
    | (short) "i + count \<le> m" "\<not> test_bit s i" "run < count"
    | (hit) "i + count \<le> m" "\<not> test_bit s i" "\<not> run < count" by blast
  then show ?case
  proof cases
    case out
    then show ?thesis by (auto simp: find_run.simps [of s count m i])
  next
    case used
    then have eq: "find_run s count m i = find_run s count m (Suc i)"
      by (simp add: find_run.simps [of s count m i])
    have "\<not> free_run s i count" using used "1.prems" by (intro free_run_blocked [of s i]) auto
    then show ?thesis
      using "1.IH"(1) [OF used "1.prems"] unfolding eq
      by (auto split: option.splits) (metis Suc_leI le_neq_implies_less)+
  next
    case short
    then have eq: "find_run s count m i = find_run s count m (Suc (i + run))"
      by (simp add: find_run.simps [of s count m i] run_def)
    have skip: "\<not> free_run s j count" if "i \<le> j" "j < Suc (i + run)" for j
      using that run(2,3) short(3) by (intro free_run_blocked [of s "i + run"]) auto
    have "case find_run s count m (Suc (i + run)) of
           Some j \<Rightarrow> Suc (i + run) \<le> j \<and> j + count \<le> m \<and> free_run s j count \<and> (\<forall>j'. Suc (i + run) \<le> j' \<and> j' < j \<longrightarrow> \<not> free_run s j' count)
         | None \<Rightarrow> (\<forall>j. Suc (i + run) \<le> j \<and> j + count \<le> m \<longrightarrow> \<not> free_run s j count)"
      using "1.IH"(2) [OF short(1,2) run_def short(3) "1.prems"] .
    then show ?thesis
      unfolding eq using skip by (auto split: option.splits simp: not_less [symmetric])
  next
    case hit
    then have "find_run s count m i = Some i"
      by (simp add: find_run.simps [of s count m i] run_def)
    moreover have "free_run s i count"
      unfolding free_run_def
    proof (intro allI impI)
      fix k assume "k < count"
      then show "\<not> test_bit s (i + k)"
        using run(2) run(4) [of k] hit(2,3) by (cases "k = 0") auto
    qed
    ultimately show ?thesis using hit by auto
  qed
qed

subsection \<open>Allocation\<close>

lemma fold_take_frame:
  assumes "pmm_shape s" and "\<And>i. i \<in> set xs \<Longrightarrow> i < bitmap_pages s"
  shows "pmm_shape (fold take_frame xs s) \<and>
         bitmap_pages (fold take_frame xs s) = bitmap_pages s \<and>
         used_pages (fold take_frame xs s) = used_pages s \<and>
         search_hint (fold take_frame xs s) = search_hint s \<and>
         test_bit (fold take_frame xs s) = (\<lambda>i. i \<in> set xs \<or> test_bit s i) \<and>
         ref_of (fold take_frame xs s) = (\<lambda>i. if i \<in> set xs then 1 else ref_of s i)"
  using assms
proof (induction xs arbitrary: s)
  case Nil
  then show ?case by simp
next
  case (Cons x xs)
  have e: "pmm_shape (take_frame x s)" "bitmap_pages (take_frame x s) = bitmap_pages s"
    "used_pages (take_frame x s) = used_pages s" "search_hint (take_frame x s) = search_hint s"
    "test_bit (take_frame x s) = (test_bit s)(x := True)"
    "ref_of (take_frame x s) = (ref_of s)(x := 1)"
    using Cons.prems by (auto simp: take_frame_def)
  have "i \<in> set xs \<Longrightarrow> i < bitmap_pages (take_frame x s)" for i
    using Cons.prems(2) e(2) by simp
  from Cons.IH [OF e(1) this] show ?case
    by (auto simp: e fun_eq_iff)
qed

text \<open>
  What a successful call does, for the frame \<open>i\<close> the search returned: the window becomes
  used with one reference each, nothing else changes, and the invariant is kept.
\<close>

lemma pmm_alloc_hit:
  assumes core: "pmm_core s" and c: "0 < count"
    and hit: "find_run s count (min (limit div PAGE_SIZE) (bitmap_pages s)) (search_hint s) = Some i"
  shows "fst (pmm_alloc_pages_below count limit s) = i * PAGE_SIZE \<and>
         pmm_core (snd (pmm_alloc_pages_below count limit s)) \<and>
         bitmap_pages (snd (pmm_alloc_pages_below count limit s)) = bitmap_pages s \<and>
         test_bit (snd (pmm_alloc_pages_below count limit s)) =
           (\<lambda>j. i \<le> j \<and> j < i + count \<or> test_bit s j) \<and>
         ref_of (snd (pmm_alloc_pages_below count limit s)) =
           (\<lambda>j. if i \<le> j \<and> j < i + count then 1 else ref_of s j)"
proof -
  from find_run_spec [where s = s and i = "search_hint s" and m = "min (limit div PAGE_SIZE) (bitmap_pages s)", OF c] hit
  have i: "search_hint s \<le> i" "i + count \<le> bitmap_pages s" "free_run s i count"
    "\<And>j. search_hint s \<le> j \<Longrightarrow> j < i \<Longrightarrow> \<not> free_run s j count"
    by auto
  define s1 where "s1 = fold take_frame [i ..< i + count] s"
  have sh: "pmm_shape s" using core by (simp add: pmm_core_def)
  have e: "pmm_shape s1" "bitmap_pages s1 = bitmap_pages s" "used_pages s1 = used_pages s"
    "search_hint s1 = search_hint s" "test_bit s1 = (\<lambda>j. i \<le> j \<and> j < i + count \<or> test_bit s j)"
    "ref_of s1 = (\<lambda>j. if i \<le> j \<and> j < i + count then 1 else ref_of s j)"
    using fold_take_frame [OF sh, of "[i ..< i + count]"] i(2) by (auto simp: s1_def)
  have free: "\<not> test_bit s j" if "i \<le> j" "j < i + count" for j
    using i(3) that unfolding free_run_def by (metis add_diff_inverse_nat less_diff_conv2 not_less add.commute)
  define s2 where "s2 = s1\<lparr>used_pages := add64 (used_pages s1) count\<rparr>"
  define s3 where "s3 = (if count = 1 \<or> i = search_hint s then s2\<lparr>search_hint := i + count\<rparr> else s2)"
  have res: "pmm_alloc_pages_below count limit s = (i * PAGE_SIZE, s3)"
    using c unfolding pmm_alloc_pages_below_def Let_def hit option.case s1_def [symmetric] s2_def [symmetric] s3_def [symmetric]
    by simp
  have s3: "pmm_shape s3" "bitmap_pages s3 = bitmap_pages s"
    "test_bit s3 = (\<lambda>j. i \<le> j \<and> j < i + count \<or> test_bit s j)"
    "ref_of s3 = (\<lambda>j. if i \<le> j \<and> j < i + count then 1 else ref_of s j)"
    "used_pages s3 = add64 (used_pages s) count"
    using e by (auto simp: s3_def s2_def)
  have "used_pages s + count \<le> 2 ^ 53"
    using core_used_bound [OF core] i(2) sh by (simp add: pmm_shape_def)
  then have "count_ok s3"
    using core i(2) s3 free count_upto_range [of "i + count" "bitmap_pages s" i "test_bit s"]
    by (simp add: pmm_core_def count_ok_def)
  moreover have "refs_ok s3"
    using core s3 by (auto simp: pmm_core_def refs_ok_def)
  moreover have "hint_ok s3"
    unfolding hint_ok_def
  proof (intro allI impI)
    fix j assume j: "j < bitmap_pages s3" "j < search_hint s3"
    have old: "test_bit s j" if "j < search_hint s"
      using core that j(1) s3(2) by (auto simp: pmm_core_def hint_ok_def)
    have one: "test_bit s j" if "count = 1" "search_hint s \<le> j" "j < i"
      using i(4) [OF that(2,3)] that(1) by (auto simp: free_run_def)
    from j(2) consider "j < search_hint s" | "search_hint s \<le> j" "j < i" "count = 1"
      | "i \<le> j" "j < i + count"
      using e(4) i(1) by (cases "j < search_hint s"; cases "j < i") (auto simp: s3_def s2_def split: if_splits)
    then show "test_bit s3 j"
      using old one s3(3) by cases auto
  qed
  ultimately show ?thesis
    using s3 by (simp add: res pmm_core_def)
qed

lemma pmm_alloc_miss:
  assumes "find_run s count (min (limit div PAGE_SIZE) (bitmap_pages s)) (search_hint s) = None"
  shows "pmm_alloc_pages_below count limit s = (0, s)"
  using assms by (simp add: pmm_alloc_pages_below_def)

lemma pmm_alloc_core:
  assumes "pmm_core s"
  shows "pmm_core (snd (pmm_alloc_pages_below count limit s)) \<and>
         bitmap_pages (snd (pmm_alloc_pages_below count limit s)) = bitmap_pages s \<and>
         (\<forall>j. test_bit s j \<longrightarrow> test_bit (snd (pmm_alloc_pages_below count limit s)) j)"
proof (cases "count = 0")
  case True
  then show ?thesis using assms by (simp add: pmm_alloc_pages_below_def)
next
  case False
  then have c: "0 < count" by simp
  show ?thesis
    using pmm_alloc_hit [OF assms c] pmm_alloc_miss assms
    by (cases "find_run s count (min (limit div PAGE_SIZE) (bitmap_pages s)) (search_hint s)") auto
qed

subsection \<open>Freeing and reference counts\<close>

lemma free_frame_effect:
  assumes "pmm_core s"
  shows "pmm_shape (free_frame j s) \<and> bitmap_pages (free_frame j s) = bitmap_pages s \<and>
         count_ok (free_frame j s) \<and> refs_ok (free_frame j s) \<and> search_hint (free_frame j s) = search_hint s \<and>
         test_bit (free_frame j s) =
           (if j < bitmap_pages s \<and> test_bit s j \<and> ref_of s j \<le> 1 then (test_bit s)(j := False) else test_bit s) \<and>
         ref_of (free_frame j s) =
           (if j < bitmap_pages s \<and> test_bit s j then (ref_of s)(j := ref_of s j - (if ref_of s j = 0 then 0 else 1)) else ref_of s)"
proof -
  have sh: "pmm_shape s" using assms by (simp add: pmm_core_def)
  consider (bad) "\<not> (j < bitmap_pages s \<and> test_bit s j)"
    | (shared) "j < bitmap_pages s" "test_bit s j" "1 < ref_of s j"
    | (last) "j < bitmap_pages s" "test_bit s j" "ref_of s j \<le> 1" by force
  then show ?thesis
  proof cases
    case bad
    then show ?thesis
      using assms by (auto simp: free_frame_def core_defs not_less)
  next
    case shared
    then have "ref_of s j \<noteq> 0" by (auto simp: not_less)
    then show ?thesis
      using shared assms sh by (auto simp: free_frame_def core_defs not_le)
  next
    case last
    have "ref_of s j - (if ref_of s j = 0 then 0 else 1) = 0"
      using word_le_1 [OF last(3)] by auto
    then show ?thesis
      using last assms sh core_sub64 [OF assms last(1,2)]
      by (auto simp: free_frame_def core_defs not_less)
  qed
qed

lemma fold_free_frame_core:
  assumes "pmm_core s" and "\<And>j. j \<in> set xs \<Longrightarrow> i \<le> j"
  shows "pmm_core (lower_hint i (fold free_frame xs s)) \<and> bitmap_pages (fold free_frame xs s) = bitmap_pages s \<and>
         (\<forall>j. j \<notin> set xs \<longrightarrow> test_bit (fold free_frame xs s) j = test_bit s j)"
proof -
  define P where "P t \<longleftrightarrow> pmm_shape t \<and> count_ok t \<and> refs_ok t \<and> bitmap_pages t = bitmap_pages s \<and>
      search_hint t = search_hint s \<and> (\<forall>j. j \<notin> set xs \<longrightarrow> test_bit t j = test_bit s j)" for t
  have step: "P (free_frame j t)" if "j \<in> set xs" and "P t" for j t
  proof -
    define t' where "t' = t\<lparr>search_hint := 0\<rparr>"
    have "pmm_core t'"
      using that(2) by (simp add: t'_def P_def core_defs)
    from free_frame_effect [OF this, of j]
    have e: "pmm_shape (free_frame j t')" "bitmap_pages (free_frame j t') = bitmap_pages t'"
      "count_ok (free_frame j t')" "refs_ok (free_frame j t')"
      "\<forall>k. k \<noteq> j \<longrightarrow> test_bit (free_frame j t') k = test_bit t' k"
      by (auto split: if_splits)
    have t: "free_frame j t' = (free_frame j t)\<lparr>search_hint := 0\<rparr>"
      unfolding t'_def free_frame_def Let_def clr_bit_def ref_put_def
      by (simp add: test_bit_def ref_of_def)
    have h: "search_hint (free_frame j t) = search_hint t"
      by (simp add: free_frame_def Let_def)
    show ?thesis
      using that e h unfolding t by (auto simp: P_def t'_def core_defs)
  qed
  have "P (fold free_frame xs s)"
    by (rule fold_invariant [where Q = "\<lambda>j. j \<in> set xs"]) (use assms step in \<open>auto simp: P_def pmm_core_def\<close>)
  then show ?thesis
    using assms by (auto simp: P_def core_defs) (metis linorder_not_less)
qed

lemma pmm_free_pages_core:
  assumes "pmm_core s"
  shows "pmm_core (pmm_free_pages phys count s) \<and> bitmap_pages (pmm_free_pages phys count s) = bitmap_pages s \<and>
         (\<forall>j. j < phys div PAGE_SIZE \<or> phys div PAGE_SIZE + count \<le> j \<longrightarrow>
            test_bit (pmm_free_pages phys count s) j = test_bit s j)"
  using fold_free_frame_core [OF assms, of "[phys div PAGE_SIZE ..< phys div PAGE_SIZE + count]" "phys div PAGE_SIZE"]
  by (auto simp: pmm_free_pages_def Let_def)

lemma pmm_page_inc_ref_core:
  assumes "pmm_core s" and "phys div PAGE_SIZE < bitmap_pages s \<Longrightarrow> test_bit s (phys div PAGE_SIZE)"
  shows "pmm_core (pmm_page_inc_ref phys s) \<and> bitmap_pages (pmm_page_inc_ref phys s) = bitmap_pages s \<and>
         test_bit (pmm_page_inc_ref phys s) = test_bit s"
  using assms by (auto simp: pmm_page_inc_ref_def Let_def core_defs)

lemma pmm_page_dec_ref_core:
  assumes "pmm_core s" and "phys div PAGE_SIZE < bitmap_pages s \<Longrightarrow> test_bit s (phys div PAGE_SIZE)"
  shows "pmm_core (snd (pmm_page_dec_ref phys s)) \<and>
         bitmap_pages (snd (pmm_page_dec_ref phys s)) = bitmap_pages s \<and>
         (\<forall>j. j \<noteq> phys div PAGE_SIZE \<longrightarrow> test_bit (snd (pmm_page_dec_ref phys s)) j = test_bit s j)"
proof -
  define i where "i = phys div PAGE_SIZE"
  have sh: "pmm_shape s" using assms(1) by (simp add: pmm_core_def)
  show ?thesis
  proof (cases "i < bitmap_pages s")
    case True
    show ?thesis
      using True assms sh core_sub64 [OF assms(1) True] unfolding i_def [symmetric]
      by (auto simp: pmm_page_dec_ref_def Let_def core_defs i_def [symmetric])
  next
    case False
    then show ?thesis using assms by (simp add: pmm_page_dec_ref_def i_def Let_def)
  qed
qed

subsection \<open>Start-up\<close>

text \<open>Updates that go through \<^verbatim>\<open>mark_range\<close> only.\<close>

definition marks :: "pmm \<Rightarrow> pmm \<Rightarrow> bool" where
  "marks t t' \<longleftrightarrow> pmm_core t' \<and> bitmap_pages t' = bitmap_pages t \<and> keep t' = keep t \<and> regions t' = regions t"

lemma marks_refl: "pmm_core t \<Longrightarrow> marks t t"
  by (simp add: marks_def)

lemma marks_mark_range: "marks s t \<Longrightarrow> marks s (mark_range b l u t)"
  using mark_range_effect [of t b l u] by (simp add: marks_def)

lemma marks_fold:
  assumes "\<And>x t. x \<in> set xs \<Longrightarrow> marks s t \<Longrightarrow> marks s (f x t)" and "pmm_core s"
  shows "marks s (fold f xs s)"
  by (rule fold_invariant [where Q = "\<lambda>x. x \<in> set xs"]) (use assms in \<open>auto intro: marks_refl\<close>)

lemma mark_range_low:
  assumes "pmm_core s"
  shows "low_ok (mark_range 0 0x100000 True s)"
  using mark_range_effect [OF assms, of 0 "0x100000" True]
  by (auto simp: low_ok_def low_frames_def mark_frames_def PAGE_ALIGN_UP_def PAGE_ALIGN_DOWN_def)

lemma mark_range_keeps_low:
  assumes "pmm_core s" and "low_ok s"
  shows "low_ok (mark_range b l True s)"
  using mark_range_effect [OF assms(1), of b l True] assms(2) by (auto simp: low_ok_def)




lemma pmm_reclaim_inv:
  assumes "pmm_core s"
  shows "pmm_inv (pmm_reclaim_boot_memory ks ke s)"
proof -
  define s1 where "s1 = fold (reclaim_region (PAGE_ALIGN_DOWN ks) (PAGE_ALIGN_UP ke)) (regions s) s"
  define s2 where "s2 = s1\<lparr>regions := map retype_region (regions s1)\<rparr>"
  define s3 where "s3 = mark_range 0 0x100000 True s2"
  have "marks s s1"
    unfolding s1_def using assms
    by (intro marks_fold) (auto simp: reclaim_region_def Let_def pmm_inv_def intro: marks_mark_range)
  then have c2: "pmm_core s2" by (simp add: s2_def marks_def core_defs)
  have c3: "pmm_inv s3"
    using mark_range_effect [OF c2, of 0 "0x100000" True] mark_range_low [OF c2]
    by (simp add: s3_def pmm_inv_def)
  have "pmm_inv (fold (\<lambda>(b, l). mark_range b l True) xs t)" if "pmm_inv t" for xs t
    by (rule fold_invariant [where Q = "\<lambda>_. True"])
      (use that mark_range_effect mark_range_keeps_low in \<open>auto simp: pmm_inv_def\<close>)
  with c3 show ?thesis
    by (simp add: pmm_reclaim_boot_memory_def Let_def s1_def [symmetric] s2_def [symmetric] s3_def [symmetric])
qed

subsection \<open>Executions\<close>

text \<open>
  The calls other code makes after \<^verbatim>\<open>pmm_init\<close>, and what each does. The code does not check that
  the frame of \<^verbatim>\<open>pmm_page_inc_ref\<close> and \<^verbatim>\<open>pmm_page_dec_ref\<close> is in use, nor that memory given back
  lies above the first megabyte: these are obligations of the callers, \<open>refs_used\<close> and \<open>above_low\<close>.
\<close>

datatype pmm_call =
  Alloc nat nat
| Free nat nat
| Inc_Ref nat
| Dec_Ref nat
| Keep nat nat
| Reclaim

fun pmm_exec :: "nat \<Rightarrow> nat \<Rightarrow> pmm_call \<Rightarrow> pmm \<Rightarrow> pmm" where
  "pmm_exec ks ke (Alloc count limit) s = snd (pmm_alloc_pages_below count limit s)"
| "pmm_exec ks ke (Free phys count) s = pmm_free_pages phys count s"
| "pmm_exec ks ke (Inc_Ref phys) s = pmm_page_inc_ref phys s"
| "pmm_exec ks ke (Dec_Ref phys) s = snd (pmm_page_dec_ref phys s)"
| "pmm_exec ks ke (Keep base len) s = pmm_keep base len s"
| "pmm_exec ks ke Reclaim s = pmm_reclaim_boot_memory ks ke s"

fun refs_used :: "pmm_call \<Rightarrow> pmm \<Rightarrow> bool" where
  "refs_used (Inc_Ref phys) s \<longleftrightarrow> phys div PAGE_SIZE < bitmap_pages s \<longrightarrow> test_bit s (phys div PAGE_SIZE)"
| "refs_used (Dec_Ref phys) s \<longleftrightarrow> phys div PAGE_SIZE < bitmap_pages s \<longrightarrow> test_bit s (phys div PAGE_SIZE)"
| "refs_used _ s \<longleftrightarrow> True"


fun above_low :: "pmm_call \<Rightarrow> bool" where
  "above_low (Free phys count) \<longleftrightarrow> 0x100000 \<le> phys"
| "above_low (Dec_Ref phys) \<longleftrightarrow> 0x100000 \<le> phys"
| "above_low _ \<longleftrightarrow> True"

lemma low_frames_above: "0x100000 \<le> phys \<Longrightarrow> low_frames \<le> phys div PAGE_SIZE"
  using div_le_mono [of "0x100000" phys PAGE_SIZE] by (simp add: low_frames_def)

lemma pmm_exec_core: "pmm_core s \<Longrightarrow> refs_used c s \<Longrightarrow> pmm_core (pmm_exec ks ke c s)"
proof (cases c)
  case (Keep base len)
  then show "pmm_core s \<Longrightarrow> ?thesis" by (simp add: pmm_keep_def core_defs)
qed (use pmm_alloc_core pmm_free_pages_core pmm_page_inc_ref_core pmm_page_dec_ref_core pmm_reclaim_inv
     in \<open>auto simp: pmm_inv_def\<close>)

lemma pmm_exec_low: "pmm_inv s \<Longrightarrow> refs_used c s \<Longrightarrow> above_low c \<Longrightarrow> low_ok (pmm_exec ks ke c s)"
proof (cases c)
  case (Alloc count limit)
  then show "pmm_inv s \<Longrightarrow> ?thesis" using pmm_alloc_core [of s count limit] by (auto simp: pmm_inv_def low_ok_def)
next
  case (Free phys count)
  then show "pmm_inv s \<Longrightarrow> above_low c \<Longrightarrow> ?thesis"
    using pmm_free_pages_core [of s phys count] low_frames_above [of phys] by (auto simp: pmm_inv_def low_ok_def)
next
  case (Inc_Ref phys)
  then show "pmm_inv s \<Longrightarrow> refs_used c s \<Longrightarrow> ?thesis"
    using pmm_page_inc_ref_core [of s phys] by (auto simp: pmm_inv_def low_ok_def)
next
  case (Dec_Ref phys)
  then show "pmm_inv s \<Longrightarrow> refs_used c s \<Longrightarrow> above_low c \<Longrightarrow> ?thesis"
    using pmm_page_dec_ref_core [of s phys] low_frames_above [of phys] by (auto simp: pmm_inv_def low_ok_def)
next
  case (Keep base len)
  then show "pmm_inv s \<Longrightarrow> ?thesis" by (simp add: pmm_keep_def pmm_inv_def low_ok_def)
next
  case Reclaim
  then show "pmm_inv s \<Longrightarrow> ?thesis" using pmm_reclaim_inv [of s ks ke] by (simp add: pmm_inv_def)
qed



lemma pmm_alloc_inv: "pmm_inv s \<Longrightarrow> pmm_inv (snd (pmm_alloc_pages_below count limit s))"
  using pmm_exec_low [of s "Alloc count limit"] pmm_exec_core [of s "Alloc count limit"] by (simp add: pmm_inv_def)

subsection \<open>The reference allocator\<close>

text \<open>
  What the allocator promises, without hint and skipping: the first window of free frames in
  the whole memory below the limit.
\<close>

definition first_fit :: "pmm \<Rightarrow> nat \<Rightarrow> nat \<Rightarrow> nat option" where
  "first_fit s count max_pages = find (\<lambda>i. free_run s i count) [0 ..< Suc max_pages - count]"

lemma first_fit_Some:
  assumes "i + count \<le> m" and "free_run s i count" and "\<And>j. j < i \<Longrightarrow> \<not> free_run s j count"
  shows "first_fit s count m = Some i"
  unfolding first_fit_def find_Some_iff using assms
  by (intro exI [of _ i]) auto

lemma first_fit_None:
  assumes "0 < count" and "\<And>j. j + count \<le> m \<Longrightarrow> \<not> free_run s j count"
  shows "first_fit s count m = None"
  unfolding first_fit_def find_None_iff using assms by auto

lemma hint_blocks:
  assumes "hint_ok s" and "j < search_hint s" and "0 < count" and "j + count \<le> bitmap_pages s"
  shows "\<not> free_run s j count"
  using assms by (intro free_run_blocked [of s j]) (auto simp: hint_ok_def)

lemma find_run_first_fit:
  assumes "pmm_core s" and "0 < count" and m: "m \<le> bitmap_pages s"
  shows "find_run s count m (search_hint s) = first_fit s count m"
proof -
  have low: "\<not> free_run s j count" if "j < search_hint s" "j + count \<le> m" for j
    using hint_blocks [of s j count] assms that by (auto simp: pmm_core_def)
  note spec = find_run_spec [where s = s and m = m and i = "search_hint s", OF assms(2)]
  show ?thesis
  proof (cases "find_run s count m (search_hint s)")
    case None
    with spec low have "\<And>j. j + count \<le> m \<Longrightarrow> \<not> free_run s j count"
      by (metis (no_types, lifting) linorder_not_less option.case(1))
    then show ?thesis using None first_fit_None [OF assms(2)] by metis
  next
    case (Some i)
    with spec have i: "i + count \<le> m" "free_run s i count" "\<And>j. search_hint s \<le> j \<Longrightarrow> j < i \<Longrightarrow> \<not> free_run s j count"
      by auto
    have "\<not> free_run s j count" if "j < i" for j
      using i(1) i(3) [of j] low [of j] that by (cases "j < search_hint s") auto
    then show ?thesis using Some first_fit_Some [OF i(1,2)] by metis
  qed
qed

subsection \<open>Repeated frees\<close>

lemma free_page_effect:
  assumes "pmm_core s"
  shows "test_bit (pmm_free_page phys s) = test_bit (free_frame (phys div PAGE_SIZE) s)"
    and "ref_of (pmm_free_page phys s) = ref_of (free_frame (phys div PAGE_SIZE) s)"
  by (simp_all add: pmm_free_page_def pmm_free_pages_def Let_def)

lemma pmm_free_page_core:
  "pmm_core s \<Longrightarrow> pmm_core (pmm_free_page phys s) \<and> bitmap_pages (pmm_free_page phys s) = bitmap_pages s"
  using pmm_free_pages_core [of s phys 1] by (simp add: pmm_free_page_def)

lemma free_page_iter:
  assumes "pmm_core s" and "phys div PAGE_SIZE < bitmap_pages s" and "test_bit s (phys div PAGE_SIZE)"
    and "ref_of s (phys div PAGE_SIZE) \<noteq> 0"
  shows "k < unat (ref_of s (phys div PAGE_SIZE)) \<Longrightarrow>
         pmm_core ((pmm_free_page phys ^^ k) s) \<and> bitmap_pages ((pmm_free_page phys ^^ k) s) = bitmap_pages s \<and>
         test_bit ((pmm_free_page phys ^^ k) s) = test_bit s \<and>
         unat (ref_of ((pmm_free_page phys ^^ k) s) (phys div PAGE_SIZE)) = unat (ref_of s (phys div PAGE_SIZE)) - k"
proof (induction k)
  case 0
  then show ?case using assms(1) by simp
next
  case (Suc k)
  define t where "t = (pmm_free_page phys ^^ k) s"
  define i where "i = phys div PAGE_SIZE"
  have t: "pmm_core t" "bitmap_pages t = bitmap_pages s" "test_bit t = test_bit s"
    "unat (ref_of t i) = unat (ref_of s i) - k"
    using Suc by (auto simp: t_def i_def)
  have i: "i < bitmap_pages t" "test_bit t i"
    using assms(2,3) t by (auto simp: i_def)
  have "1 < unat (ref_of t i)" using Suc.prems t(4) by (simp add: i_def)
  then have r: "1 < ref_of t i" "ref_of t i \<noteq> 0"
    by (auto simp: word_less_nat_alt)
  from r(2) have "unat (ref_of t i - 1) = unat (ref_of t i) - 1"
    by (rule unat_minus_one)
  then show ?case
    using free_page_effect [OF t(1), of phys] free_frame_effect [OF t(1), of i] pmm_free_page_core [OF t(1), of phys] t i r
    by (simp add: t_def [symmetric] i_def [symmetric] not_le [symmetric])
qed

text \<open>Frames with one reference are all released by one pass of the loop.\<close>

lemma free_frame_core_hint:
  assumes "pmm_core s"
  shows "pmm_core ((free_frame j s)\<lparr>search_hint := 0\<rparr>)"
proof -
  have "pmm_shape (free_frame j s)" "count_ok (free_frame j s)" "refs_ok (free_frame j s)"
    using free_frame_effect [OF assms, of j] by blast+
  then show ?thesis by (simp add: core_defs)
qed

lemma free_frame_hint: "free_frame j (s\<lparr>search_hint := h\<rparr>) = (free_frame j s)\<lparr>search_hint := h\<rparr>"
  unfolding free_frame_def Let_def clr_bit_def ref_put_def by (simp add: test_bit_def ref_of_def)

lemma fold_free_frame_hint:
  "fold free_frame xs (s\<lparr>search_hint := h\<rparr>) = (fold free_frame xs s)\<lparr>search_hint := h\<rparr>"
  by (induction xs arbitrary: s) (simp_all add: free_frame_hint)

lemma fold_free_frame_single:
  assumes "pmm_core s" and "\<And>j. j \<in> set xs \<Longrightarrow> j < bitmap_pages s \<and> test_bit s j \<and> ref_of s j = 1"
    and "distinct xs"
  shows "test_bit (fold free_frame xs s) = (\<lambda>j. test_bit s j \<and> j \<notin> set xs) \<and>
         ref_of (fold free_frame xs s) = (\<lambda>j. if j \<in> set xs then 0 else ref_of s j) \<and>
         reports (fold free_frame xs s) = reports s"
  using assms
proof (induction xs arbitrary: s)
  case Nil
  then show ?case by simp
next
  case (Cons x xs)
  define t where "t = (free_frame x s)\<lparr>search_hint := 0\<rparr>"
  have x: "x < bitmap_pages s" "test_bit s x" "ref_of s x = 1" using Cons.prems(2) by auto
  have e: "pmm_core t" "bitmap_pages t = bitmap_pages s" "test_bit t = (test_bit s)(x := False)"
    "ref_of t = (ref_of s)(x := 0)"
    using free_frame_effect [OF Cons.prems(1), of x] free_frame_core_hint [OF Cons.prems(1), of x] x
    by (auto simp: t_def)
  have r: "reports t = reports s"
    using x by (simp add: t_def free_frame_def Let_def clr_bit_def ref_put_def)
  have b: "\<And>j. j \<in> set xs \<Longrightarrow> j < bitmap_pages t \<and> test_bit t j \<and> ref_of t j = 1"
    using Cons.prems(2,3) e by auto
  have d: "distinct xs" using Cons.prems(3) by simp
  have "fold free_frame xs t = (fold free_frame (x # xs) s)\<lparr>search_hint := 0\<rparr>"
    by (simp add: t_def fold_free_frame_hint)
  then show ?case
    using Cons.IH [OF e(1) b d] e r by (auto simp: fun_eq_iff)
qed

text \<open>The allocator equals the reference allocator.\<close>

lemma pmm_alloc_spec:
  assumes "pmm_inv s" and "0 < count"
  shows "case first_fit s count (min (limit div PAGE_SIZE) (bitmap_pages s)) of
           None \<Rightarrow> pmm_alloc_pages_below count limit s = (0, s)
         | Some i \<Rightarrow> \<exists>s'. pmm_alloc_pages_below count limit s = (i * PAGE_SIZE, s') \<and> low_frames \<le> i \<and>
             test_bit s' = (\<lambda>j. i \<le> j \<and> j < i + count \<or> test_bit s j) \<and>
             ref_of s' = (\<lambda>j. if i \<le> j \<and> j < i + count then 1 else ref_of s j) \<and> pmm_inv s'"
proof -
  define m where "m = min (limit div PAGE_SIZE) (bitmap_pages s)"
  have core: "pmm_core s" using assms(1) by (simp add: pmm_inv_def)
  have ff: "find_run s count m (search_hint s) = first_fit s count m"
    using core assms(2) by (intro find_run_first_fit) (auto simp: m_def)
  show ?thesis
  proof (cases "first_fit s count m")
    case None
    then show ?thesis
      using ff pmm_alloc_miss [of s count limit] by (simp add: m_def)
  next
    case (Some i)
    then have free: "free_run s i count" "i + count \<le> m"
      using ff find_run_spec [where s = s and m = m and i = "search_hint s", OF assms(2)] by auto
    then have "\<not> test_bit s i"
      using assms(2) by (auto simp: free_run_def dest!: spec [of _ 0])
    moreover have "i < bitmap_pages s" using free(2) assms(2) by (simp add: m_def)
    ultimately have "low_frames \<le> i"
      using assms(1) unfolding pmm_inv_def low_ok_def by (meson not_le)
    then show ?thesis
      using Some ff pmm_alloc_hit [OF core assms(2), of limit i] pmm_alloc_inv [OF assms(1), of count limit]
      by (auto simp: m_def prod_eq_iff)
  qed
qed

subsection \<open>The contract with the callers\<close>

text \<open>
  What the rest of the kernel relies on when it takes frames one at a time (page tables, heap
  pages, the pages of a process): a frame that is handed out was not in use, is in use from then
  on, and no other frame changes. A frame is named by its number.
\<close>

locale frame_source =
  fixes good :: "'s \<Rightarrow> bool" and used :: "'s \<Rightarrow> nat \<Rightarrow> bool" and limit :: "'s \<Rightarrow> nat"
    and alloc :: "'s \<Rightarrow> nat \<times> 's"
  assumes alloc_fail: "good s \<Longrightarrow> alloc s = (0, s') \<Longrightarrow> s' = s"
    and alloc_frame: "good s \<Longrightarrow> alloc s = (phys, s') \<Longrightarrow> phys \<noteq> 0 \<Longrightarrow>
      \<exists>i. phys = i * PAGE_SIZE \<and> i < limit s \<and> \<not> used s i \<and> used s' = (used s)(i := True) \<and>
          good s' \<and> limit s' = limit s"
    and alloc_some: "good s \<Longrightarrow> i < limit s \<Longrightarrow> \<not> used s i \<Longrightarrow> fst (alloc s) \<noteq> 0"
begin

text \<open>Frames taken one after the other are different frames, and none was in use before.\<close>

lemma alloc_two:
  assumes "good s" and "alloc s = (p, s1)" and "p \<noteq> 0" and "alloc s1 = (q, s2)" and "q \<noteq> 0"
  shows "p \<noteq> q"
  using alloc_frame [OF assms(1-3)] alloc_frame [OF _ assms(4,5)] by auto

lemma alloc_good:
  assumes "good s" and "alloc s = (p, s')"
  shows "good s' \<and> limit s' = limit s \<and> (\<forall>i. used s i \<longrightarrow> used s' i)"
  using alloc_frame [OF assms] alloc_fail [of s s'] assms by (cases "p = 0") auto

text \<open>While frames are left an allocation succeeds, and it takes one of them.\<close>

lemma alloc_left:
  assumes "good s" and "Suc n \<le> card {i. i < limit s \<and> \<not> used s i}" and "alloc s = (p, s')"
  shows "p \<noteq> 0 \<and> n \<le> card {i. i < limit s' \<and> \<not> used s' i}"
proof -
  have "{i. i < limit s \<and> \<not> used s i} \<noteq> {}" using assms(2) by (metis card.empty not_less_eq_eq zero_le)
  then have p: "p \<noteq> 0" using alloc_some [OF assms(1)] assms(3) by auto
  from alloc_frame [OF assms(1,3) p] obtain j where j: "j < limit s" "\<not> used s j" "used s' = (used s)(j := True)"
    "limit s' = limit s"
    by blast
  have "{i. i < limit s' \<and> \<not> used s' i} = {i. i < limit s \<and> \<not> used s i} - {j}"
    using j by auto
  then show ?thesis using p j assms(2) by (simp add: card_Diff_singleton_if)
qed

end

interpretation pmm_frames: frame_source pmm_inv test_bit bitmap_pages pmm_alloc_page
proof
  fix s s' assume s: "pmm_inv s" and a: "pmm_alloc_page s = (0, s')"
  show "s' = s"
    using pmm_alloc_spec [OF s, of 1 "2 ^ 64 - 1"] a
    by (auto simp: pmm_alloc_page_def pmm_alloc_pages_def low_frames_def split: option.splits)
next
  fix s phys s' assume s: "pmm_inv s" and a: "pmm_alloc_page s = (phys, s')" "phys \<noteq> 0"
  define m where "m = min ((2 ^ 64 - 1) div PAGE_SIZE) (bitmap_pages s)"
  have core: "pmm_core s" using s by (simp add: pmm_inv_def)
  obtain i where i: "find_run s 1 m (search_hint s) = Some i"
    using a pmm_alloc_miss [of s 1 "2 ^ 64 - 1"]
    by (cases "find_run s 1 m (search_hint s)") (auto simp: m_def pmm_alloc_page_def pmm_alloc_pages_def)
  have f: "i < bitmap_pages s" "\<not> test_bit s i"
    using find_run_spec [where s = s and i = "search_hint s" and m = m and count = 1] i
    by (auto simp: m_def free_run_def)
  have t: "(\<lambda>j. i \<le> j \<and> j < i + 1 \<or> test_bit s j) = (test_bit s)(i := True)"
    by (auto simp: fun_eq_iff)
  show "\<exists>i. phys = i * PAGE_SIZE \<and> i < bitmap_pages s \<and> \<not> test_bit s i \<and> test_bit s' = (test_bit s)(i := True) \<and>
            pmm_inv s' \<and> bitmap_pages s' = bitmap_pages s"
    using pmm_alloc_hit [OF core zero_less_one i [unfolded m_def]] pmm_alloc_inv [OF s, of 1 "2 ^ 64 - 1"] a(1) f
    by (intro exI [of _ i]) (simp add: pmm_alloc_page_def pmm_alloc_pages_def t [simplified])
next
  fix s i assume s: "pmm_inv s" and i: "i < bitmap_pages s" "\<not> test_bit s i"
  have "bitmap_pages s \<le> (2 ^ 64 - 1) div PAGE_SIZE"
    using s by (simp add: pmm_inv_def pmm_core_def pmm_shape_def)
  then have "first_fit s 1 (min ((2 ^ 64 - 1) div PAGE_SIZE) (bitmap_pages s)) \<noteq> None"
    using i by (auto simp: first_fit_def find_None_iff free_run_def min_def intro!: exI [of _ i])
  then show "fst (pmm_alloc_page s) \<noteq> 0"
    using pmm_alloc_spec [OF s, of 1 "2 ^ 64 - 1"]
    by (auto simp: pmm_alloc_page_def pmm_alloc_pages_def low_frames_def split: option.splits)
qed

subsection \<open>Properties\<close>

text \<open>
  C1: \<^verbatim>\<open>pmm_alloc_pages_below\<close>, with its search hint and its skipping over short runs, is
  a first-fit allocator: in a state that satisfies the invariant it returns the lowest window
  of \<open>count\<close> free frames below the limit, marks exactly that window used with one
  reference per frame, and keeps the invariant; when there is no such window anywhere
  below the limit it returns 0 and changes nothing.
\<close>

theorem pmm_alloc_first_fit:
  assumes "pmm_inv s" and "0 < count"
  shows "case first_fit s count (min (limit div PAGE_SIZE) (bitmap_pages s)) of
           None \<Rightarrow> pmm_alloc_pages_below count limit s = (0, s)
         | Some i \<Rightarrow> \<exists>s'. pmm_alloc_pages_below count limit s = (i * PAGE_SIZE, s') \<and> low_frames \<le> i \<and>
             test_bit s' = (\<lambda>j. i \<le> j \<and> j < i + count \<or> test_bit s j) \<and>
             ref_of s' = (\<lambda>j. if i \<le> j \<and> j < i + count then 1 else ref_of s j) \<and> pmm_inv s'"
  using assms by (rule pmm_alloc_spec)


text \<open>
  C21: a frame with \<open>n\<close> references takes exactly \<open>n\<close> calls of
  \<^verbatim>\<open>pmm_free_page\<close>: it stays in use through the first \<open>n - 1\<close> and is free after
  the last one.
\<close>

theorem pmm_free_page_refcount:
  assumes "pmm_inv s" and "i < bitmap_pages s" and "test_bit s i" and "ref_of s i \<noteq> 0"
    and "k \<le> unat (ref_of s i)"
  shows "test_bit ((pmm_free_page (i * PAGE_SIZE) ^^ k) s) i \<longleftrightarrow> k < unat (ref_of s i)"
proof (cases "k < unat (ref_of s i)")
  case True
  then show ?thesis
    using free_page_iter [of s "i * PAGE_SIZE" k] assms by (simp add: pmm_inv_def)
next
  case False
  define n where "n = unat (ref_of s i) - 1"
  have "0 < unat (ref_of s i)" using assms(4) by (simp add: unat_gt_0)
  then have n: "k = Suc n" "n < unat (ref_of s i)" using False assms(5) by (auto simp: n_def)
  define t where "t = (pmm_free_page (i * PAGE_SIZE) ^^ n) s"
  have t: "pmm_core t" "bitmap_pages t = bitmap_pages s" "test_bit t = test_bit s"
    "unat (ref_of t i) = unat (ref_of s i) - n"
    using free_page_iter [of s "i * PAGE_SIZE" n] assms n(2) by (auto simp: pmm_inv_def t_def)
  have "unat (ref_of t i) = 1" using t(4) n(2) by (simp add: n_def)
  then have "ref_of t i \<le> 1" by (simp add: word_le_nat_alt)
  then show ?thesis
    using free_page_effect [OF t(1), of "i * PAGE_SIZE"] free_frame_effect [OF t(1), of i] t assms(2,3) False
    by (simp add: n(1) t_def [symmetric])
qed

text \<open>
  C24: giving a run back undoes its allocation: after \<^verbatim>\<open>pmm_alloc_pages_below\<close> has
  returned a run, \<^verbatim>\<open>pmm_free_pages\<close> on it restores the bitmap, the reference counts and
  the used count, keeps the invariant and reports no double free.
\<close>

theorem pmm_alloc_free_roundtrip:
  assumes "pmm_inv s" and "pmm_alloc_pages_below count limit s = (phys, s')" and "phys \<noteq> 0"
  shows "test_bit (pmm_free_pages phys count s') = test_bit s \<and>
         (\<forall>j < bitmap_pages s. ref_of (pmm_free_pages phys count s') j = ref_of s j) \<and>
         used_pages (pmm_free_pages phys count s') = used_pages s \<and>
         reports (pmm_free_pages phys count s') = reports s' \<and>
         pmm_inv (pmm_free_pages phys count s')"
proof -
  have core: "pmm_core s" and c: "0 < count"
    using assms by (auto simp: pmm_inv_def pmm_alloc_pages_below_def split: if_splits)
  from assms(2,3) obtain i where hit: "find_run s count (min (limit div PAGE_SIZE) (bitmap_pages s)) (search_hint s) = Some i"
    by (cases "find_run s count (min (limit div PAGE_SIZE) (bitmap_pages s)) (search_hint s)")
      (auto simp: pmm_alloc_miss)
  have a: "phys = i * PAGE_SIZE" "pmm_core s'" "bitmap_pages s' = bitmap_pages s"
    "test_bit s' = (\<lambda>j. i \<le> j \<and> j < i + count \<or> test_bit s j)"
    "ref_of s' = (\<lambda>j. if i \<le> j \<and> j < i + count then 1 else ref_of s j)"
    using pmm_alloc_hit [OF core c hit] assms(2) by auto
  have f: "i + count \<le> bitmap_pages s" "\<And>j. i \<le> j \<Longrightarrow> j < i + count \<Longrightarrow> \<not> test_bit s j"
    using find_run_spec [where s = s and i = "search_hint s" and m = "min (limit div PAGE_SIZE) (bitmap_pages s)", OF c] hit
    using free_run_blocked by auto
  have b: "\<And>j. j \<in> set [i ..< i + count] \<Longrightarrow> j < bitmap_pages s' \<and> test_bit s' j \<and> ref_of s' j = 1"
    using f a by auto
  note fr = fold_free_frame_single [where xs = "[i ..< i + count]", OF a(2) b distinct_upt, simplified]
  have e: "test_bit (pmm_free_pages phys count s') = (\<lambda>j. test_bit s' j \<and> \<not> (i \<le> j \<and> j < i + count))"
    "ref_of (pmm_free_pages phys count s') = (\<lambda>j. if i \<le> j \<and> j < i + count then 0 else ref_of s' j)"
    "reports (pmm_free_pages phys count s') = reports s'"
    using fr by (auto simp: pmm_free_pages_def a(1) fun_eq_iff)
  have core': "pmm_core (pmm_free_pages phys count s')"
    "bitmap_pages (pmm_free_pages phys count s') = bitmap_pages s"
    using pmm_free_pages_core [OF a(2)] a(3) by auto
  have t: "test_bit (pmm_free_pages phys count s') = test_bit s"
    using e(1) a(4) f(2) by (auto simp: fun_eq_iff)
  have z: "ref_of s j = 0" if "i \<le> j" "j < i + count" for j
  proof -
    have "j < bitmap_pages s" using f(1) that(2) by simp
    then show ?thesis using f(2) [OF that] core by (auto simp: core_defs)
  qed
  have "used_pages (pmm_free_pages phys count s') = used_pages s"
    using core core' t by (simp add: core_defs)
  moreover have "pmm_inv (pmm_free_pages phys count s')"
    using assms(1) core' t by (simp add: pmm_inv_def low_ok_def)
  moreover have "ref_of (pmm_free_pages phys count s') j = ref_of s j" for j
    using z [of j] by (simp add: e(2) a(5))
  ultimately show ?thesis using t e(3) by simp
qed

text \<open>
  The reference count of a frame is 16 bits wide and \<^verbatim>\<open>pmm_page_inc_ref\<close> does not
  check it: the 65536th reference wraps the count to 0, and the next
  \<^verbatim>\<open>pmm_free_page\<close> releases the frame although 65535 references remain.
\<close>

theorem pmm_inc_ref_wraps:
  assumes "pmm_inv s" and "i < bitmap_pages s" and "test_bit s i" and "ref_of s i = 65535"
  shows "pmm_page_get_ref (i * PAGE_SIZE) (pmm_page_inc_ref (i * PAGE_SIZE) s) = 0 \<and>
         \<not> test_bit (pmm_free_page (i * PAGE_SIZE) (pmm_page_inc_ref (i * PAGE_SIZE) s)) i"
proof -
  define t where "t = pmm_page_inc_ref (i * PAGE_SIZE) s"
  have sh: "pmm_shape s" using assms(1) by (simp add: pmm_inv_def pmm_core_def)
  have core: "pmm_core t" "bitmap_pages t = bitmap_pages s" "test_bit t = test_bit s"
    using pmm_page_inc_ref_core [of s "i * PAGE_SIZE"] assms by (auto simp: t_def pmm_inv_def)
  have r: "ref_of t i = 0"
    using sh assms(2,4) shape_refcounts [OF sh] by (auto simp: t_def pmm_page_inc_ref_def)
  moreover have "pmm_page_get_ref (i * PAGE_SIZE) t = 0"
    using r core shape_refcounts [of t] assms(2) by (auto simp: pmm_page_get_ref_def pmm_core_def)
  ultimately show ?thesis
    using free_page_effect [OF core(1), of "i * PAGE_SIZE"] free_frame_effect [OF core(1), of i] core assms(2,3)
    by (simp add: t_def [symmetric])
qed

subsection \<open>A concrete machine\<close>

text \<open>
  320 frames, the first 257 in use, frame 256 with \<open>n\<close> references; and a loader's memory map of 4 MiB.
\<close>

definition sample_pmm :: "u16 \<Rightarrow> pmm" where
  "sample_pmm n = \<lparr>regions = [], bitmap = [- 1, - 1, - 1, - 1, 1], bitmap_pages = 320,
     refcounts = Some (replicate 256 1 @ [n] @ replicate 63 0), highest_addr = 320 * PAGE_SIZE,
     total_pages = 320, used_pages = 257, search_hint = 257, keep = [], reports = []\<rparr>"


lemma sample_fields [simp]:
  "bitmap_pages (sample_pmm n) = 320" "search_hint (sample_pmm n) = 257" "used_pages (sample_pmm n) = 257"
  by (simp_all add: sample_pmm_def)

lemma sample_bit [simp]: "i < 320 \<Longrightarrow> test_bit (sample_pmm n) i \<longleftrightarrow> i < 257"
proof -
  assume i: "i < 320"
  then consider "i div 64 = 0" | "i div 64 = 1" | "i div 64 = 2" | "i div 64 = 3" | "i div 64 = 4"
    by linarith
  moreover have "i = 64 * (i div 64) + i mod 64" by simp
  ultimately show ?thesis
    using i by cases (auto simp: test_bit_def sample_pmm_def bit_simps)
qed

lemma sample_ref [simp]:
  "i < 320 \<Longrightarrow> ref_of (sample_pmm n) i = (if i < 256 then 1 else if i = 256 then n else 0)"
  by (auto simp: ref_of_def sample_pmm_def nth_append nth_Cons')

lemma sample_inv [simp]: "pmm_inv (sample_pmm n)"
proof -
  have "count_upto (test_bit (sample_pmm n)) 320 = count_upto (\<lambda>i. i < 257) 320"
    by (rule count_upto_cong) simp
  also have "\<dots> = card {..< 257 :: nat}"
    unfolding count_upto_card by (rule arg_cong [where f = card]) auto
  finally show ?thesis
    by (auto simp: pmm_inv_def core_defs low_ok_def low_frames_def split: if_splits)
      (simp add: pmm_shape_def sample_pmm_def)
qed

lemma sample_first_fit: "first_fit (sample_pmm n) 2 320 = Some 257"
proof (rule first_fit_Some)
  show "free_run (sample_pmm n) 257 2" by (auto simp: free_run_def)
  show "\<not> free_run (sample_pmm n) j 2" if "j < 257" for j
    using that by (intro free_run_blocked [of _ j]) auto
qed simp

theorem pmm_alloc_first_fit_witness:
  "\<exists>s'. pmm_alloc_pages_below 2 0x140000 (sample_pmm 1) = (0x101000, s') \<and> test_bit s' 258 \<and> \<not> test_bit s' 259"
  using pmm_alloc_first_fit [of "sample_pmm 1" 2 "0x140000"] sample_first_fit [of 1]
  by (auto simp: low_frames_def)



theorem pmm_free_page_refcount_witness:
  "test_bit ((pmm_free_page (256 * PAGE_SIZE) ^^ 2) (sample_pmm 3)) 256 \<and>
   \<not> test_bit ((pmm_free_page (256 * PAGE_SIZE) ^^ 3) (sample_pmm 3)) 256"
  using pmm_free_page_refcount [of "sample_pmm 3" 256 2] pmm_free_page_refcount [of "sample_pmm 3" 256 3] by simp

theorem pmm_alloc_free_roundtrip_witness:
  "\<exists>s'. pmm_alloc_pages_below 2 0x140000 (sample_pmm 1) = (0x101000, s') \<and>
        test_bit (pmm_free_pages 0x101000 2 s') = test_bit (sample_pmm 1)"
proof -
  have "fst (pmm_alloc_pages_below 2 0x140000 (sample_pmm 1)) = 0x101000"
    using find_run_first_fit [of "sample_pmm 1" 2 320] sample_first_fit [of 1] sample_inv [of 1]
    by (simp add: pmm_inv_def pmm_alloc_pages_below_def Let_def)
  then obtain s' where "pmm_alloc_pages_below 2 0x140000 (sample_pmm 1) = (0x101000, s')"
    by (metis prod.collapse)
  then show ?thesis
    using pmm_alloc_free_roundtrip [of "sample_pmm 1" 2 "0x140000" "0x101000" s'] by auto
qed

theorem pmm_inc_ref_wraps_witness:
  "\<not> test_bit (pmm_free_page (256 * PAGE_SIZE) (pmm_page_inc_ref (256 * PAGE_SIZE) (sample_pmm 65535))) 256"
  using pmm_inc_ref_wraps [of "sample_pmm 65535" 256] by simp

end
