(* ===== verification/Mmu.thy ===== *)
theory Mmu
  imports Pmm "HOL-Library.Monad_Syntax"
begin

text \<open>
  Virtual memory on x86-64, \<^verbatim>\<open>kernel/arch/x86_64/mmu.c\<close>: four levels of 512-entry tables in
  physical frames. Physical memory is a function from the physical address of a frame to its 512
  words, so that page tables and the pages they map live in the same store and the code's
  aliasing is the model's. Table frames come from the physical memory manager of theory
  \<^verbatim>\<open>Pmm\<close>. The result of an operation that can run out of frames for page tables is an
  option: \<open>None\<close> is the halt loop of \<^verbatim>\<open>alloc_table\<close>. The translation caches
  (\<^verbatim>\<open>invlpg\<close>, the shootdown interrupts) are not modelled: the theorems are about what the
  tables say.
\<close>

subsection \<open>The state\<close>

abbreviation PTE_PRESENT :: u64 where "PTE_PRESENT \<equiv> 0x1"
abbreviation PTE_WRITE :: u64 where "PTE_WRITE \<equiv> 0x2"
abbreviation PTE_USER :: u64 where "PTE_USER \<equiv> 0x4"
abbreviation PTE_PWT :: u64 where "PTE_PWT \<equiv> 0x8"
abbreviation PTE_PCD :: u64 where "PTE_PCD \<equiv> 0x10"
abbreviation PTE_HUGE :: u64 where "PTE_HUGE \<equiv> 0x80"
abbreviation PTE_GLOBAL :: u64 where "PTE_GLOBAL \<equiv> 0x100"
abbreviation PTE_DEV :: u64 where "PTE_DEV \<equiv> 0x200"
abbreviation PTE_NX :: u64 where "PTE_NX \<equiv> 0x8000000000000000"
abbreviation PTE_ADDR_MASK :: u64 where "PTE_ADDR_MASK \<equiv> 0x000FFFFFFFFFF000"
abbreviation ENTRIES :: nat where "ENTRIES \<equiv> 512"

abbreviation HHDM_BASE :: u64 where "HHDM_BASE \<equiv> 0xFFFF800000000000"
abbreviation HEAP_BASE :: u64 where "HEAP_BASE \<equiv> 0xFFFFC00000000000"
abbreviation MMIO_BASE :: u64 where "MMIO_BASE \<equiv> 0xFFFFE00000000000"
abbreviation USER_BASE :: u64 where "USER_BASE \<equiv> 0x0000008000000000"
abbreviation USER_END :: u64 where "USER_END \<equiv> 0x0000800000000000"

record vm =
  mem :: "nat \<Rightarrow> u64 list"
  vpmm :: pmm
  kernel_pml4 :: nat
  mmio_next :: u64
  cr3 :: nat

definition IDX :: "u64 \<Rightarrow> nat \<Rightarrow> nat" where
  "IDX virt level = unat (drop_bit (12 + 9 * level) virt AND 0x1FF)"

definition pte_addr :: "u64 \<Rightarrow> nat" where
  "pte_addr e = unat (e AND PTE_ADDR_MASK)"

definition entry :: "vm \<Rightarrow> nat \<Rightarrow> nat \<Rightarrow> u64" where
  "entry s t i = mem s t ! i"

definition set_entry :: "nat \<Rightarrow> nat \<Rightarrow> u64 \<Rightarrow> vm \<Rightarrow> vm" where
  "set_entry t i e s = s\<lparr>mem := (mem s)(t := (mem s t)[i := e])\<rparr>"

definition zero_page :: "u64 list" where
  "zero_page = replicate ENTRIES 0"

subsection \<open>Walking and filling the tables\<close>

definition alloc_table :: "vm \<Rightarrow> (nat \<times> vm) option" where
  "alloc_table s =
     (let (phys, p) = pmm_alloc_page (vpmm s)
      in if phys = 0 then None
         else Some (phys, s\<lparr>vpmm := p, mem := (mem s)(phys := zero_page)\<rparr>))"

text \<open>The inner option is the pointer the C function returns, \<open>None\<close> for NULL.\<close>

definition next_level :: "nat \<Rightarrow> nat \<Rightarrow> bool \<Rightarrow> u64 \<Rightarrow> vm \<Rightarrow> (nat option \<times> vm) option" where
  "next_level t idx create tflags s =
     (if entry s t idx AND PTE_PRESENT = 0 then
        if \<not> create then Some (None, s)
        else do {
          (phys, s1) \<leftarrow> alloc_table s;
          let s2 = set_entry t idx (of_nat phys OR PTE_PRESENT OR tflags) s1;
          Some (Some (pte_addr (entry s2 t idx)), s2)
        }
      else if entry s t idx AND PTE_HUGE \<noteq> 0 then Some (None, s)
      else Some (Some (pte_addr (entry s t idx)), s))"

text \<open>\<^verbatim>\<open>table ? next_level(table, ...) : NULL\<close>\<close>

definition next_of :: "nat option \<Rightarrow> nat \<Rightarrow> bool \<Rightarrow> u64 \<Rightarrow> vm \<Rightarrow> (nat option \<times> vm) option" where
  "next_of t idx create tflags s =
     (case t of None \<Rightarrow> Some (None, s) | Some t \<Rightarrow> next_level t idx create tflags s)"

text \<open>The three steps down to the last-level table, as every operation takes them.\<close>

definition pt_of :: "bool \<Rightarrow> u64 \<Rightarrow> nat \<Rightarrow> u64 \<Rightarrow> vm \<Rightarrow> (nat option \<times> vm) option" where
  "pt_of create tflags pml4 virt s = do {
     (pdpt, s1) \<leftarrow> next_level pml4 (IDX virt 3) create tflags s;
     (pd, s2) \<leftarrow> next_of pdpt (IDX virt 2) create tflags s1;
     next_of pd (IDX virt 1) create tflags s2
   }"

definition map_in :: "nat \<Rightarrow> u64 \<Rightarrow> u64 \<Rightarrow> u64 \<Rightarrow> u64 \<Rightarrow> vm \<Rightarrow> (int \<times> vm) option" where
  "map_in pml4 virt phys flags tflags s = do {
     (pt, s1) \<leftarrow> pt_of True tflags pml4 virt s;
     Some (case pt of
             None \<Rightarrow> (- 1, s1)
           | Some t \<Rightarrow>
               if entry s1 t (IDX virt 0) AND PTE_PRESENT \<noteq> 0 then (- 2, s1)
               else (0, set_entry t (IDX virt 0) ((phys AND PTE_ADDR_MASK) OR PTE_PRESENT OR flags) s1))
   }"

definition vmm_map_page :: "u64 \<Rightarrow> u64 \<Rightarrow> u64 \<Rightarrow> vm \<Rightarrow> (int \<times> vm) option" where
  "vmm_map_page virt phys flags s = map_in (kernel_pml4 s) virt phys flags PTE_WRITE s"

definition vmm_map_user_page :: "nat \<Rightarrow> u64 \<Rightarrow> u64 \<Rightarrow> u64 \<Rightarrow> vm \<Rightarrow> (int \<times> vm) option" where
  "vmm_map_user_page pml4 virt phys flags s =
     (if virt < USER_BASE \<or> virt \<ge> USER_END then Some (- 3, s)
      else map_in pml4 virt phys (flags OR PTE_USER) (PTE_WRITE OR PTE_USER) s)"

definition unmap_in :: "nat \<Rightarrow> u64 \<Rightarrow> vm \<Rightarrow> (u64 \<times> vm) option" where
  "unmap_in pml4 virt s = do {
     (pt, s1) \<leftarrow> pt_of False 0 pml4 virt s;
     Some (case pt of
             None \<Rightarrow> (0, s1)
           | Some t \<Rightarrow>
               let e = entry s1 t (IDX virt 0)
               in if e AND PTE_PRESENT \<noteq> 0
                  then (if e AND PTE_DEV = 0 then e AND PTE_ADDR_MASK else 0, set_entry t (IDX virt 0) 0 s1)
                  else (0, s1))
   }"

definition vmm_protect_user_page :: "nat \<Rightarrow> u64 \<Rightarrow> u64 \<Rightarrow> vm \<Rightarrow> (int \<times> vm) option" where
  "vmm_protect_user_page pml4 virt flags s = do {
     (pt, s1) \<leftarrow> pt_of False 0 pml4 virt s;
     Some (case pt of
             None \<Rightarrow> (- 1, s1)
           | Some t \<Rightarrow>
               let e = entry s1 t (IDX virt 0)
               in if e AND PTE_PRESENT \<noteq> 0
                  then (0, set_entry t (IDX virt 0)
                             ((e AND NOT (PTE_WRITE OR PTE_NX)) OR (flags AND (PTE_WRITE OR PTE_NX))) s1)
                  else (- 1, s1))
   }"

definition vmm_unmap_page :: "u64 \<Rightarrow> vm \<Rightarrow> (u64 \<times> vm) option" where
  "vmm_unmap_page virt s = unmap_in (kernel_pml4 s) virt s"

definition vmm_unmap_user_page :: "nat \<Rightarrow> u64 \<Rightarrow> vm \<Rightarrow> (u64 \<times> vm) option" where
  "vmm_unmap_user_page pml4 virt s = unmap_in pml4 virt s"

text \<open>The loop of \<^verbatim>\<open>translate_in\<close> over the levels, from the top.\<close>

fun translate_from :: "vm \<Rightarrow> nat \<Rightarrow> u64 \<Rightarrow> nat \<Rightarrow> u64" where
  "translate_from s t virt 0 =
     (let e = entry s t (IDX virt 0)
      in if e AND PTE_PRESENT = 0 then 0 else (e AND PTE_ADDR_MASK) OR (virt AND 0xFFF))"
| "translate_from s t virt (Suc l) =
     (let e = entry s t (IDX virt (Suc l))
      in if e AND PTE_PRESENT = 0 then 0
         else if e AND PTE_HUGE \<noteq> 0 then
           let page = (if Suc l = 1 then 0x200000 else 0x40000000)
           in (e AND PTE_ADDR_MASK AND NOT (page - 1)) OR (virt AND (page - 1))
         else translate_from s (pte_addr e) virt l)"

definition translate_in :: "vm \<Rightarrow> nat \<Rightarrow> u64 \<Rightarrow> u64" where
  "translate_in s pml4 virt = translate_from s pml4 virt 3"

definition vmm_translate :: "vm \<Rightarrow> u64 \<Rightarrow> u64" where
  "vmm_translate s virt = translate_in s (kernel_pml4 s) virt"

subsection \<open>Address spaces\<close>

text \<open>The kernel's entries: the identity map (entry 0) and the upper half.\<close>

definition copy_kernel_part :: "u64 list \<Rightarrow> u64 list \<Rightarrow> u64 list" where
  "copy_kernel_part src dst = fold (\<lambda>i d. d[i := src ! i]) [256 ..< ENTRIES] (dst[0 := src ! 0])"

definition vmm_create_address_space :: "vm \<Rightarrow> (nat \<times> vm) option" where
  "vmm_create_address_space s = do {
     (pml4, s1) \<leftarrow> alloc_table s;
     Some (pml4, s1\<lparr>mem := (mem s1)(pml4 := copy_kernel_part (mem s1 (kernel_pml4 s1)) (mem s1 pml4))\<rparr>)
   }"

text \<open>
  \<^verbatim>\<open>free_table_recursive\<close>: \<open>Suc 0\<close> is the last level. Freeing touches only the frame
  bitmap, so the entries read are those the tables had at the start.
\<close>

definition all_entries :: "nat list" where "all_entries = [0 ..< ENTRIES]"
definition user_entries :: "nat list" where "user_entries = [1 ..< 256]"

fun free_table_recursive :: "(nat \<Rightarrow> u64 list) \<Rightarrow> nat \<Rightarrow> nat \<Rightarrow> pmm \<Rightarrow> pmm" where
  "free_table_recursive m phys 0 p = p"
| "free_table_recursive m phys (Suc l) p =
     (let free_entry = (\<lambda>i p.
            let e = m phys ! i
            in if e AND PTE_PRESENT = 0 then p
               else if l = 0 then (if e AND PTE_DEV = 0 then pmm_free_page (pte_addr e) p else p)
               else free_table_recursive m (pte_addr e) l p)
      in pmm_free_page phys (fold free_entry all_entries p))"

definition vmm_destroy_address_space :: "nat \<Rightarrow> vm \<Rightarrow> vm" where
  "vmm_destroy_address_space pml4 s =
     (let free_entry = (\<lambda>i p.
            let e = mem s pml4 ! i
            in if e AND PTE_PRESENT \<noteq> 0 then free_table_recursive (mem s) (pte_addr e) 3 p else p);
          p = fold free_entry user_entries (vpmm s)
      in s\<lparr>cr3 := (if cr3 s = pml4 then kernel_pml4 s else cr3 s), vpmm := pmm_free_page pml4 p\<rparr>)"

definition vmm_activate :: "nat \<Rightarrow> vm \<Rightarrow> vm" where
  "vmm_activate pgd s = (if cr3 s \<noteq> pgd then s\<lparr>cr3 := pgd\<rparr> else s)"

subsection \<open>Entries\<close>

lemma frame_mask:
  assumes "phys = i * PAGE_SIZE" and "i < 2 ^ 40"
  shows "(of_nat phys :: u64) AND PTE_ADDR_MASK = of_nat phys" and "unat (of_nat phys :: u64) = phys"
proof -
  have M: "PTE_ADDR_MASK = push_bit 12 (mask 40)"
    by (simp add: mask_eq_exp_minus_1 push_bit_eq_mult)
  have p: "(of_nat phys :: u64) = push_bit 12 (of_nat i)"
    using assms(1) by (simp add: push_bit_eq_mult)
  have "(of_nat i :: u64) AND mask 40 = of_nat i"
    using assms(2) by (simp add: take_bit_eq_mask [symmetric] take_bit_of_nat take_bit_nat_eq_self)
  then show "(of_nat phys :: u64) AND PTE_ADDR_MASK = of_nat phys"
    unfolding M p by (simp add: push_bit_and [symmetric])
  have "phys < 2 ^ 64" using assms by simp
  then show "unat (of_nat phys :: u64) = phys"
    by (simp add: unsigned_of_nat take_bit_nat_eq_self)
qed

text \<open>The flags of a table entry: no address bits and not a huge page.\<close>

definition table_flags :: "u64 \<Rightarrow> bool" where
  "table_flags tf \<longleftrightarrow> tf AND PTE_ADDR_MASK = 0 \<and> tf AND PTE_HUGE = 0"

lemma table_flags_used [simp]: "table_flags PTE_WRITE" "table_flags (PTE_WRITE OR PTE_USER)" "table_flags 6"
  by (simp_all add: table_flags_def)

lemma new_entry:
  assumes "phys = i * PAGE_SIZE" and "i < 2 ^ 40" and "table_flags tf"
  shows "pte_addr (of_nat phys OR PTE_PRESENT OR tf) = phys"
    and "(of_nat phys OR PTE_PRESENT OR tf) AND PTE_PRESENT \<noteq> 0"
    and "(of_nat phys OR PTE_PRESENT OR tf) AND PTE_HUGE = 0"
proof -
  note a = frame_mask [OF assms(1,2)]
  have d: "(of_nat phys OR PTE_PRESENT OR tf) AND m = (of_nat phys AND m) OR (PTE_PRESENT AND m) OR (tf AND m)" for m
    by (simp add: bit.conj_disj_distrib2)
  show "pte_addr (of_nat phys OR PTE_PRESENT OR tf) = phys"
    unfolding pte_addr_def d using a assms(3) by (simp add: table_flags_def)
  have z: "(of_nat phys :: u64) AND m = 0" if "PTE_ADDR_MASK AND m = 0" for m
  proof -
    have "(of_nat phys :: u64) AND m = (of_nat phys AND PTE_ADDR_MASK) AND m" by (simp only: a(1))
    also have "\<dots> = of_nat phys AND (PTE_ADDR_MASK AND m)" by (rule and.assoc)
    finally show ?thesis using that by simp
  qed
  show "(of_nat phys OR PTE_PRESENT OR tf) AND PTE_HUGE = 0"
    unfolding d using z [of PTE_HUGE] assms(3) by (simp add: table_flags_def)
  have "bit ((of_nat phys OR PTE_PRESENT OR tf) AND PTE_PRESENT) 0"
    by (simp add: bit_simps)
  then show "(of_nat phys OR PTE_PRESENT OR tf) AND PTE_PRESENT \<noteq> 0"
    by auto
qed

lemma IDX_less [simp]: "IDX virt l < ENTRIES"
proof -
  have m: "(0x1FF :: u64) = mask 9" by (simp add: mask_eq_exp_minus_1)
  have "take_bit 9 (unat (drop_bit (12 + 9 * l) virt)) < 2 ^ 9"
    by (rule take_bit_nat_less_exp)
  then show ?thesis by (simp add: IDX_def m take_bit_eq_mask [symmetric] unsigned_take_bit_eq)
qed

lemma entry_set_entry:
  "i < length (mem s t) \<Longrightarrow> entry (set_entry t i e s) t' j = (if t' = t \<and> j = i then e else entry s t' j)"
  by (auto simp: entry_def set_entry_def)

lemma set_entry_frame [simp]:
  "vpmm (set_entry t i e s) = vpmm s" "kernel_pml4 (set_entry t i e s) = kernel_pml4 s"
  "mmio_next (set_entry t i e s) = mmio_next s" "cr3 (set_entry t i e s) = cr3 s"
  "length (mem (set_entry t i e s) t') = length (mem s t')"
  by (auto simp: set_entry_def)

subsection \<open>The tree of tables\<close>

text \<open>The table an entry points to, and the table at the end of a path of indices.\<close>

definition child :: "vm \<Rightarrow> nat \<Rightarrow> nat \<Rightarrow> nat option" where
  "child s t i =
     (let e = entry s t i in if e AND PTE_PRESENT \<noteq> 0 \<and> e AND PTE_HUGE = 0 then Some (pte_addr e) else None)"

fun tab_at :: "vm \<Rightarrow> nat \<Rightarrow> nat list \<Rightarrow> nat option" where
  "tab_at s t [] = Some t"
| "tab_at s t (i # is) = (case child s t i of None \<Rightarrow> None | Some t' \<Rightarrow> tab_at s t' is)"

lemma tab_at_append:
  "tab_at s t (p @ q) = (case tab_at s t p of None \<Rightarrow> None | Some t' \<Rightarrow> tab_at s t' q)"
  by (induction p arbitrary: t) (auto split: option.splits)

definition path :: "nat list \<Rightarrow> bool" where
  "path p \<longleftrightarrow> length p \<le> 3 \<and> (\<forall>i \<in> set p. i < ENTRIES)"

text \<open>
  The tables below \<open>root\<close> form a tree (no table is reached on two paths), they are frames in use,
  and every frame is 512 words. Physical addresses have at most 52 bits.
\<close>

definition store_ok :: "vm \<Rightarrow> bool" where
  "store_ok s \<longleftrightarrow> pmm_inv (vpmm s) \<and> bitmap_pages (vpmm s) \<le> 2 ^ 40 \<and> (\<forall>t. length (mem s t) = ENTRIES)"

definition table_frame :: "vm \<Rightarrow> nat \<Rightarrow> bool" where
  "table_frame s t \<longleftrightarrow> (\<exists>i. t = i * PAGE_SIZE \<and> test_bit (vpmm s) i)"

definition tree_ok :: "vm \<Rightarrow> nat \<Rightarrow> bool" where
  "tree_ok s root \<longleftrightarrow> store_ok s \<and>
     (\<forall>p t. path p \<and> tab_at s root p = Some t \<longrightarrow> table_frame s t) \<and>
     (\<forall>p q t. path p \<and> path q \<and> tab_at s root p = Some t \<and> tab_at s root q = Some t \<longrightarrow> p = q)"

lemma tree_ok_inj:
  "tree_ok s root \<Longrightarrow> path p \<Longrightarrow> path q \<Longrightarrow> tab_at s root p = Some t \<Longrightarrow> tab_at s root q = Some t \<Longrightarrow> p = q"
  by (auto simp: tree_ok_def)

lemma tree_ok_frame:
  "tree_ok s root \<Longrightarrow> path p \<Longrightarrow> tab_at s root p = Some t \<Longrightarrow> table_frame s t"
  by (auto simp: tree_ok_def)

lemma path_prefix: "path (p @ q) \<Longrightarrow> path p"
  by (auto simp: path_def)

text \<open>The indices of an address, from level \<open>l\<close> down.\<close>

fun vpath :: "u64 \<Rightarrow> nat \<Rightarrow> nat \<Rightarrow> nat list" where
  "vpath virt l 0 = []"
| "vpath virt l (Suc n) = IDX virt l # vpath virt (l - 1) n"

lemma vpath_length [simp]: "length (vpath virt l n) = n"
  by (induction n arbitrary: l) auto

lemma vpath_snoc: "vpath virt l (Suc n) = vpath virt l n @ [IDX virt (l - n)]"
proof (induction n arbitrary: l)
  case (Suc n)
  have "vpath virt l (Suc (Suc n)) = IDX virt l # vpath virt (l - 1) (Suc n)"
    by (rule vpath.simps(2))
  also have "\<dots> = IDX virt l # (vpath virt (l - 1) n @ [IDX virt (l - 1 - n)])"
    by (simp only: Suc.IH)
  finally show ?case by simp
qed simp

lemma vpath_less: "i \<in> set (vpath virt l n) \<Longrightarrow> i < ENTRIES"
  by (induction n arbitrary: l) auto

lemma path_vpath [simp]: "path (vpath virt l n) \<longleftrightarrow> n \<le> 3"
  using vpath_less by (auto simp: path_def)

text \<open>
  The entry that maps an address and its level, \<open>None\<close> when nothing does; the translation is a
  function of it.
\<close>

fun lookup_from :: "vm \<Rightarrow> nat \<Rightarrow> u64 \<Rightarrow> nat \<Rightarrow> (u64 \<times> nat) option" where
  "lookup_from s t virt 0 =
     (let e = entry s t (IDX virt 0) in if e AND PTE_PRESENT = 0 then None else Some (e, 0))"
| "lookup_from s t virt (Suc l) =
     (let e = entry s t (IDX virt (Suc l))
      in if e AND PTE_PRESENT = 0 then None else if e AND PTE_HUGE \<noteq> 0 then Some (e, Suc l)
         else lookup_from s (pte_addr e) virt l)"

definition lookup_in :: "vm \<Rightarrow> nat \<Rightarrow> u64 \<Rightarrow> (u64 \<times> nat) option" where
  "lookup_in s root virt = lookup_from s root virt 3"

definition page_addr :: "u64 \<Rightarrow> (u64 \<times> nat) option \<Rightarrow> u64" where
  "page_addr virt r =
     (case r of
        None \<Rightarrow> 0
      | Some (e, 0) \<Rightarrow> (e AND PTE_ADDR_MASK) OR (virt AND 0xFFF)
      | Some (e, Suc l) \<Rightarrow>
          let page = (if Suc l = 1 then 0x200000 else 0x40000000)
          in (e AND PTE_ADDR_MASK AND NOT (page - 1)) OR (virt AND (page - 1)))"

lemma translate_lookup: "translate_in s root virt = page_addr virt (lookup_in s root virt)"
proof -
  have "translate_from s t virt l = page_addr virt (lookup_from s t virt l)" for t l
    by (induction l arbitrary: t) (simp_all add: page_addr_def Let_def)
  then show ?thesis by (simp add: translate_in_def lookup_in_def)
qed

lemma lookup_down:
  "n \<le> l \<Longrightarrow> tab_at s t (vpath virt l n) = Some t' \<Longrightarrow>
   lookup_from s t virt l = lookup_from s t' virt (l - n)"
proof (induction n arbitrary: l t)
  case (Suc n)
  obtain k where l: "l = Suc k" using Suc.prems(1) by (cases l) auto
  obtain u where u: "child s t (IDX virt l) = Some u" "tab_at s u (vpath virt k n) = Some t'"
    using Suc.prems(2) l by (auto split: option.splits)
  have e: "entry s t (IDX virt l) AND PTE_PRESENT \<noteq> 0" "entry s t (IDX virt l) AND PTE_HUGE = 0"
    "u = pte_addr (entry s t (IDX virt l))"
    using u(1) by (auto simp: child_def Let_def split: if_splits)
  have "lookup_from s t virt l = lookup_from s u virt k"
    using e by (simp add: l)
  also have "\<dots> = lookup_from s t' virt (k - n)"
    using Suc.IH [OF _ u(2)] Suc.prems(1) l by simp
  finally show ?case using l by simp
qed simp

text \<open>What maps an address depends only on the entries along the address's own path.\<close>

lemma lookup_agree:
  assumes same: "\<And>n u. n \<le> 3 \<Longrightarrow> tab_at s root (vpath virt 3 n) = Some u \<Longrightarrow>
      entry s' u (IDX virt (3 - n)) = entry s u (IDX virt (3 - n))"
  shows "n + l = 3 \<Longrightarrow> tab_at s root (vpath virt 3 n) = Some u \<Longrightarrow>
         lookup_from s' u virt l = lookup_from s u virt l"
proof (induction l arbitrary: n u)
  case 0
  then show ?case using same [of n u] by simp
next
  case (Suc l)
  have n: "3 - n = Suc l" using Suc.prems(1) by simp
  then have e: "entry s' u (IDX virt (Suc l)) = entry s u (IDX virt (Suc l))"
    using same [of n u] Suc.prems by simp
  have "lookup_from s' w virt l = lookup_from s w virt l" if "child s u (IDX virt (Suc l)) = Some w" for w
  proof (rule Suc.IH)
    show "tab_at s root (vpath virt 3 (Suc n)) = Some w"
      unfolding vpath_snoc tab_at_append n using Suc.prems(2) that by simp
  qed (use Suc.prems(1) in simp)
  then show ?case
    using e by (auto simp: child_def Let_def split: if_splits)
qed

text \<open>
  A change of one entry, number \<open>i\<close> of the table at path \<open>p\<close>, is seen only by the addresses whose indices
  go through it.
\<close>

lemma lookup_change:
  assumes same: "\<And>q u j. path q \<Longrightarrow> tab_at s root q = Some u \<Longrightarrow> j < ENTRIES \<Longrightarrow> (q, j) \<noteq> (p, i) \<Longrightarrow>
      entry s' u j = entry s u j"
    and off: "vpath virt 3 (Suc (length p)) \<noteq> p @ [i]"
  shows "lookup_from s' root virt 3 = lookup_from s root virt 3"
proof -
  have "entry s' u (IDX virt (3 - n)) = entry s u (IDX virt (3 - n))"
    if "n \<le> 3" "tab_at s root (vpath virt 3 n) = Some u" for n u
  proof (rule same [OF _ that(2)])
    show "(vpath virt 3 n, IDX virt (3 - n)) \<noteq> (p, i)"
      using off by (auto simp: vpath_snoc simp del: vpath.simps)
  qed (use that(1) in simp_all)
  from lookup_agree [of s root virt s' 0 3 root, OF this] show ?thesis by simp
qed

subsection \<open>Adding a table\<close>

lemma table_frame_fresh:
  "table_frame s t \<Longrightarrow> \<not> test_bit (vpmm s) k \<Longrightarrow> t \<noteq> k * PAGE_SIZE"
  by (auto simp: table_frame_def)

definition adds_table :: "vm \<Rightarrow> nat \<Rightarrow> nat list \<Rightarrow> nat \<Rightarrow> nat \<Rightarrow> nat \<Rightarrow> u64 \<Rightarrow> pmm \<Rightarrow> vm \<Rightarrow> bool" where
  "adds_table s root p t i k tf pm s' \<longleftrightarrow> tree_ok s root \<and> path (p @ [i]) \<and> tab_at s root p = Some t \<and>
     entry s t i AND PTE_PRESENT = 0 \<and> k < bitmap_pages (vpmm s) \<and> \<not> test_bit (vpmm s) k \<and> table_flags tf \<and>
     pmm_inv pm \<and> bitmap_pages pm = bitmap_pages (vpmm s) \<and> test_bit pm = (test_bit (vpmm s))(k := True) \<and>
     s' = set_entry t i (of_nat (k * PAGE_SIZE) OR PTE_PRESENT OR tf)
            (s\<lparr>vpmm := pm, mem := (mem s)(k * PAGE_SIZE := zero_page)\<rparr>)"

lemma adds_tableD:
  assumes "adds_table s root p t i k tf pm s'"
  shows "tree_ok s root" and "path (p @ [i])" and "tab_at s root p = Some t"
    and "entry s t i AND PTE_PRESENT = 0" and "k < 2 ^ 40" and "\<not> test_bit (vpmm s) k" and "table_flags tf"
    and "pmm_inv pm" and "bitmap_pages pm = bitmap_pages (vpmm s)" and "test_bit pm = (test_bit (vpmm s))(k := True)"
    and "s' = set_entry t i (of_nat (k * PAGE_SIZE) OR PTE_PRESENT OR tf)
            (s\<lparr>vpmm := pm, mem := (mem s)(k * PAGE_SIZE := zero_page)\<rparr>)"
    and "i < ENTRIES" and "path p" and "table_frame s t" and "t \<noteq> k * PAGE_SIZE"
proof -
  note d = assms [unfolded adds_table_def]
  show "tree_ok s root" "path (p @ [i])" "tab_at s root p = Some t" "entry s t i AND PTE_PRESENT = 0"
    "\<not> test_bit (vpmm s) k" "table_flags tf" "pmm_inv pm" "bitmap_pages pm = bitmap_pages (vpmm s)"
    "test_bit pm = (test_bit (vpmm s))(k := True)"
    "s' = set_entry t i (of_nat (k * PAGE_SIZE) OR PTE_PRESENT OR tf)
            (s\<lparr>vpmm := pm, mem := (mem s)(k * PAGE_SIZE := zero_page)\<rparr>)"
    using d by blast+
  show "k < 2 ^ 40" using d by (auto simp: tree_ok_def store_ok_def)
  show "i < ENTRIES" "path p" using d by (auto simp: path_def)
  with d show tf: "table_frame s t" using tree_ok_frame by blast
  show "t \<noteq> k * PAGE_SIZE" using table_frame_fresh [OF tf] d by blast
qed

lemma adds_entries:
  assumes "adds_table s root p t i k tf pm s'"
  shows "u \<noteq> k * PAGE_SIZE \<Longrightarrow> (u, j) \<noteq> (t, i) \<Longrightarrow> entry s' u j = entry s u j"
    and "j < ENTRIES \<Longrightarrow> entry s' (k * PAGE_SIZE) j = 0"
    and "child s' t i = Some (k * PAGE_SIZE)"
proof -
  note d = adds_tableD [OF assms]
  show "entry s' u j = entry s u j" if "u \<noteq> k * PAGE_SIZE" "(u, j) \<noteq> (t, i)"
    using that unfolding d(11) by (auto simp: entry_def set_entry_def)
  show "entry s' (k * PAGE_SIZE) j = 0" if "j < ENTRIES"
    using that d(15) unfolding d(11) by (simp add: entry_def set_entry_def zero_page_def)
  have "entry s' t i = of_nat (k * PAGE_SIZE) OR PTE_PRESENT OR tf"
    using d(1,12,15) unfolding d(11) by (simp add: entry_def set_entry_def tree_ok_def store_ok_def)
  then show "child s' t i = Some (k * PAGE_SIZE)"
    using new_entry [OF refl d(5,7)] by (simp add: child_def)
qed

lemma adds_tab_at:
  assumes add: "adds_table s root p t i k tf pm s'"
  shows "path q \<Longrightarrow> tab_at s' root q = (if q = p @ [i] then Some (k * PAGE_SIZE) else tab_at s root q)"
proof (induction q rule: rev_induct)
  case Nil
  then show ?case by simp
next
  case (snoc j q)
  note d = adds_tableD [OF add] and e = adds_entries [OF add]
  have j: "j < ENTRIES" and q: "path q" using snoc.prems by (auto simp: path_def)
  have old: "child s t i = None" using d(4) by (simp add: child_def)
  consider (ext) "q = p @ [i]" | (none) "q \<noteq> p @ [i]" "tab_at s root q = None"
    | (some) u where "q \<noteq> p @ [i]" "tab_at s root q = Some u"
    by (cases "tab_at s root q") auto
  then show ?case
  proof cases
    case ext
    have "tab_at s' root q = Some (k * PAGE_SIZE)" using ext snoc.IH [OF q] by simp
    moreover have "tab_at s root q = None" using ext d(3) old by (simp add: tab_at_append)
    moreover have "child s' (k * PAGE_SIZE) j = None" using e(2) [OF j] by (simp add: child_def)
    moreover have "q @ [j] \<noteq> p @ [i]" using ext by simp
    ultimately show ?thesis by (simp add: tab_at_append)
  next
    case none
    then have "q \<noteq> p" using d(3) by auto
    then show ?thesis using none snoc.IH [OF q] by (simp add: tab_at_append)
  next
    case some
    have ne: "u \<noteq> k * PAGE_SIZE" using table_frame_fresh [OF tree_ok_frame [OF d(1) q some(2)] d(6)] .
    have qp: "u = t \<longleftrightarrow> q = p"
      using tree_ok_inj [OF d(1) q d(13) some(2)] d(3) some(2) by auto
    show ?thesis
    proof (cases "q = p \<and> j = i")
      case True
      then show ?thesis using some snoc.IH [OF q] e(3) qp by (simp add: tab_at_append)
    next
      case False
      then have "child s' u j = child s u j"
        using e(1) [OF ne, of j] qp by (auto simp: child_def)
      then show ?thesis using False some snoc.IH [OF q] by (auto simp: tab_at_append split: option.splits)
    qed
  qed
qed

lemma adds_tree:
  assumes add: "adds_table s root p t i k tf pm s'"
  shows "tree_ok s' root"
  unfolding tree_ok_def
proof (intro conjI allI impI)
  note d = adds_tableD [OF add]
  show "store_ok s'"
    using d(1,8,9) by (simp add: d(11) tree_ok_def store_ok_def zero_page_def)
next
  note d = adds_tableD [OF add]
  fix q u assume q: "path q \<and> tab_at s' root q = Some u"
  show "table_frame s' u"
  proof (cases "q = p @ [i]")
    case True
    then show ?thesis using q adds_tab_at [OF add, of q] d(10) by (auto simp: table_frame_def d(11))
  next
    case False
    then have "table_frame s u" using q adds_tab_at [OF add, of q] tree_ok_frame [OF d(1)] by auto
    then show ?thesis using d(10) by (auto simp: table_frame_def d(11))
  qed
next
  note d = adds_tableD [OF add]
  fix q r u assume a: "path q \<and> path r \<and> tab_at s' root q = Some u \<and> tab_at s' root r = Some u"
  have n: "tab_at s root q' \<noteq> Some (k * PAGE_SIZE)" if "path q'" for q'
    using tree_ok_frame [OF d(1) that] table_frame_fresh [OF _ d(6)] by blast
  show "q = r"
    using a n [of q] n [of r] adds_tab_at [OF add, of q] adds_tab_at [OF add, of r] tree_ok_inj [OF d(1), of q r u]
    by (auto split: if_splits)
qed

lemma adds_lookup:
  assumes add: "adds_table s root p t i k tf pm s'"
  shows "lookup_in s' root virt = lookup_in s root virt"
proof (cases "vpath virt 3 (Suc (length p)) = p @ [i]")
  case False
  note d = adds_tableD [OF add]
  have "entry s' u j = entry s u j"
    if "path q" "tab_at s root q = Some u" "j < ENTRIES" "(q, j) \<noteq> (p, i)" for q u j
  proof (rule adds_entries(1) [OF add])
    show "u \<noteq> k * PAGE_SIZE" using tree_ok_frame [OF d(1) that(1,2)] table_frame_fresh [OF _ d(6)] by blast
    show "(u, j) \<noteq> (t, i)" using tree_ok_inj [OF d(1) that(1) d(13) that(2)] d(3) that(4) by auto
  qed
  from lookup_change [OF this False] show ?thesis by (simp add: lookup_in_def)
next
  case True
  note d = adds_tableD [OF add]
  define n where "n = length p"
  have n: "n < 3" using d(2) by (simp add: path_def n_def)
  have v: "vpath virt 3 n = p" "IDX virt (3 - n) = i"
    using True by (auto simp: vpath_snoc n_def simp del: vpath.simps)
  obtain l where l: "3 - n = Suc l" "3 - Suc n = l" using n by (cases "3 - n") auto
  have "lookup_from s root virt 3 = lookup_from s t virt (3 - n)"
    using lookup_down [of n 3 s root virt t] d(3) v n by simp
  also have "\<dots> = None" using d(4) v(2) by (simp add: l)
  finally have old: "lookup_from s root virt 3 = None" .
  have "tab_at s' root (vpath virt 3 (Suc n)) = Some (k * PAGE_SIZE)"
    using adds_tab_at [OF add d(2)] True by (simp add: n_def del: vpath.simps)
  then have "lookup_from s' root virt 3 = lookup_from s' (k * PAGE_SIZE) virt l"
    using lookup_down [of "Suc n" 3 s' root virt] n l by (simp del: vpath.simps)
  also have "\<dots> = None" using adds_entries(2) [OF add] by (cases l) auto
  finally show ?thesis using old by (simp add: lookup_in_def)
qed

subsection \<open>The steps down\<close>

lemma next_level_look: "next_level t i False tf s = Some (child s t i, s)"
  by (auto simp: next_level_def child_def Let_def)

lemma vpath_unfold:
  "vpath virt 3 3 = [IDX virt 3, IDX virt 2, IDX virt 1]"
  "vpath virt 3 4 = [IDX virt 3, IDX virt 2, IDX virt 1, IDX virt 0]"
  "vpath virt 3 (Suc 0) = [IDX virt 3]"
  "vpath virt 3 (Suc (Suc 0)) = [IDX virt 3, IDX virt 2]"
  "vpath virt 3 (Suc (Suc (Suc 0))) = [IDX virt 3, IDX virt 2, IDX virt 1]"
  by (simp_all add: eval_nat_numeral)

lemma pt_of_look: "pt_of False tf root virt s = Some (tab_at s root (vpath virt 3 3), s)"
  by (auto simp: pt_of_def next_of_def next_level_look vpath_unfold split: option.splits)

definition same_map :: "nat \<Rightarrow> vm \<Rightarrow> vm \<Rightarrow> bool" where
  "same_map root s s' \<longleftrightarrow> tree_ok s' root \<and> (\<forall>virt. lookup_in s' root virt = lookup_in s root virt) \<and>
     kernel_pml4 s' = kernel_pml4 s"

lemma next_level_create:
  assumes "tree_ok s root" and "path (p @ [i])" and "tab_at s root p = Some t" and "table_flags tf"
    and "next_level t i True tf s = Some (r, s')"
  shows "same_map root s s' \<and> (\<forall>u. r = Some u \<longrightarrow> tab_at s' root (p @ [i]) = Some u) \<and>
         (r = None \<longrightarrow> entry s' t i AND PTE_PRESENT \<noteq> 0 \<and> entry s' t i AND PTE_HUGE \<noteq> 0 \<and> s' = s)"
proof (cases "entry s t i AND PTE_PRESENT = 0")
  case True
  obtain phys pm where a: "pmm_alloc_page (vpmm s) = (phys, pm)" by fastforce
  have ph: "phys \<noteq> 0" using assms(5) True a by (auto simp: next_level_def alloc_table_def split: if_splits)
  have inv: "pmm_inv (vpmm s)" using assms(1) by (simp add: tree_ok_def store_ok_def)
  from pmm_frames.alloc_frame [OF inv a ph] obtain k where k: "phys = k * PAGE_SIZE"
    "k < bitmap_pages (vpmm s)" "\<not> test_bit (vpmm s) k" "test_bit pm = (test_bit (vpmm s))(k := True)"
    "pmm_inv pm" "bitmap_pages pm = bitmap_pages (vpmm s)"
    by blast
  define s1 where "s1 = set_entry t i (of_nat (k * PAGE_SIZE) OR PTE_PRESENT OR tf)
            (s\<lparr>vpmm := pm, mem := (mem s)(k * PAGE_SIZE := zero_page)\<rparr>)"
  have add: "adds_table s root p t i k tf pm s1"
    using assms(1-4) True k by (simp add: adds_table_def s1_def)
  have res: "s' = s1" "r = Some (pte_addr (entry s1 t i))"
    using assms(5) True a ph k(1) by (auto simp: next_level_def alloc_table_def s1_def Let_def split: if_splits)
  have "child s1 t i = Some (k * PAGE_SIZE)" using adds_entries(3) [OF add] .
  then have "pte_addr (entry s1 t i) = k * PAGE_SIZE"
    by (auto simp: child_def Let_def split: if_splits)
  then show ?thesis
    using res adds_tree [OF add] adds_lookup [OF add] adds_tab_at [OF add assms(2)]
    by (simp add: same_map_def) (simp add: s1_def)
next
  case False
  then show ?thesis
    using assms(1,3,5) by (auto simp: next_level_def same_map_def tab_at_append child_def split: if_splits)
qed

lemma same_map_trans: "same_map root s1 s2 \<Longrightarrow> same_map root s2 s3 \<Longrightarrow> same_map root s1 s3"
  by (simp add: same_map_def)

lemma next_of_create:
  assumes "tree_ok s root" and "path (p @ [i])" and "\<forall>u. r0 = Some u \<longrightarrow> tab_at s root p = Some u"
    and "table_flags tf" and "next_of r0 i True tf s = Some (r, s')"
    and "r0 = None \<longrightarrow> lookup_in s root virt \<noteq> None" and "p @ [i] = vpath virt 3 (Suc (length p))"
  shows "same_map root s s' \<and> (\<forall>u. r = Some u \<longrightarrow> tab_at s' root (p @ [i]) = Some u) \<and>
         (r = None \<longrightarrow> lookup_in s' root virt \<noteq> None)"
proof (cases r0)
  case None
  then show ?thesis using assms(1,5,6) by (simp add: next_of_def same_map_def)
next
  case (Some t)
  have at: "tab_at s root p = Some t" using Some assms(3) by simp
  have n: "next_level t i True tf s = Some (r, s')" using Some assms(5) by (simp add: next_of_def)
  note c = next_level_create [OF assms(1,2) at assms(4) n]
  have l: "length p \<le> 2" using assms(2) by (simp add: path_def)
  have v: "vpath virt 3 (length p) = p" "IDX virt (3 - length p) = i"
    using assms(7) by (auto simp: vpath_snoc simp del: vpath.simps)
  have "lookup_in s root virt \<noteq> None"
    if "entry s t i AND PTE_PRESENT \<noteq> 0" "entry s t i AND PTE_HUGE \<noteq> 0"
  proof -
    have "lookup_in s root virt = lookup_from s t virt (3 - length p)"
      using lookup_down [of "length p" 3 s root virt t] at v l by (simp add: lookup_in_def)
    moreover obtain k where "3 - length p = Suc k" using l by (cases "3 - length p") auto
    ultimately show ?thesis using that v(2) by simp
  qed
  then show ?thesis using c by blast
qed

lemma pt_of_create:
  assumes "tree_ok s root" and "table_flags tf" and "pt_of True tf root virt s = Some (r, s')"
  shows "same_map root s s' \<and> (\<forall>t. r = Some t \<longrightarrow> tab_at s' root (vpath virt 3 3) = Some t) \<and>
         (r = None \<longrightarrow> lookup_in s' root virt \<noteq> None)"
proof -
  from assms(3) obtain r1 s1 r2 s2 where n: "next_of (Some root) (IDX virt 3) True tf s = Some (r1, s1)"
    "next_of r1 (IDX virt 2) True tf s1 = Some (r2, s2)" "next_of r2 (IDX virt 1) True tf s2 = Some (r, s')"
    by (auto simp: pt_of_def next_of_def split: bind_splits)
  have 1: "same_map root s s1 \<and> (\<forall>u. r1 = Some u \<longrightarrow> tab_at s1 root ([] @ [IDX virt 3]) = Some u) \<and>
    (r1 = None \<longrightarrow> lookup_in s1 root virt \<noteq> None)"
    using n(1) by (intro next_of_create [OF assms(1) _ _ assms(2)]) (auto simp: path_def vpath_unfold simp del: vpath.simps)
  then have t1: "tree_ok s1 root" by (simp add: same_map_def)
  have 2: "same_map root s1 s2 \<and> (\<forall>u. r2 = Some u \<longrightarrow> tab_at s2 root ([IDX virt 3] @ [IDX virt 2]) = Some u) \<and>
    (r2 = None \<longrightarrow> lookup_in s2 root virt \<noteq> None)"
    using n(2) 1 by (intro next_of_create [OF t1 _ _ assms(2)]) (auto simp: path_def vpath_unfold simp del: vpath.simps)
  then have t2: "tree_ok s2 root" by (simp add: same_map_def)
  have 3: "same_map root s2 s' \<and> (\<forall>u. r = Some u \<longrightarrow> tab_at s' root ([IDX virt 3, IDX virt 2] @ [IDX virt 1]) = Some u) \<and>
    (r = None \<longrightarrow> lookup_in s' root virt \<noteq> None)"
    using n(3) 2 by (intro next_of_create [OF t2 _ _ assms(2)]) (auto simp: path_def vpath_unfold simp del: vpath.simps)
  show ?thesis
    using 1 2 3 same_map_trans [of root s s1 s2] same_map_trans [of root s s2 s'] by (simp add: vpath_unfold)
qed

subsection \<open>Running out of frames\<close>

definition frames_left :: "vm \<Rightarrow> nat" where
  "frames_left s = card {i. i < bitmap_pages (vpmm s) \<and> \<not> test_bit (vpmm s) i}"

lemma next_of_returns:
  assumes "tree_ok s root" and "Suc n \<le> frames_left s"
  shows "\<exists>r s'. next_of t i create tf s = Some (r, s') \<and> n \<le> frames_left s'"
proof -
  obtain phys pm where a: "pmm_alloc_page (vpmm s) = (phys, pm)" by fastforce
  have inv: "pmm_inv (vpmm s)" using assms(1) by (simp add: tree_ok_def store_ok_def)
  from pmm_frames.alloc_left [OF inv _ a] assms(2)
  have "phys \<noteq> 0" "n \<le> card {i. i < bitmap_pages pm \<and> \<not> test_bit pm i}"
    by (auto simp: frames_left_def)
  then show ?thesis
    using assms(2) a by (cases t) (auto simp: next_of_def next_level_def alloc_table_def Let_def frames_left_def)
qed

lemma pt_of_returns:
  assumes "tree_ok s root" and "table_flags tf" and "n + 3 \<le> frames_left s"
  shows "\<exists>r s'. pt_of True tf root virt s = Some (r, s') \<and> n \<le> frames_left s'"
proof -
  obtain r1 s1 where 1: "next_of (Some root) (IDX virt 3) True tf s = Some (r1, s1)" "n + 2 \<le> frames_left s1"
    using next_of_returns [OF assms(1), of "n + 2" "Some root" "IDX virt 3" True tf] assms(3) by auto
  have c1: "same_map root s s1 \<and> (\<forall>u. r1 = Some u \<longrightarrow> tab_at s1 root ([] @ [IDX virt 3]) = Some u) \<and>
      (r1 = None \<longrightarrow> lookup_in s1 root virt \<noteq> None)"
    using 1(1) by (intro next_of_create [OF assms(1) _ _ assms(2)]) (auto simp: path_def vpath_unfold simp del: vpath.simps)
  then have t1: "tree_ok s1 root" by (simp add: same_map_def)
  obtain r2 s2 where 2: "next_of r1 (IDX virt 2) True tf s1 = Some (r2, s2)" "n + 1 \<le> frames_left s2"
    using next_of_returns [OF t1, of "n + 1" r1 "IDX virt 2" True tf] 1(2) by auto
  have c2: "same_map root s1 s2 \<and> (\<forall>u. r2 = Some u \<longrightarrow> tab_at s2 root ([IDX virt 3] @ [IDX virt 2]) = Some u) \<and>
      (r2 = None \<longrightarrow> lookup_in s2 root virt \<noteq> None)"
    using 2(1) c1 by (intro next_of_create [OF t1 _ _ assms(2)]) (auto simp: path_def vpath_unfold simp del: vpath.simps)
  then have t2: "tree_ok s2 root" by (simp add: same_map_def)
  obtain r3 s3 where 3: "next_of r2 (IDX virt 1) True tf s2 = Some (r3, s3)" "n \<le> frames_left s3"
    using next_of_returns [OF t2, of n r2 "IDX virt 1" True tf] 2(2) by auto
  show ?thesis using 1(1) 2(1) 3 by (simp add: pt_of_def next_of_def)
qed

subsection \<open>Changing a mapping\<close>

definition same_page :: "u64 \<Rightarrow> u64 \<Rightarrow> bool" where
  "same_page v w \<longleftrightarrow> (\<forall>l < 4. IDX v l = IDX w l)"

lemma same_page_vpath: "same_page v w \<longleftrightarrow> vpath v 3 4 = vpath w 3 4"
  by (auto simp: same_page_def vpath_unfold less_Suc_eq numeral_eq_Suc)

lemma set_leaf:
  assumes tree: "tree_ok s root" and at: "tab_at s root (vpath virt 3 3) = Some t"
  shows "tree_ok (set_entry t (IDX virt 0) e s) root"
    and "lookup_in (set_entry t (IDX virt 0) e s) root v =
         (if same_page v virt then (if e AND PTE_PRESENT = 0 then None else Some (e, 0)) else lookup_in s root v)"
    and "tab_at (set_entry t (IDX virt 0) e s) root (vpath virt 3 3) = Some t"
proof -
  define s' where "s' = set_entry t (IDX virt 0) e s"
  have len: "length (mem s u) = ENTRIES" for u using tree by (simp add: tree_ok_def store_ok_def)
  have ent: "entry s' u j = (if u = t \<and> j = IDX virt 0 then e else entry s u j)" for u j
    unfolding s'_def by (rule entry_set_entry) (simp add: len)
  have only: "q = vpath virt 3 3" if "path q" "tab_at s root q = Some t" for q
    using tree_ok_inj [OF tree that(1) _ that(2) at] by simp
  have tab: "tab_at s' root q = tab_at s root q" if "path q" for q
    using that
  proof (induction q rule: rev_induct)
    case (snoc j q)
    have q: "path q" "length q < 3" using snoc.prems by (auto simp: path_def vpath_unfold simp del: vpath.simps)
    have "child s' u j = child s u j" if "tab_at s root q = Some u" for u
    proof -
      have "u \<noteq> t" using only [OF q(1)] that q(2) by auto
      then show ?thesis using ent by (simp add: child_def)
    qed
    then show ?case using snoc.IH [OF q(1)] by (auto simp: tab_at_append split: option.splits)
  qed simp
  show "tree_ok (set_entry t (IDX virt 0) e s) root"
    using tree tab unfolding s'_def [symmetric]
    by (auto simp: tree_ok_def store_ok_def table_frame_def) (simp_all add: s'_def)
  show "tab_at (set_entry t (IDX virt 0) e s) root (vpath virt 3 3) = Some t"
    using tab [of "vpath virt 3 3"] at by (simp add: s'_def)
  show "lookup_in (set_entry t (IDX virt 0) e s) root v =
         (if same_page v virt then (if e AND PTE_PRESENT = 0 then None else Some (e, 0)) else lookup_in s root v)"
  proof (cases "same_page v virt")
    case True
    then have v: "vpath v 3 3 = vpath virt 3 3" "IDX v 0 = IDX virt 0"
      by (auto simp: same_page_vpath vpath_unfold)
    have "lookup_from s' root v 3 = lookup_from s' t v 0"
      using lookup_down [of 3 3 s' root v t] tab [of "vpath virt 3 3"] at v by simp
    then show ?thesis using True v(2) ent by (simp add: lookup_in_def s'_def Let_def)
  next
    case False
    have "lookup_from s' root v 3 = lookup_from s root v 3"
    proof (rule lookup_change)
      show "entry s' u j = entry s u j"
        if "path q" "tab_at s root q = Some u" "j < ENTRIES" "(q, j) \<noteq> (vpath virt 3 3, IDX virt 0)" for q u j
        using ent only [OF that(1)] that(2,4) by auto
      show "vpath v 3 (Suc (length (vpath virt 3 3))) \<noteq> vpath virt 3 3 @ [IDX virt 0]"
        using False vpath_snoc [of virt 3 3] by (simp add: same_page_vpath del: vpath.simps)
    qed
    then show ?thesis using False by (simp add: lookup_in_def s'_def)
  qed
qed

lemma map_in_effect:
  assumes tree: "tree_ok s root" and tf: "table_flags tflags"
    and m: "map_in root virt phys flags tflags s = Some (rc, s')"
    and e: "e = (phys AND PTE_ADDR_MASK) OR PTE_PRESENT OR flags"
  shows "tree_ok s' root \<and> (rc = 0 \<longleftrightarrow> lookup_in s root virt = None) \<and>
         (\<forall>v. lookup_in s' root v = (if rc = 0 \<and> same_page v virt then Some (e, 0) else lookup_in s root v)) \<and>
         (rc = 0 \<longrightarrow> (\<exists>t. tab_at s' root (vpath virt 3 3) = Some t \<and> entry s' t (IDX virt 0) = e)) \<and>
         kernel_pml4 s' = kernel_pml4 s"
proof -
  obtain r s1 where p: "pt_of True tflags root virt s = Some (r, s1)"
    using m by (auto simp: map_in_def split: bind_splits)
  from pt_of_create [OF tree tf p] have c: "tree_ok s1 root" "\<And>v. lookup_in s1 root v = lookup_in s root v"
    "\<And>t. r = Some t \<Longrightarrow> tab_at s1 root (vpath virt 3 3) = Some t" "r = None \<Longrightarrow> lookup_in s root virt \<noteq> None"
    "kernel_pml4 s1 = kernel_pml4 s"
    by (auto simp: same_map_def)
  show ?thesis
  proof (cases r)
    case None
    then show ?thesis using m p c by (auto simp: map_in_def)
  next
    case (Some t)
    note at = c(3) [OF Some]
    have d: "lookup_in s root virt = lookup_from s1 t virt 0"
      using lookup_down [of 3 3 s1 root virt t] at c(2) [of virt] by (simp add: lookup_in_def)
    show ?thesis
    proof (cases "entry s1 t (IDX virt 0) AND PTE_PRESENT = 0")
      case True
      then have r: "rc = 0" "s' = set_entry t (IDX virt 0) e s1"
        using m p Some by (auto simp: map_in_def e)
      note l = set_leaf [OF c(1) at, of e, folded r(2)]
      have "bit (e AND PTE_PRESENT) 0" by (simp add: e bit_simps)
      then have "e AND PTE_PRESENT \<noteq> 0" by auto
      moreover have "entry s' t (IDX virt 0) = e"
        using c(1) unfolding r(2) by (subst entry_set_entry) (auto simp: tree_ok_def store_ok_def)
      moreover have "lookup_in s root virt = None" using d True by simp
      moreover have "kernel_pml4 s' = kernel_pml4 s" using c(5) by (simp add: r(2))
      ultimately show ?thesis using l r(1) c(2) by simp
    next
      case False
      moreover from this have "lookup_in s root virt \<noteq> None" using d by simp
      ultimately show ?thesis using m p Some c by (auto simp: map_in_def)
    qed
  qed
qed

lemma map_in_left:
  assumes "tree_ok s root" and "table_flags tf" and "n + 3 \<le> frames_left s"
  shows "\<exists>rc s'. map_in root virt phys flags tf s = Some (rc, s') \<and> n \<le> frames_left s'"
proof -
  obtain r s' where "pt_of True tf root virt s = Some (r, s')" "n \<le> frames_left s'"
    using pt_of_returns [OF assms] by blast
  then show ?thesis by (cases r) (auto simp: map_in_def Let_def frames_left_def set_entry_def)
qed

lemma map_in_returns:
  "tree_ok s root \<Longrightarrow> table_flags tf \<Longrightarrow> 3 \<le> frames_left s \<Longrightarrow>
   \<exists>rc s'. map_in root virt phys flags tf s = Some (rc, s')"
  using map_in_left [of s root tf 0] by fastforce

lemma unmap_in_effect:
  assumes tree: "tree_ok s root" and at: "tab_at s root (vpath virt 3 3) = Some t"
    and e: "e = entry s t (IDX virt 0)" and p: "e AND PTE_PRESENT \<noteq> 0"
  shows "\<exists>s'. unmap_in root virt s = Some (if e AND PTE_DEV = 0 then e AND PTE_ADDR_MASK else 0, s') \<and>
    tree_ok s' root \<and> (\<forall>v. lookup_in s' root v = (if same_page v virt then None else lookup_in s root v))"
  using set_leaf [OF tree at, of 0] p
  by (intro exI [of _ "set_entry t (IDX virt 0) 0 s"]) (simp add: unmap_in_def pt_of_look at e Let_def)

subsection \<open>A new address space\<close>

lemma fold_copy:
  assumes "i < length d"
  shows "fold (\<lambda>i d. d[i := src ! i]) xs d ! i = (if i \<in> set xs then src ! i else d ! i)"
  using assms by (induction xs arbitrary: d) (auto simp: nth_list_update)

lemma fold_copy_length: "length (fold (\<lambda>i d. d[i := src ! i]) xs d) = length d"
  by (induction xs arbitrary: d) auto

lemma copy_kernel_part:
  "length (copy_kernel_part src dst) = length dst"
  "i < length dst \<Longrightarrow> i < ENTRIES \<Longrightarrow> copy_kernel_part src dst ! i = (if i = 0 \<or> 256 \<le> i then src ! i else dst ! i)"
  unfolding copy_kernel_part_def
  by (simp_all only: fold_copy_length fold_copy length_list_update set_upt) (auto simp: nth_list_update)

lemma create_effect:
  assumes tree: "tree_ok s (kernel_pml4 s)" and c: "vmm_create_address_space s = Some (pml4, s')"
  shows "kernel_pml4 s' = kernel_pml4 s"
    and "\<And>j. j < ENTRIES \<Longrightarrow> entry s' pml4 j = (if j = 0 \<or> 256 \<le> j then entry s (kernel_pml4 s) j else 0)"
    and "\<And>q u j. path q \<Longrightarrow> tab_at s (kernel_pml4 s) q = Some u \<Longrightarrow> entry s' u j = entry s u j"
proof -
  obtain phys pm where a: "pmm_alloc_page (vpmm s) = (phys, pm)" by fastforce
  have ph: "phys \<noteq> 0" using c a by (auto simp: vmm_create_address_space_def alloc_table_def split: if_splits)
  have inv: "pmm_inv (vpmm s)" using tree by (simp add: tree_ok_def store_ok_def)
  from pmm_frames.alloc_frame [OF inv a ph] obtain k where k: "phys = k * PAGE_SIZE" "\<not> test_bit (vpmm s) k"
    by blast
  have fresh: "u \<noteq> phys" if "path q" "tab_at s (kernel_pml4 s) q = Some u" for q u
    using table_frame_fresh [OF tree_ok_frame [OF tree that] k(2)] k(1) by simp
  have kp: "kernel_pml4 s \<noteq> phys" using fresh [of "[]"] by (simp add: path_def)
  have s': "pml4 = phys"
    "s' = s\<lparr>vpmm := pm, mem := (mem s)(phys := copy_kernel_part (mem s (kernel_pml4 s)) zero_page)\<rparr>"
    using c a ph kp by (auto simp: vmm_create_address_space_def alloc_table_def Let_def)
  show "kernel_pml4 s' = kernel_pml4 s" by (simp add: s')
  show "entry s' pml4 j = (if j = 0 \<or> 256 \<le> j then entry s (kernel_pml4 s) j else 0)" if "j < ENTRIES" for j
    using that copy_kernel_part(2) [of j zero_page] by (simp add: s' entry_def zero_page_def)
  show "entry s' u j = entry s u j" if "path q" "tab_at s (kernel_pml4 s) q = Some u" for q u j
    using fresh [OF that] by (simp add: s' entry_def)
qed

subsection \<open>Taking an address space down\<close>

text \<open>The frame numbers of a subtree in the order they are freed: the entries of a table, then the table.\<close>

fun tree_frames :: "(nat \<Rightarrow> u64 list) \<Rightarrow> nat \<Rightarrow> nat \<Rightarrow> nat list" where
  "tree_frames m phys 0 = []"
| "tree_frames m phys (Suc l) =
     concat (map (\<lambda>i.
       let e = m phys ! i
       in if e AND PTE_PRESENT = 0 then []
          else if l = 0 then (if e AND PTE_DEV = 0 then [pte_addr e div PAGE_SIZE] else [])
          else tree_frames m (pte_addr e) l) all_entries) @ [phys div PAGE_SIZE]"

definition user_frames :: "vm \<Rightarrow> nat \<Rightarrow> nat list" where
  "user_frames s pml4 =
     concat (map (\<lambda>i.
       let e = mem s pml4 ! i
       in if e AND PTE_PRESENT \<noteq> 0 then tree_frames (mem s) (pte_addr e) 3 else []) user_entries) @ [pml4 div PAGE_SIZE]"

definition free_frames :: "nat list \<Rightarrow> pmm \<Rightarrow> pmm" where
  "free_frames ks p = fold (\<lambda>k. pmm_free_page (k * PAGE_SIZE)) ks p"

lemma free_frames_simps [simp]:
  "free_frames [] p = p" "free_frames (xs @ ys) p = free_frames ys (free_frames xs p)"
  "free_frames [phys div PAGE_SIZE] p = pmm_free_page phys p"
  by (simp_all add: free_frames_def pmm_free_page_def pmm_free_pages_def)

lemma free_frames_concat: "free_frames (concat (map f xs)) p = fold (\<lambda>x. free_frames (f x)) xs p"
  by (induction xs arbitrary: p) simp_all

lemma free_table_tree: "free_table_recursive m phys l p = free_frames (tree_frames m phys l) p"
proof (induction l arbitrary: phys p)
  case (Suc l)
  have "fold (\<lambda>i p. let e = m phys ! i
            in if e AND PTE_PRESENT = 0 then p
               else if l = 0 then (if e AND PTE_DEV = 0 then pmm_free_page (pte_addr e) p else p)
               else free_table_recursive m (pte_addr e) l p) xs p =
        free_frames (concat (map (\<lambda>i. let e = m phys ! i
       in if e AND PTE_PRESENT = 0 then []
          else if l = 0 then (if e AND PTE_DEV = 0 then [pte_addr e div PAGE_SIZE] else [])
          else tree_frames m (pte_addr e) l) xs)) p" for xs
    unfolding free_frames_concat
    by (rule fold_cong) (auto simp: Suc.IH Let_def fun_eq_iff)
  then show ?case by (simp add: Let_def)
qed simp

lemma destroy_frames:
  "vpmm (vmm_destroy_address_space pml4 s) = free_frames (user_frames s pml4) (vpmm s)"
proof -
  have "fold (\<lambda>i p. let e = mem s pml4 ! i
            in if e AND PTE_PRESENT \<noteq> 0 then free_table_recursive (mem s) (pte_addr e) 3 p else p) xs p =
        free_frames (concat (map (\<lambda>i. let e = mem s pml4 ! i
            in if e AND PTE_PRESENT \<noteq> 0 then tree_frames (mem s) (pte_addr e) 3 else []) xs)) p" for xs p
    unfolding free_frames_concat
    by (rule fold_cong) (auto simp: free_table_tree Let_def fun_eq_iff)
  then show ?thesis by (simp add: vmm_destroy_address_space_def user_frames_def Let_def)
qed

lemma free_frames_effect:
  assumes "pmm_core p" and "\<And>k. k \<in> set ks \<Longrightarrow> k < bitmap_pages p \<and> count_list ks k \<le> unat (ref_of p k)"
  shows "pmm_core (free_frames ks p) \<and> (\<forall>k. unat (ref_of (free_frames ks p) k) = unat (ref_of p k) - count_list ks k) \<and>
         test_bit (free_frames ks p) = (\<lambda>k. test_bit p k \<and> (k \<in> set ks \<longrightarrow> count_list ks k < unat (ref_of p k)))"
  using assms
proof (induction ks arbitrary: p)
  case (Cons k ks)
  define p1 where "p1 = pmm_free_page (k * PAGE_SIZE) p"
  have k: "k < bitmap_pages p" "Suc (count_list ks k) \<le> unat (ref_of p k)" using Cons.prems(2) [of k] by auto
  then have r: "ref_of p k \<noteq> 0" by auto
  then have b: "test_bit p k" using Cons.prems(1) k by (auto simp: core_defs)
  have e: "pmm_core p1" "bitmap_pages p1 = bitmap_pages p"
    "test_bit p1 = (if ref_of p k \<le> 1 then (test_bit p)(k := False) else test_bit p)"
    "ref_of p1 = (ref_of p)(k := ref_of p k - 1)"
    using pmm_free_page_core [OF Cons.prems(1), of "k * PAGE_SIZE"] free_page_effect [OF Cons.prems(1), of "k * PAGE_SIZE"]
      free_frame_effect [OF Cons.prems(1), of k] k b r by (auto simp: p1_def)
  have u: "unat (ref_of p k - 1) = unat (ref_of p k) - 1" using r by (simp add: unat_minus_one)
  have one: "ref_of p k \<le> 1 \<longleftrightarrow> unat (ref_of p k) \<le> 1" by (simp add: word_le_nat_alt)
  have "\<And>j. j \<in> set ks \<Longrightarrow> j < bitmap_pages p1 \<and> count_list ks j \<le> unat (ref_of p1 j)"
  proof -
    fix j assume "j \<in> set ks"
    then show "j < bitmap_pages p1 \<and> count_list ks j \<le> unat (ref_of p1 j)"
      using Cons.prems(2) [of j] k(2) e(2,4) u by (cases "j = k") auto
  qed
  from Cons.IH [OF e(1) this]
  have c: "pmm_core (free_frames ks p1)" "\<And>j. unat (ref_of (free_frames ks p1) j) = unat (ref_of p1 j) - count_list ks j"
    "test_bit (free_frames ks p1) = (\<lambda>j. test_bit p1 j \<and> (j \<in> set ks \<longrightarrow> count_list ks j < unat (ref_of p1 j)))" by auto
  have f: "free_frames (k # ks) p = free_frames ks p1" by (simp add: free_frames_def p1_def)
  have "unat (ref_of p1 j) - count_list ks j = unat (ref_of p j) - count_list (k # ks) j" for j
    using e(4) u by (cases "j = k") auto
  moreover have "test_bit p1 j \<and> (j \<in> set ks \<longrightarrow> count_list ks j < unat (ref_of p1 j)) \<longleftrightarrow>
      test_bit p j \<and> (j \<in> set (k # ks) \<longrightarrow> count_list (k # ks) j < unat (ref_of p j))" for j
    using e(3,4) u one k(2) b count_list_0_iff [of ks j] by (cases "j = k") auto
  ultimately show ?case unfolding f by (simp add: c)
qed (simp add: free_frames_def)

text \<open>
  What an address space owns, by paths of indices from its top table: a path of less than \<open>l\<close> indices leads to
  a table, one of \<open>l\<close> indices to a page; pages of device memory are not owned. The private user part are the
  paths through the entries 1 to 255 of the top table.
\<close>

definition frame_at :: "vm \<Rightarrow> nat \<Rightarrow> nat \<Rightarrow> nat list \<Rightarrow> nat option" where
  "frame_at s l t p =
     (if length p < l then tab_at s t p
      else if length p = l then
        case tab_at s t (butlast p) of None \<Rightarrow> None
        | Some u \<Rightarrow>
            let e = entry s u (last p)
            in if e AND PTE_PRESENT \<noteq> 0 \<and> e AND PTE_DEV = 0 then Some (pte_addr e) else None
      else None)"

definition user_path :: "nat list \<Rightarrow> bool" where
  "user_path p \<longleftrightarrow> set p \<subseteq> {0 ..< 512} \<and> (p \<noteq> [] \<longrightarrow> 1 \<le> hd p \<and> hd p \<le> 255)"

definition user_refs :: "vm \<Rightarrow> nat \<Rightarrow> nat \<Rightarrow> nat" where
  "user_refs s pml4 k = card {p. user_path p \<and> (\<exists>a. frame_at s 4 pml4 p = Some a \<and> a div PAGE_SIZE = k)}"

definition no_huge_pages :: "vm \<Rightarrow> nat \<Rightarrow> bool" where
  "no_huge_pages s pml4 \<longleftrightarrow>
     (\<forall>p i u. length p \<le> 2 \<and> user_path (p @ [i]) \<and> tab_at s pml4 p = Some u \<and> entry s u i AND PTE_PRESENT \<noteq> 0 \<longrightarrow>
        entry s u i AND PTE_HUGE = 0)"

lemma card_paths:
  fixes n :: nat
  assumes "\<And>p. p \<in> F \<Longrightarrow> set p \<subseteq> {0 ..< n} \<and> length p \<le> m"
  shows "card F = of_bool ([] \<in> F) + (\<Sum>i = 0 ..< n. card {p. i # p \<in> F})"
proof -
  have "F \<subseteq> {p. set p \<subseteq> {0 ..< n} \<and> length p \<le> m}" using assms by blast
  then have fin: "finite F" using finite_lists_length_le [of "{0 ..< n}" m] by (auto intro: finite_subset)
  have fin2: "finite {p. i # p \<in> F}" for i
    by (rule finite_imageD [of "(#) i"]) (auto intro: finite_subset [OF _ fin] simp: inj_on_def)
  have F: "F = (F \<inter> {[]}) \<union> (\<Union>i \<in> {0 ..< n}. (#) i ` {p. i # p \<in> F})"
  proof (intro set_eqI)
    fix p show "p \<in> F \<longleftrightarrow> p \<in> (F \<inter> {[]}) \<union> (\<Union>i \<in> {0 ..< n}. (#) i ` {p. i # p \<in> F})"
      using assms [of p] by (cases p) auto
  qed
  have "card F = card (F \<inter> {[]}) + card (\<Union>i \<in> {0 ..< n}. (#) i ` {p. i # p \<in> F})"
    by (subst F, rule card_Un_disjoint) (auto simp: fin2)
  also have "card (\<Union>i \<in> {0 ..< n}. (#) i ` {p. i # p \<in> F}) = (\<Sum>i = 0 ..< n. card {p. i # p \<in> F})"
    by (subst card_UN_disjoint) (auto simp: fin2 card_image)
  also have "card (F \<inter> {[]}) = of_bool ([] \<in> F)" by auto
  finally show ?thesis .
qed

lemma count_concat:
  "count_list (concat (map f [a ..< b])) k = (\<Sum>i = a ..< b. count_list (f i) k)"
proof -
  have "count_list (concat (map f xs)) k = sum_list (map (\<lambda>i. count_list (f i) k) xs)" for xs
    by (induction xs) simp_all
  then show ?thesis by (simp add: interv_sum_list_conv_sum_set_nat)
qed

lemma frame_at_Cons:
  assumes "0 < l"
  shows "frame_at s (Suc l) t (i # p) = (case child s t i of None \<Rightarrow> None | Some u \<Rightarrow> frame_at s l u p)"
  using assms by (cases p rule: rev_cases) (auto simp: frame_at_def split: option.splits)

lemma tree_frames_count:
  assumes "\<And>p i u. length p < l \<Longrightarrow> set (p @ [i]) \<subseteq> {0 ..< 512} \<Longrightarrow> tab_at s t p = Some u \<Longrightarrow>
      entry s u i AND PTE_PRESENT \<noteq> 0 \<Longrightarrow> entry s u i AND PTE_HUGE = 0"
  shows "count_list (tree_frames (mem s) t (Suc l)) k =
         card {p. set p \<subseteq> {0 ..< 512} \<and> (\<exists>a. frame_at s (Suc l) t p = Some a \<and> a div PAGE_SIZE = k)}"
  using assms
proof (induction l arbitrary: t)
  case 0
  have "{p. i # p \<in> {p. set p \<subseteq> {0 ..< 512} \<and> (\<exists>a. frame_at s 1 t p = Some a \<and> a div PAGE_SIZE = k)}} =
      (if i < 512 \<and> (let e = entry s t i in e AND PTE_PRESENT \<noteq> 0 \<and> e AND PTE_DEV = 0 \<and> pte_addr e div PAGE_SIZE = k)
       then {[]} else {})" for i
    by (auto simp: frame_at_def Let_def split: if_splits)
  then show ?case
    by (subst card_paths [where n = 512 and m = 1])
      (auto simp: frame_at_def count_concat all_entries_def Let_def entry_def split: if_splits intro!: sum.cong)
next
  case (Suc l)
  have IH: "count_list (tree_frames (mem s) (pte_addr (entry s t i)) (Suc l)) k =
      card {p. set p \<subseteq> {0 ..< 512} \<and> (\<exists>a. frame_at s (Suc l) (pte_addr (entry s t i)) p = Some a \<and> a div PAGE_SIZE = k)}"
    if "i < 512" "child s t i = Some (pte_addr (entry s t i))" for i
    using that Suc.prems [of "i # _"] by (intro Suc.IH) auto
  define F where "F = {p. set p \<subseteq> {0 ..< 512} \<and> (\<exists>a. frame_at s (Suc (Suc l)) t p = Some a \<and> a div PAGE_SIZE = k)}"
  have c: "child s t i = (if entry s t i AND PTE_PRESENT \<noteq> 0 then Some (pte_addr (entry s t i)) else None)" if "i < 512" for i
    using Suc.prems [of "[]" i t] that by (auto simp: child_def Let_def)
  have F: "{p. i # p \<in> F} = (if entry s t i AND PTE_PRESENT \<noteq> 0
       then {p. set p \<subseteq> {0 ..< 512} \<and> (\<exists>a. frame_at s (Suc l) (pte_addr (entry s t i)) p = Some a \<and> a div PAGE_SIZE = k)}
       else {})" if "i < 512" for i
    using c [OF that] that by (auto simp: F_def frame_at_Cons)
  have "[] \<in> F \<longleftrightarrow> t div PAGE_SIZE = k" by (auto simp: F_def frame_at_def)
  moreover have "card F = of_bool ([] \<in> F) + (\<Sum>i = 0 ..< 512. card {p. i # p \<in> F})"
    by (rule card_paths [where m = "Suc (Suc l)"]) (auto simp: F_def frame_at_def split: if_splits)
  moreover have "(\<Sum>i = 0 ..< 512. card {p. i # p \<in> F}) =
      (\<Sum>i = 0 ..< 512. if entry s t i AND PTE_PRESENT \<noteq> 0
         then count_list (tree_frames (mem s) (pte_addr (entry s t i)) (Suc l)) k else 0)"
    by (rule sum.cong) (simp_all add: F IH c del: tree_frames.simps)
  moreover have "count_list (tree_frames (mem s) t (Suc (Suc l))) k = (\<Sum>i = 0 ..< 512. if entry s t i AND PTE_PRESENT \<noteq> 0
         then count_list (tree_frames (mem s) (pte_addr (entry s t i)) (Suc l)) k else 0) + of_bool (t div PAGE_SIZE = k)"
    unfolding tree_frames.simps(2) [of "mem s" t "Suc l"] count_list_append all_entries_def count_concat
    by (auto simp: Let_def entry_def simp del: tree_frames.simps intro!: sum.cong)
  ultimately show ?case unfolding F_def by simp
qed

lemma user_frames_count:
  assumes "no_huge_pages s pml4"
  shows "count_list (user_frames s pml4) k = user_refs s pml4 k"
proof -
  define F where "F = {p. user_path p \<and> (\<exists>a. frame_at s 4 pml4 p = Some a \<and> a div PAGE_SIZE = k)}"
  define n where "n i = (if entry s pml4 i AND PTE_PRESENT \<noteq> 0
    then count_list (tree_frames (mem s) (pte_addr (entry s pml4 i)) 3) k else 0)" for i
  have F: "card {p. i # p \<in> F} = (if 1 \<le> i \<and> i \<le> 255 then n i else 0)" for i
  proof (cases "1 \<le> i \<and> i \<le> 255")
    case True
    have c: "child s pml4 i = (if entry s pml4 i AND PTE_PRESENT \<noteq> 0 then Some (pte_addr (entry s pml4 i)) else None)"
      using assms [unfolded no_huge_pages_def, rule_format, of "[]" i pml4] True by (auto simp: child_def Let_def user_path_def)
    then have t: "count_list (tree_frames (mem s) (pte_addr (entry s pml4 i)) (Suc 2)) k =
        card {p. set p \<subseteq> {0 ..< 512} \<and> (\<exists>a. frame_at s (Suc 2) (pte_addr (entry s pml4 i)) p = Some a \<and> a div PAGE_SIZE = k)}"
      if "entry s pml4 i AND PTE_PRESENT \<noteq> 0"
      using assms [unfolded no_huge_pages_def, rule_format, of "i # _"] True that
      by (intro tree_frames_count) (auto simp: user_path_def less_Suc_eq_le numeral_2_eq_2)
    have "{p. i # p \<in> F} = (if entry s pml4 i AND PTE_PRESENT \<noteq> 0
        then {p. set p \<subseteq> {0 ..< 512} \<and> (\<exists>a. frame_at s 3 (pte_addr (entry s pml4 i)) p = Some a \<and> a div PAGE_SIZE = k)} else {})"
      using True c frame_at_Cons [of 3 s pml4 i] by (auto simp: F_def user_path_def)
    then show ?thesis using t True by (simp add: n_def del: tree_frames.simps)
  qed (auto simp: F_def user_path_def)
  have "[] \<in> F \<longleftrightarrow> pml4 div PAGE_SIZE = k" by (auto simp: F_def frame_at_def user_path_def)
  moreover have "card F = of_bool ([] \<in> F) + (\<Sum>i = 0 ..< 512. card {p. i # p \<in> F})"
    by (rule card_paths [where m = 4]) (auto simp: F_def frame_at_def user_path_def split: if_splits)
  moreover have "(\<Sum>i = 0 ..< 512. card {p. i # p \<in> F}) = (\<Sum>i = 1 ..< 256. n i)"
    unfolding F by (rule sum.mono_neutral_cong_right) auto
  moreover have "count_list (user_frames s pml4) k = (\<Sum>i = 1 ..< 256. n i) + of_bool (pml4 div PAGE_SIZE = k)"
    unfolding user_frames_def count_list_append user_entries_def count_concat
    by (auto simp: Let_def entry_def n_def simp del: tree_frames.simps intro!: sum.cong)
  ultimately show ?thesis unfolding user_refs_def F_def by simp
qed

lemma same_page_lookup:
  assumes "same_page v w"
  shows "lookup_in s root v = lookup_in s root w"
proof -
  have "l \<le> 3 \<Longrightarrow> lookup_from s t v l = lookup_from s t w l" for t l
    using assms by (induction l arbitrary: t) (simp_all add: same_page_def Let_def)
  then show ?thesis by (simp add: lookup_in_def)
qed

subsection \<open>Properties\<close>

text \<open>
  C3: mapping a page works and touches nothing else: \<^verbatim>\<open>map_in\<close> succeeds exactly when nothing maps the
  address yet, and then the addresses of that page translate to the given frame (with their offset)
  and every other address translates as before; when it fails every address translates as before. The
  tables stay a tree of frames in use, and three free frames are enough for the call to return.
\<close>

theorem map_in_translates:
  assumes "tree_ok s root" and "table_flags tflags" and "flags AND PTE_ADDR_MASK = 0" and "3 \<le> frames_left s"
  shows "\<exists>rc s'. map_in root virt phys flags tflags s = Some (rc, s') \<and> tree_ok s' root \<and>
           (rc = 0 \<longleftrightarrow> lookup_in s root virt = None) \<and>
           (\<forall>v. translate_in s' root v =
             (if rc = 0 \<and> same_page v virt then (phys AND PTE_ADDR_MASK) OR (v AND 0xFFF) else translate_in s root v))"
proof -
  define e where "e = (phys AND PTE_ADDR_MASK) OR PTE_PRESENT OR flags"
  obtain rc s' where m: "map_in root virt phys flags tflags s = Some (rc, s')"
    using map_in_returns [OF assms(1,2,4)] by blast
  have "e AND PTE_ADDR_MASK = phys AND PTE_ADDR_MASK"
    using assms(3) by (simp add: e_def bit.conj_disj_distrib2 and.assoc)
  then show ?thesis
    using map_in_effect [OF assms(1,2) m e_def] m by (auto simp: translate_lookup page_addr_def)
qed

text \<open>
  C29: unmapping undoes mapping: after a successful \<^verbatim>\<open>map_in\<close>, \<^verbatim>\<open>unmap_in\<close> on the address
  leaves every address mapped as it was before the two calls. It returns the frame that was mapped, for the
  caller to free, or 0 when the page was mapped as device memory, which has no frame to free.
\<close>

theorem map_unmap_roundtrip:
  assumes "tree_ok s root" and "table_flags tflags" and "flags AND PTE_ADDR_MASK = 0" and "map_in root virt phys flags tflags s = Some (0, s')"
  shows "\<exists>s''. unmap_in root virt s' = Some (if flags AND PTE_DEV = 0 then phys AND PTE_ADDR_MASK else 0, s'') \<and> tree_ok s'' root \<and>
               (\<forall>v. lookup_in s'' root v = lookup_in s root v \<and> translate_in s'' root v = translate_in s root v)"
proof -
  define e where "e = (phys AND PTE_ADDR_MASK) OR PTE_PRESENT OR flags"
  note m = map_in_effect [OF assms(1,2,4) e_def]
  obtain t where t: "tab_at s' root (vpath virt 3 3) = Some t" "entry s' t (IDX virt 0) = e"
    using m by blast
  have "bit (e AND PTE_PRESENT) 0" by (simp add: e_def bit_simps)
  then have p: "e AND PTE_PRESENT \<noteq> 0" by auto
  have "PTE_ADDR_MASK AND PTE_DEV = 0" by simp
  then have d: "e AND PTE_DEV = flags AND PTE_DEV" "e AND PTE_ADDR_MASK = phys AND PTE_ADDR_MASK"
    using assms(3) by (simp_all add: e_def bit.conj_disj_distrib2 and.assoc)
  have s: "lookup_in s root v = None" if "same_page v virt" for v
    using same_page_lookup [OF that, of s root] m by simp
  show ?thesis
    using unmap_in_effect [OF _ t(1) t(2) [symmetric] p] m d s by (auto simp: translate_lookup)
qed

text \<open>
  C7: a new address space contains the kernel and nothing else: every address under the identity map or in
  the upper half translates as in the kernel's own tables, every user address is unmapped, and the
  kernel's own translations are unchanged.
\<close>

theorem create_address_space_maps_kernel:
  assumes "tree_ok s (kernel_pml4 s)" and "vmm_create_address_space s = Some (pml4, s')"
  shows "translate_in s' pml4 v = (if IDX v 3 = 0 \<or> 256 \<le> IDX v 3 then vmm_translate s v else 0) \<and>
         vmm_translate s' v = vmm_translate s v"
proof -
  note c = create_effect [OF assms]
  have agree: "lookup_from s' u v l = lookup_from s u v l"
    if "n + l = 3" "tab_at s (kernel_pml4 s) (vpath v 3 n) = Some u" for n l u
    using that by (intro lookup_agree [where root = "kernel_pml4 s"] c(3)) auto
  have k: "lookup_in s' (kernel_pml4 s) v = lookup_in s (kernel_pml4 s) v"
    using agree [of 0 3 "kernel_pml4 s"] by (simp add: lookup_in_def)
  have e: "entry s' pml4 (IDX v 3) = (if IDX v 3 = 0 \<or> 256 \<le> IDX v 3 then entry s (kernel_pml4 s) (IDX v 3) else 0)"
    by (rule c(2)) simp
  have sub: "lookup_from s' u v 2 = lookup_from s u v 2" if "child s (kernel_pml4 s) (IDX v 3) = Some u" for u
    using agree [of 1 2 u] that by simp
  have n3: "(3 :: nat) = Suc 2" by simp
  have three: "lookup_from t r v 3 = (let e = entry t r (IDX v 3)
      in if e AND PTE_PRESENT = 0 then None else if e AND PTE_HUGE \<noteq> 0 then Some (e, 3)
         else lookup_from t (pte_addr e) v 2)" for t r
    unfolding n3 by (simp only: lookup_from.simps)
  have "lookup_in s' pml4 v = (if IDX v 3 = 0 \<or> 256 \<le> IDX v 3 then lookup_in s (kernel_pml4 s) v else None)"
    using e sub by (auto simp: lookup_in_def three Let_def child_def)
  then show ?thesis
    using k c(1) by (simp add: translate_lookup vmm_translate_def) (simp add: page_addr_def)
qed

text \<open>
  C6: taking an address space down drops exactly its own references. When the manager counts at least as many references of
  each frame as there are paths to it in the private user part (pages that are not device memory, tables, and the
  top table), and no huge page is mapped there, \<^verbatim>\<open>vmm_destroy_address_space\<close> takes one reference for each such path and
  no other; a frame whose references all came from there is free afterwards, a frame shared with another space and every
  other frame, those of the kernel's entries included, stay in use. The dead tables are never left loaded in CR3.
\<close>

theorem destroy_address_space_frees:
  assumes "pmm_inv (vpmm s)" and "pml4 \<noteq> kernel_pml4 s" and "no_huge_pages s pml4"
    and "\<forall>k. user_refs s pml4 k \<noteq> 0 \<longrightarrow> k < bitmap_pages (vpmm s) \<and> user_refs s pml4 k \<le> unat (ref_of (vpmm s) k)"
    and "s' = vmm_destroy_address_space pml4 s"
  shows "(\<forall>k. unat (ref_of (vpmm s') k) = unat (ref_of (vpmm s) k) - user_refs s pml4 k) \<and>
         (\<forall>k. test_bit (vpmm s') k \<longleftrightarrow>
            test_bit (vpmm s) k \<and> (user_refs s pml4 k \<noteq> 0 \<longrightarrow> user_refs s pml4 k < unat (ref_of (vpmm s) k))) \<and>
         cr3 s' \<noteq> pml4 \<and> mem s' = mem s"
proof -
  note c = user_frames_count [OF assms(3)]
  have m: "k \<in> set (user_frames s pml4) \<longleftrightarrow> user_refs s pml4 k \<noteq> 0" for k
    using count_list_0_iff [of "user_frames s pml4" k] by (simp add: c)
  have "vpmm s' = free_frames (user_frames s pml4) (vpmm s)" by (simp add: assms(5) destroy_frames)
  moreover have "cr3 s' \<noteq> pml4 \<and> mem s' = mem s"
    using assms(2) by (auto simp: assms(5) vmm_destroy_address_space_def Let_def split: if_splits)
  ultimately show ?thesis
    using free_frames_effect [of "vpmm s" "user_frames s pml4"] assms(1,4) by (simp add: pmm_inv_def c m)
qed

subsection \<open>A concrete machine\<close>

text \<open>The kernel's tables are the empty table in frame 256.\<close>

definition sample_vm :: vm where
  "sample_vm = \<lparr>mem = \<lambda>_. zero_page, vpmm = sample_pmm 1, kernel_pml4 = 256 * PAGE_SIZE, mmio_next = MMIO_BASE,
     cr3 = 256 * PAGE_SIZE\<rparr>"

lemma sample_entry: "i < ENTRIES \<Longrightarrow> entry sample_vm t i = 0"
  by (simp add: sample_vm_def entry_def zero_page_def)

lemma sample_tab: "path q \<Longrightarrow> tab_at sample_vm t q = (if q = [] then Some t else None)"
  by (cases q) (auto simp: path_def child_def sample_entry)

lemma sample_tree: "tree_ok sample_vm (256 * PAGE_SIZE)"
proof -
  have "store_ok sample_vm" by (simp add: store_ok_def sample_vm_def zero_page_def)
  moreover have "table_frame sample_vm (256 * PAGE_SIZE)"
    unfolding table_frame_def by (rule exI [of _ 256]) (simp add: sample_vm_def)
  ultimately show ?thesis by (auto simp: tree_ok_def sample_tab split: if_splits)
qed

lemma sample_left: "3 \<le> frames_left sample_vm"
proof -
  have "card {257, 258, 259 :: nat} \<le> frames_left sample_vm"
    unfolding frames_left_def by (rule card_mono) (auto simp: sample_vm_def)
  then show ?thesis by simp
qed

lemma sample_lookup: "lookup_in sample_vm t v = None"
  using sample_entry by (simp add: lookup_in_def numeral_3_eq_3)

theorem map_in_translates_witness:
  "\<exists>s'. map_in (256 * PAGE_SIZE) 0x8000000123 0x105000 PTE_USER (PTE_WRITE OR PTE_USER) sample_vm = Some (0, s') \<and>
        translate_in s' (256 * PAGE_SIZE) 0x8000000123 = 0x105123"
proof -
  obtain rc s' where m: "map_in (256 * PAGE_SIZE) 0x8000000123 0x105000 PTE_USER (PTE_WRITE OR PTE_USER) sample_vm = Some (rc, s')"
    "rc = 0 \<longleftrightarrow> lookup_in sample_vm (256 * PAGE_SIZE) 0x8000000123 = None"
    "\<forall>v. translate_in s' (256 * PAGE_SIZE) v =
       (if rc = 0 \<and> same_page v 0x8000000123 then (0x105000 AND PTE_ADDR_MASK) OR (v AND 0xFFF)
        else translate_in sample_vm (256 * PAGE_SIZE) v)"
    using map_in_translates [OF sample_tree, of "PTE_WRITE OR PTE_USER" PTE_USER "0x8000000123" "0x105000"] sample_left
    by auto
  then show ?thesis by (simp add: sample_lookup same_page_def)
qed

theorem map_unmap_roundtrip_witness:
  "\<exists>s' s''. map_in (256 * PAGE_SIZE) 0x8000000000 0x105000 PTE_USER (PTE_WRITE OR PTE_USER) sample_vm = Some (0, s') \<and>
     unmap_in (256 * PAGE_SIZE) 0x8000000000 s' = Some (0x105000, s'')"
proof -
  obtain rc s' where m: "map_in (256 * PAGE_SIZE) 0x8000000000 0x105000 PTE_USER (PTE_WRITE OR PTE_USER) sample_vm = Some (rc, s')"
    using map_in_returns [OF sample_tree table_flags_used(2) sample_left] by blast
  then have "rc = 0"
    using map_in_effect [OF sample_tree _ m refl] by (simp add: sample_lookup)
  with m show ?thesis
    using map_unmap_roundtrip [OF sample_tree, of "PTE_WRITE OR PTE_USER" PTE_USER "0x8000000000" "0x105000" s'] by auto
qed

theorem create_address_space_maps_kernel_witness:
  "\<exists>pml4 s'. vmm_create_address_space sample_vm = Some (pml4, s') \<and> translate_in s' pml4 0x8000000000 = 0"
proof -
  obtain phys pm where a: "pmm_alloc_page (sample_pmm 1) = (phys, pm)" by fastforce
  have "phys \<noteq> 0" using pmm_frames.alloc_some [of "sample_pmm 1" 257] a by simp
  then obtain pml4 s' where c: "vmm_create_address_space sample_vm = Some (pml4, s')"
    using a by (simp add: vmm_create_address_space_def alloc_table_def sample_vm_def)
  have t: "tree_ok sample_vm (kernel_pml4 sample_vm)" using sample_tree by (simp add: sample_vm_def)
  show ?thesis
    using create_address_space_maps_kernel [OF t c, of "0x8000000000"] c by (auto simp: IDX_def)
qed

text \<open>A process with one page: tables in frames 257 to 260, the page in frame 261.\<close>

definition sample_space :: vm where
  "sample_space = sample_vm\<lparr>vpmm := snd (pmm_alloc_pages_below 8 (320 * PAGE_SIZE) (sample_pmm 1)),
     mem := (\<lambda>_. zero_page)(257 * PAGE_SIZE := zero_page[1 := 0x102007], 258 * PAGE_SIZE := zero_page[0 := 0x103007],
       259 * PAGE_SIZE := zero_page[0 := 0x104007], 260 * PAGE_SIZE := zero_page[3 := 0x105007])\<rparr>"

lemma concat_single:
  assumes "distinct xs" and "i \<in> set xs" and "\<And>j. j \<in> set xs \<Longrightarrow> j \<noteq> i \<Longrightarrow> f j = []"
  shows "concat (map f xs) = f i"
proof -
  obtain ys zs where xs: "xs = ys @ i # zs" using assms(2) by (auto dest: split_list)
  have "f j = []" if "j \<in> set ys \<union> set zs" for j
    using assms(1,3) that xs by auto
  then have "concat (map f ys) = []" "concat (map f zs) = []" by auto
  then show ?thesis by (simp only: xs map_append list.map concat_append concat.simps append_Nil append_Nil2)
qed

lemma table_frames_single:
  assumes "m phys = zero_page[i := e]" and "i < ENTRIES" and "e AND PTE_PRESENT \<noteq> 0"
  shows "tree_frames m phys (Suc l) =
    (if l = 0 then (if e AND PTE_DEV = 0 then [pte_addr e div PAGE_SIZE] else []) else tree_frames m (pte_addr e) l) @ [phys div PAGE_SIZE]"
proof -
  have "m phys ! j = (if j = i then e else 0)" if "j \<in> set all_entries" for j
    using assms(1) that unfolding all_entries_def zero_page_def set_upt by (simp add: nth_list_update)
  moreover have "distinct all_entries" "i \<in> set all_entries"
    using assms(2) unfolding all_entries_def by (simp_all only: distinct_upt set_upt) simp
  ultimately show ?thesis
    using assms(3) unfolding tree_frames.simps by (subst concat_single [of _ i]) (auto simp: Let_def)
qed

lemma sample_space_frames: "user_frames sample_space (257 * PAGE_SIZE) = [261, 260, 259, 258, 257]"
proof -
  define m where "m = mem sample_space"
  have m: "m (257 * PAGE_SIZE) = zero_page[1 := 0x102007]" "m (258 * PAGE_SIZE) = zero_page[0 := 0x103007]"
    "m (259 * PAGE_SIZE) = zero_page[0 := 0x104007]" "m (260 * PAGE_SIZE) = zero_page[3 := 0x105007]"
    by (simp_all add: m_def sample_space_def)
  have p: "pte_addr 0x102007 = 258 * PAGE_SIZE" "pte_addr 0x103007 = 259 * PAGE_SIZE"
    "pte_addr 0x104007 = 260 * PAGE_SIZE" "pte_addr 0x105007 = 261 * PAGE_SIZE"
    by (simp_all add: pte_addr_def)
  have t1: "tree_frames m (260 * PAGE_SIZE) (Suc 0) = [261, 260]"
    using table_frames_single [where m = m and l = 0, OF m(4)] p by simp
  have t2: "tree_frames m (259 * PAGE_SIZE) (Suc (Suc 0)) = [261, 260, 259]"
    using table_frames_single [where m = m and l = "Suc 0", OF m(3)] p t1 by simp
  have t3: "tree_frames m (258 * PAGE_SIZE) 3 = [261, 260, 259, 258]"
    using table_frames_single [where m = m and l = "Suc (Suc 0)", OF m(2)] p t2 by (simp add: numeral_3_eq_3)
  have e: "m (257 * PAGE_SIZE) ! j = (if j = 1 then 0x102007 else 0)" if "j \<in> set user_entries" for j
    using m(1) that unfolding user_entries_def zero_page_def set_upt by (simp add: nth_list_update)
  have u: "distinct user_entries" "1 \<in> set user_entries"
    unfolding user_entries_def by (simp_all only: distinct_upt set_upt) simp
  show ?thesis
    unfolding user_frames_def m_def [symmetric]
    by (subst concat_single [OF u]) (use e u(2) p t3 in \<open>auto simp: Let_def\<close>)
qed

lemma sample_space_small: "i < 512 \<Longrightarrow> entry sample_space u i AND PTE_HUGE = 0"
  by (auto simp: entry_def sample_space_def zero_page_def nth_list_update)

theorem destroy_address_space_frees_witness:
  "user_refs sample_space (257 * PAGE_SIZE) 261 = 1 \<and> user_refs sample_space (257 * PAGE_SIZE) 256 = 0 \<and>
   \<not> test_bit (vpmm (vmm_destroy_address_space (257 * PAGE_SIZE) sample_space)) 261 \<and>
   test_bit (vpmm (vmm_destroy_address_space (257 * PAGE_SIZE) sample_space)) 256"
proof -
  have "first_fit (sample_pmm 1) 8 320 = Some 257"
  proof (rule first_fit_Some)
    show "free_run (sample_pmm 1) 257 8" by (auto simp: free_run_def)
    show "\<not> free_run (sample_pmm 1) j 8" if "j < 257" for j
      using that by (intro free_run_blocked [of _ j]) auto
  qed simp
  then obtain s' where "pmm_alloc_pages_below 8 (320 * PAGE_SIZE) (sample_pmm 1) = (257 * PAGE_SIZE, s')"
    and s': "test_bit s' = (\<lambda>j. 257 \<le> j \<and> j < 257 + 8 \<or> test_bit (sample_pmm 1) j)"
    "ref_of s' = (\<lambda>j. if 257 \<le> j \<and> j < 257 + 8 then 1 else ref_of (sample_pmm 1) j)" "pmm_inv s'"
    using pmm_alloc_spec [of "sample_pmm 1" 8 "320 * PAGE_SIZE"] by auto
  moreover have "bitmap_pages (snd (pmm_alloc_pages_below 8 (320 * PAGE_SIZE) (sample_pmm 1))) = 320"
    using pmm_alloc_core [of "sample_pmm 1"] sample_inv [of 1] by (simp add: pmm_inv_def)
  ultimately have p: "vpmm sample_space = s'" "bitmap_pages s' = 320"
    by (auto simp: sample_space_def)
  have h: "no_huge_pages sample_space (257 * PAGE_SIZE)"
    using sample_space_small by (auto simp: no_huge_pages_def user_path_def)
  have r: "user_refs sample_space (257 * PAGE_SIZE) k = count_list [261, 260, 259, 258, 257] k" for k
    using user_frames_count [OF h] by (simp only: sample_space_frames)
  have "257 * PAGE_SIZE \<noteq> kernel_pml4 sample_space" by (simp add: sample_space_def sample_vm_def)
  moreover have "\<forall>k. user_refs sample_space (257 * PAGE_SIZE) k \<noteq> 0 \<longrightarrow>
      k < 320 \<and> user_refs sample_space (257 * PAGE_SIZE) k \<le> unat (ref_of s' k)"
    unfolding r s'(2) by auto
  ultimately have d: "test_bit (vpmm (vmm_destroy_address_space (257 * PAGE_SIZE) sample_space)) k \<longleftrightarrow>
      test_bit s' k \<and> (user_refs sample_space (257 * PAGE_SIZE) k \<noteq> 0 \<longrightarrow>
        user_refs sample_space (257 * PAGE_SIZE) k < unat (ref_of s' k))" for k
    using destroy_address_space_frees [OF _ _ h _ refl, unfolded p, OF s'(3)] by blast
  show ?thesis unfolding d r s' by simp
qed

end
