(* ===== verification/Heap_Pages.thy ===== *)
theory Heap_Pages
  imports Mmu
begin

text \<open>
  The page layer of the kernel heap, the first part of \<^verbatim>\<open>kernel/mm/heap.c\<close>: ranges of
  heap pages are taken from a table of free runs (best fit) or from a bump pointer, given back with
  joining of neighbours, and backed page by page with frames that are mapped into the kernel's
  tables. Page numbers are indices into the heap's virtual range; they and the counts are far below
  \<open>2 ^ 64\<close>. The state holds the virtual memory state of theory \<^verbatim>\<open>Mmu\<close>; \<open>None\<close> as the result of an
  operation is the halt loop of the page-table allocator. The TLB flush between unmapping and freeing
  is not modelled.
\<close>

subsection \<open>The state\<close>

abbreviation HEAP_PAGES :: nat where "HEAP_PAGES \<equiv> 262144"
abbreviation MAX_FREE_RUNS :: nat where "MAX_FREE_RUNS \<equiv> 4096"

text \<open>
  A page's owner is 0 (not mapped), \<open>OWNER_LARGE\<close> or the address of its slab. Heap addresses are
  natural numbers below \<open>2 ^ 64\<close>.
\<close>

abbreviation OWNER_LARGE :: nat where "OWNER_LARGE \<equiv> 1"
abbreviation HEAP_START :: nat where "HEAP_START \<equiv> 0xFFFFC00000000000"

record hpages =
  hvm :: vm
  bump_page :: nat
  free_runs :: "(nat \<times> nat) list"          \<comment> \<open>first page and count\<close>
  owner :: "nat \<Rightarrow> nat"
  pages_mapped :: nat
  lost :: "nat list"                       \<comment> \<open>console messages: pages of address space lost\<close>

definition heap_page_addr :: "nat \<Rightarrow> nat" where
  "heap_page_addr idx = HEAP_START + idx * PAGE_SIZE"

definition page_index :: "nat \<Rightarrow> nat" where
  "page_index v = (v - HEAP_START) div PAGE_SIZE"

subsection \<open>Address ranges\<close>

text \<open>The search loop of \<^verbatim>\<open>take_virtual_pages\<close>, from index \<open>i\<close>.\<close>

fun best_run :: "(nat \<times> nat) list \<Rightarrow> nat \<Rightarrow> nat \<Rightarrow> nat option \<Rightarrow> nat \<Rightarrow> nat option" where
  "best_run [] count i best_idx best_count = best_idx"
| "best_run ((p, c) # rs) count i best_idx best_count =
     (if c \<ge> count \<and> c < best_count then
        if c = count then Some i else best_run rs count (Suc i) (Some i) c
      else best_run rs count (Suc i) best_idx best_count)"

text \<open>\<^verbatim>\<open>free_runs[i] = free_runs[--free_run_count]\<close>\<close>

definition drop_run :: "nat \<Rightarrow> (nat \<times> nat) list \<Rightarrow> (nat \<times> nat) list" where
  "drop_run i rs = butlast (rs[i := last rs])"

definition take_virtual_pages :: "nat \<Rightarrow> hpages \<Rightarrow> nat option \<times> hpages" where
  "take_virtual_pages count h =
     (case best_run (free_runs h) count 0 None (2 ^ 64 - 1) of
        Some i \<Rightarrow>
          let (p, c) = free_runs h ! i;
              rs = (free_runs h)[i := (p + count, c - count)]
          in (Some p, h\<lparr>free_runs := (if c - count = 0 then drop_run i rs else rs)\<rparr>)
      | None \<Rightarrow>
          if bump_page h + count > HEAP_PAGES then (None, h)
          else (Some (bump_page h), h\<lparr>bump_page := bump_page h + count\<rparr>))"

text \<open>The joining loop of \<^verbatim>\<open>give_virtual_pages\<close>; it starts over after every join.\<close>

lemma drop_run_length [simp]: "length (drop_run i rs) = length rs - 1"
  by (simp add: drop_run_def)

function join_runs :: "nat \<Rightarrow> nat \<Rightarrow> nat \<Rightarrow> (nat \<times> nat) list \<Rightarrow> nat \<times> nat \<times> (nat \<times> nat) list" where
  "join_runs page count i rs =
     (if i < length rs then
        let (p, c) = rs ! i
        in if p + c = page then join_runs p (count + c) 0 (drop_run i rs)
           else if page + count = p then join_runs page (count + c) 0 (drop_run i rs)
           else join_runs page count (Suc i) rs
      else (page, count, rs))"
  by pat_completeness auto
termination
  by (relation "measures [\<lambda>(page, count, i, rs). length rs, \<lambda>(page, count, i, rs). length rs - i]") auto

declare join_runs.simps [simp del]

text \<open>The loop that lowers the bump pointer over runs that end at it.\<close>

function shrink_bump :: "nat \<Rightarrow> (nat \<times> nat) list \<Rightarrow> nat \<times> (nat \<times> nat) list" where
  "shrink_bump bump rs =
     (case find (\<lambda>i. fst (rs ! i) + snd (rs ! i) = bump) [0 ..< length rs] of
        None \<Rightarrow> (bump, rs)
      | Some i \<Rightarrow> shrink_bump (fst (rs ! i)) (drop_run i rs))"
  by pat_completeness auto
termination
  by (relation "measure (\<lambda>(bump, rs). length rs)") (auto simp: find_Some_iff)

declare shrink_bump.simps [simp del]

definition give_virtual_pages :: "nat \<Rightarrow> nat \<Rightarrow> hpages \<Rightarrow> hpages" where
  "give_virtual_pages page count h =
     (let (page, count, rs) = join_runs page count 0 (free_runs h)
      in if page + count = bump_page h then
           let (b, rs) = shrink_bump page rs in h\<lparr>bump_page := b, free_runs := rs\<rparr>
         else if length rs < MAX_FREE_RUNS then h\<lparr>free_runs := rs @ [(page, count)]\<rparr>
         else h\<lparr>free_runs := rs, lost := lost h @ [count]\<rparr>)"

subsection \<open>Backing\<close>

definition map_flags :: u64 where
  "map_flags = PTE_WRITE OR PTE_NX OR PTE_GLOBAL"

text \<open>
  The loop of \<^verbatim>\<open>alloc_pages_locked\<close>, for pages \<open>first + i\<close> to \<open>first + i + n - 1\<close>: \<open>Inl k\<close> when
  page \<open>first + k\<close> could not be backed.
\<close>

fun back_pages :: "nat \<Rightarrow> nat \<Rightarrow> nat \<Rightarrow> hpages \<Rightarrow> ((nat + unit) \<times> hpages) option" where
  "back_pages first i 0 h = Some (Inr (), h)"
| "back_pages first i (Suc n) h =
     (let (phys, p) = pmm_alloc_page (vpmm (hvm h)); v = (hvm h)\<lparr>vpmm := p\<rparr>
      in if phys = 0 then Some (Inl i, h\<lparr>hvm := v\<rparr>)
         else do {
           (rc, v1) \<leftarrow> vmm_map_page (of_nat (heap_page_addr (first + i))) (of_nat phys) map_flags v;
           if rc \<noteq> 0 then Some (Inl i, h\<lparr>hvm := v1\<lparr>vpmm := pmm_free_page phys (vpmm v1)\<rparr>\<rparr>)
           else back_pages first (Suc i) n
                  (h\<lparr>hvm := v1, owner := (owner h)(first + i := OWNER_LARGE), pages_mapped := add64 (pages_mapped h) 1\<rparr>)
         })"

text \<open>
  \<^verbatim>\<open>free_pages_locked\<close>: a batch of at most 64 pages is unmapped, then its frames are released.
\<close>

fun unmap_pages :: "nat \<Rightarrow> nat \<Rightarrow> hpages \<Rightarrow> (u64 list \<times> hpages) option" where
  "unmap_pages page 0 h = Some ([], h)"
| "unmap_pages page (Suc n) h = do {
     (phys, v) \<leftarrow> vmm_unmap_page (of_nat (heap_page_addr page)) (hvm h);
     (ps, h1) \<leftarrow> unmap_pages (Suc page) n (h\<lparr>hvm := v, owner := (owner h)(page := 0)\<rparr>);
     Some (phys # ps, h1)
   }"

definition release_frame :: "u64 \<Rightarrow> hpages \<Rightarrow> hpages" where
  "release_frame phys h =
     (if phys \<noteq> 0 then
        h\<lparr>hvm := (hvm h)\<lparr>vpmm := pmm_free_page (unat phys) (vpmm (hvm h))\<rparr>, pages_mapped := sub64 (pages_mapped h) 1\<rparr>
      else h)"

function free_batches :: "nat \<Rightarrow> nat \<Rightarrow> nat \<Rightarrow> hpages \<Rightarrow> hpages option" where
  "free_batches first count d h =
     (if d < count then
        let n = (if count - d < 64 then count - d else 64)
        in do {
          (ps, h1) \<leftarrow> unmap_pages (first + d) n h;
          free_batches first count (d + n) (fold release_frame ps h1)
        }
      else Some h)"
  by pat_completeness auto
termination
  by (relation "measure (\<lambda>(first, count, d, h). count - d)") (auto split: if_splits)

declare free_batches.simps [simp del]

definition free_pages_locked :: "nat \<Rightarrow> nat \<Rightarrow> hpages \<Rightarrow> hpages option" where
  "free_pages_locked first count h =
     (if count = 0 then Some h
      else do {
        h1 \<leftarrow> free_batches first count 0 h;
        Some (give_virtual_pages first count h1)
      })"

text \<open>The inner option is the returned page, \<open>None\<close> for NULL.\<close>

definition alloc_pages_locked :: "nat \<Rightarrow> hpages \<Rightarrow> (nat option \<times> hpages) option" where
  "alloc_pages_locked count h =
     (if count = 0 then Some (None, h)
      else case take_virtual_pages count h of
             (None, h1) \<Rightarrow> Some (None, h1)
           | (Some first, h1) \<Rightarrow> do {
               (r, h2) \<leftarrow> back_pages first 0 count h1;
               (case r of
                  Inr _ \<Rightarrow> Some (Some first, h2)
                | Inl i \<Rightarrow> do {
                    h3 \<leftarrow> free_pages_locked first i h2;
                    Some (None, if i = 0 then give_virtual_pages first count h3
                                else give_virtual_pages (first + i) (count - i) h3)
                  })
             })"

subsection \<open>Which pages are free\<close>

text \<open>
  How often a page counts as free: once for every run that holds it, once when it is above the bump
  pointer. Every operation on the ranges moves one range of pages between this count and its caller.
\<close>

definition in_run :: "nat \<Rightarrow> nat \<times> nat \<Rightarrow> bool" where
  "in_run x r \<longleftrightarrow> fst r \<le> x \<and> x < fst r + snd r"

definition run_count :: "(nat \<times> nat) list \<Rightarrow> nat \<Rightarrow> nat" where
  "run_count rs x = length (filter (in_run x) rs)"

definition free_count_at :: "hpages \<Rightarrow> nat \<Rightarrow> nat" where
  "free_count_at h x = run_count (free_runs h) x + of_bool (bump_page h \<le> x)"

lemma run_count_simps [simp]:
  "run_count [] x = 0" "run_count (r # rs) x = of_bool (in_run x r) + run_count rs x"
  "run_count (rs @ qs) x = run_count rs x + run_count qs x"
  by (simp_all add: run_count_def)

lemma run_count_update:
  "i < length rs \<Longrightarrow> run_count (rs[i := r]) x + of_bool (in_run x (rs ! i)) = run_count rs x + of_bool (in_run x r)"
proof (induction rs arbitrary: i)
  case (Cons q rs)
  show ?case
  proof (cases i)
    case (Suc k)
    then show ?thesis using Cons.IH [of k] Cons.prems by simp
  qed simp
qed simp

lemma run_count_drop:
  assumes "i < length rs"
  shows "run_count (drop_run i rs) x + of_bool (in_run x (rs ! i)) = run_count rs x"
proof -
  have ne: "rs[i := last rs] \<noteq> []" using assms by auto
  have l: "last (rs[i := last rs]) = last rs" 
    using assms by (cases "rs = []") (auto simp: last_conv_nth nth_list_update)
  have "run_count (drop_run i rs) x + of_bool (in_run x (last rs)) = run_count (rs[i := last rs]) x"
    using append_butlast_last_id [OF ne] run_count_simps(3) [of "butlast (rs[i := last rs])" "[last rs]" x]
    by (simp add: drop_run_def l)
  with run_count_update [OF assms, of "last rs" x] show ?thesis by simp
qed

lemma run_count_member: "i < length rs \<Longrightarrow> in_run x (rs ! i) \<Longrightarrow> 0 < run_count rs x"
  using run_count_drop [of i rs x] by simp

lemma best_run_fits:
  "best_run rs count i best bc = Some j \<Longrightarrow>
   best = Some j \<or> (\<exists>k. k < length rs \<and> j = i + k \<and> count \<le> snd (rs ! k))"
proof (induction rs count i best bc rule: best_run.induct)
  case (2 p c rs count i best bc)
  have later: ?case if "Some i = Some j \<and> count \<le> c \<or> best = Some j \<or>
      (\<exists>k. k < length rs \<and> j = Suc i + k \<and> count \<le> snd (rs ! k))"
    using that by (metis Suc_less_eq add.right_neutral add_Suc_right add_Suc length_Cons nth_Cons_0 nth_Cons_Suc
        option.inject snd_conv zero_less_Suc)
  show ?case
  proof (cases "count \<le> c \<and> c < bc")
    case True
    then show ?thesis using 2(1) 2(3) by (intro later) (auto split: if_splits)
  next
    case False
    then have "best_run rs count (Suc i) best bc = Some j" using 2(3) by (simp only: best_run.simps if_False)
    then show ?thesis using 2(2) [OF False] by (intro later) blast
  qed
qed simp

text \<open>The free pages that are handed out, on both branches.\<close>

definition range_ok :: "hpages \<Rightarrow> bool" where
  "range_ok h \<longleftrightarrow> bump_page h \<le> HEAP_PAGES \<and> (\<forall>x. free_count_at h x \<le> 1)"

lemma take_effect:
  assumes t: "take_virtual_pages count h = (r, h')"
  shows "case r of None \<Rightarrow> h' = h
         | Some p \<Rightarrow> (\<forall>x. free_count_at h' x + of_bool (p \<le> x \<and> x < p + count) = free_count_at h x) \<and>
             h' = h\<lparr>bump_page := bump_page h', free_runs := free_runs h'\<rparr> \<and>
             (bump_page h' = bump_page h \<or> bump_page h' \<le> HEAP_PAGES)"
proof (cases "best_run (free_runs h) count 0 None (2 ^ 64 - 1)")
  case None
  then show ?thesis using t by (auto simp: take_virtual_pages_def free_count_at_def split: if_splits)
next
  case (Some i)
  obtain p c where pc: "free_runs h ! i = (p, c)" by fastforce
  have i: "i < length (free_runs h)" "count \<le> c"
    using best_run_fits [OF Some] pc by auto
  let ?rs = "(free_runs h)[i := (p + count, c - count)]"
  have upd: "run_count ?rs x + of_bool (p \<le> x \<and> x < p + count) = run_count (free_runs h) x" for x
    using run_count_update [OF i(1), of "(p + count, c - count)" x] i(2) by (auto simp: pc in_run_def split: if_splits)
  have drop: "run_count (drop_run i ?rs) x = run_count ?rs x" if "c = count" for x
    using run_count_drop [of i ?rs x] i that by (cases "p + count \<le> x") (simp_all add: in_run_def)
  define rs where "rs = (if c - count = 0 then drop_run i ?rs else ?rs)"
  have rs: "run_count rs x + of_bool (p \<le> x \<and> x < p + count) = run_count (free_runs h) x" for x
    using upd [of x] drop [of x] i(2) by (cases "c = count") (simp_all add: rs_def)
  have "r = Some p" "h' = h\<lparr>free_runs := rs\<rparr>"
    using t Some by (simp_all add: take_virtual_pages_def pc Let_def rs_def)
  then show ?thesis using rs by (simp add: free_count_at_def algebra_simps)
qed

text \<open>Joining and shrinking do not change which pages are free.\<close>

lemma join_runs_count:
  "join_runs page count i rs = (page', count', rs') \<Longrightarrow>
   run_count rs' x + of_bool (in_run x (page', count')) = run_count rs x + of_bool (in_run x (page, count))"
proof (induction page count i rs rule: join_runs.induct)
  case (1 page count i rs)
  show ?case
  proof (cases "i < length rs")
    case True
    obtain p c where pc: "rs ! i = (p, c)" by fastforce
    note drop = run_count_drop [OF True, of x, unfolded pc]
    consider (before) "p + c = page" | (after) "p + c \<noteq> page" "page + count = p"
      | (apart) "p + c \<noteq> page" "page + count \<noteq> p" by blast
    then show ?thesis
    proof cases
      case before
      then show ?thesis using 1 True pc drop join_runs.simps [of page count i rs] by (auto simp: in_run_def split: if_splits)
    next
      case after
      then show ?thesis using 1 True pc drop join_runs.simps [of page count i rs] by (auto simp: in_run_def split: if_splits)
    next
      case apart
      then show ?thesis using 1 True pc join_runs.simps [of page count i rs] by auto
    qed
  next
    case False
    then show ?thesis using 1(4) join_runs.simps [of page count i rs] by simp
  qed
qed

lemma shrink_bump_count:
  "shrink_bump bump rs = (bump', rs') \<Longrightarrow>
   run_count rs' x + of_bool (bump' \<le> x) = run_count rs x + of_bool (bump \<le> x) \<and> bump' \<le> bump"
proof (induction bump rs rule: shrink_bump.induct)
  case (1 bump rs)
  show ?case
  proof (cases "find (\<lambda>i. fst (rs ! i) + snd (rs ! i) = bump) [0 ..< length rs]")
    case None
    then show ?thesis using 1 shrink_bump.simps [of bump rs] by simp
  next
    case (Some i)
    then have i: "i < length rs" "fst (rs ! i) + snd (rs ! i) = bump" by (auto simp: find_Some_iff)
    then show ?thesis
      using 1(1) [OF Some] 1(2) shrink_bump.simps [of bump rs] run_count_drop [OF i(1), of x] Some
      by (auto simp: in_run_def split: if_splits)
  qed
qed

lemma give_effect:
  shows "free_count_at (give_virtual_pages page count h) x =
      free_count_at h x + of_bool (page \<le> x \<and> x < page + count) \<or>
    lost (give_virtual_pages page count h) \<noteq> lost h \<and> free_count_at (give_virtual_pages page count h) x \<le>
      free_count_at h x + of_bool (page \<le> x \<and> x < page + count)"
    and "bump_page (give_virtual_pages page count h) \<le> bump_page h"
proof -
  obtain p c rs where j: "join_runs page count 0 (free_runs h) = (p, c, rs)" by (metis prod_cases3)
  obtain b rs' where s: "shrink_bump p rs = (b, rs')" by fastforce
  note eq = join_runs_count [OF j, of x] shrink_bump_count [OF s, of x]
  show "free_count_at (give_virtual_pages page count h) x =
      free_count_at h x + of_bool (page \<le> x \<and> x < page + count) \<or>
    lost (give_virtual_pages page count h) \<noteq> lost h \<and> free_count_at (give_virtual_pages page count h) x \<le>
      free_count_at h x + of_bool (page \<le> x \<and> x < page + count)"
    using eq by (auto simp: give_virtual_pages_def j s free_count_at_def in_run_def split: if_splits)
  show "bump_page (give_virtual_pages page count h) \<le> bump_page h"
    using eq by (auto simp: give_virtual_pages_def j s)
qed

lemma give_frame [simp]:
  "owner (give_virtual_pages page count h) = owner h" "hvm (give_virtual_pages page count h) = hvm h"
  "pages_mapped (give_virtual_pages page count h) = pages_mapped h"
  by (auto simp: give_virtual_pages_def Let_def split: prod.splits)

subsection \<open>Owners and free pages\<close>

text \<open>The part of the state that backing leaves alone.\<close>

definition same_ranges :: "hpages \<Rightarrow> hpages \<Rightarrow> bool" where
  "same_ranges h h' \<longleftrightarrow> bump_page h' = bump_page h \<and> free_runs h' = free_runs h \<and> lost h' = lost h"

lemma same_ranges_free: "same_ranges h h' \<Longrightarrow> free_count_at h' x = free_count_at h x"
  by (simp add: same_ranges_def free_count_at_def)

definition set_owner :: "nat \<Rightarrow> nat \<Rightarrow> nat \<Rightarrow> (nat \<Rightarrow> nat) \<Rightarrow> nat \<Rightarrow> nat" where
  "set_owner p n v f = (\<lambda>x. if p \<le> x \<and> x < p + n then v else f x)"

lemma set_owner_simps [simp]:
  "set_owner p 0 v f = f" "set_owner (Suc p) n v (f(p := v)) = set_owner p (Suc n) v f"
  by (auto simp: set_owner_def fun_eq_iff)

lemma set_owner_append: "set_owner (p + m) n v (set_owner p m v f) = set_owner p (m + n) v f"
  by (auto simp: set_owner_def fun_eq_iff)

lemma back_pages_effect:
  "back_pages first i n h = Some (r, h') \<Longrightarrow>
   same_ranges h h' \<and>
   (case r of Inr _ \<Rightarrow> owner h' = set_owner (first + i) n OWNER_LARGE (owner h)
    | Inl k \<Rightarrow> i \<le> k \<and> k < i + n \<and> owner h' = set_owner (first + i) (k - i) OWNER_LARGE (owner h))"
proof (induction first i n h rule: back_pages.induct)
  case (1 first i h)
  then show ?case by (auto simp: same_ranges_def)
next
  case (2 first i n h)
  obtain phys p where a: "pmm_alloc_page (vpmm (hvm h)) = (phys, p)" by fastforce
  show ?case
  proof (cases "phys = 0")
    case True
    then show ?thesis using 2 a by (auto simp: same_ranges_def)
  next
    case False
    obtain rc v1 where m: "vmm_map_page (of_nat (heap_page_addr (first + i))) (of_nat phys) map_flags
        ((hvm h)\<lparr>vpmm := p\<rparr>) = Some (rc, v1)"
      using 2(2) a False by (auto split: option.splits simp: bind_eq_Some_conv)
    show ?thesis
    proof (cases "rc = 0")
      case True
      let ?h = "h\<lparr>hvm := v1, owner := (owner h)(first + i := OWNER_LARGE), pages_mapped := add64 (pages_mapped h) 1\<rparr>"
      have r: "back_pages first (Suc i) n ?h = Some (r, h')" using 2(2) a False m True by simp
      from 2(1) [OF a [symmetric] refl refl False m refl _ r] True
      show ?thesis by (auto simp: same_ranges_def set_owner_def fun_eq_iff split: sum.splits)
    next
      case False
      then show ?thesis using 2(2) a \<open>phys \<noteq> 0\<close> m by (auto simp: same_ranges_def)
    qed
  qed
qed

lemma unmap_page_returns: "\<exists>phys v'. vmm_unmap_page virt v = Some (phys, v')"
  by (auto simp: vmm_unmap_page_def unmap_in_def pt_of_look Let_def split: option.splits)

lemma unmap_pages_effect:
  "\<exists>ps h'. unmap_pages page n h = Some (ps, h') \<and> same_ranges h h' \<and> owner h' = set_owner page n 0 (owner h) \<and> length ps = n"
proof (induction n arbitrary: page h)
  case (Suc n)
  obtain phys v where u: "vmm_unmap_page (of_nat (heap_page_addr page)) (hvm h) = Some (phys, v)"
    using unmap_page_returns by blast
  from Suc.IH [of "Suc page" "h\<lparr>hvm := v, owner := (owner h)(page := 0)\<rparr>"] u
  show ?case by (auto simp: same_ranges_def set_owner_def fun_eq_iff)
qed (simp add: same_ranges_def)

lemma release_frames_frame:
  "same_ranges h (fold release_frame ps h) \<and> owner (fold release_frame ps h) = owner h"
proof (induction ps arbitrary: h)
  case (Cons p ps)
  from Cons.IH [of "release_frame p h"] show ?case by (auto simp: same_ranges_def release_frame_def)
qed (simp add: same_ranges_def)

lemma free_batches_effect:
  "d \<le> count \<Longrightarrow> \<exists>h'. free_batches first count d h = Some h' \<and> same_ranges h h' \<and>
     owner h' = set_owner (first + d) (count - d) 0 (owner h)"
proof (induction first count d h rule: free_batches.induct)
  case (1 first count d h)
  show ?case
  proof (cases "d < count")
    case True
    define n where "n = (if count - d < 64 then count - d else 64)"
    have n: "d + n \<le> count" using True by (auto simp: n_def)
    obtain ps h1 where u: "unmap_pages (first + d) n h = Some (ps, h1)" "same_ranges h h1"
      "owner h1 = set_owner (first + d) n 0 (owner h)"
      using unmap_pages_effect by blast
    from 1(1) [OF True n_def u(1) refl n] obtain h' where
      "free_batches first count (d + n) (fold release_frame ps h1) = Some h'"
      "same_ranges (fold release_frame ps h1) h'"
      "owner h' = set_owner (first + (d + n)) (count - (d + n)) 0 (owner (fold release_frame ps h1))"
      by auto
    moreover have "free_batches first count d h = free_batches first count (d + n) (fold release_frame ps h1)"
      using True u(1) by (subst free_batches.simps) (simp add: n_def [symmetric] Let_def)
    ultimately show ?thesis
      using u(2,3) release_frames_frame [of h1 ps] n set_owner_append [of "first + d" n "count - (d + n)" 0 "owner h"]
      by (auto simp: same_ranges_def add.assoc)
  next
    case False
    then show ?thesis using 1(2) by (subst free_batches.simps) (simp add: same_ranges_def)
  qed
qed

text \<open>
  The invariant of the page layer: a page is free at most once, and never both free and owned.
\<close>

definition pages_inv :: "hpages \<Rightarrow> bool" where
  "pages_inv h \<longleftrightarrow> bump_page h \<le> HEAP_PAGES \<and> (\<forall>x. free_count_at h x + of_bool (owner h x \<noteq> 0) \<le> 1)"

lemma free_above: "bump_page h \<le> HEAP_PAGES \<Longrightarrow> HEAP_PAGES \<le> x \<Longrightarrow> 0 < free_count_at h x"
  by (simp add: free_count_at_def)

lemma give_inv:
  assumes "bump_page h \<le> HEAP_PAGES"
    and "\<And>x. free_count_at h x + of_bool (page \<le> x \<and> x < page + count) + of_bool (owner h x \<noteq> 0) \<le> 1"
  shows "pages_inv (give_virtual_pages page count h)"
  unfolding pages_inv_def
proof (intro conjI allI)
  show "bump_page (give_virtual_pages page count h) \<le> HEAP_PAGES"
    using give_effect(2) [of page count h] assms(1) by simp
  fix x
  have "free_count_at (give_virtual_pages page count h) x \<le> free_count_at h x + of_bool (page \<le> x \<and> x < page + count)"
    using give_effect(1) [of page count h x] by auto
  then show "free_count_at (give_virtual_pages page count h) x +
      of_bool (owner (give_virtual_pages page count h) x \<noteq> 0) \<le> 1"
    using assms(2) [of x] by simp
qed

lemma free_pages_effect:
  assumes inv: "pages_inv h" and own: "\<And>x. first \<le> x \<Longrightarrow> x < first + count \<Longrightarrow> owner h x \<noteq> 0"
  shows "\<exists>h'. free_pages_locked first count h = Some h' \<and> pages_inv h' \<and> owner h' = set_owner first count 0 (owner h) \<and>
    (\<forall>x. free_count_at h' x \<le> free_count_at h x + of_bool (first \<le> x \<and> x < first + count))"
proof (cases "count = 0")
  case False
  obtain h1 where h1: "free_batches first count 0 h = Some h1" "same_ranges h h1"
    "owner h1 = set_owner first count 0 (owner h)"
    using free_batches_effect [of 0 count first h] by auto
  have "free_count_at h1 x + of_bool (first \<le> x \<and> x < first + count) + of_bool (owner h1 x \<noteq> 0) \<le> 1" for x
    using inv own [of x] same_ranges_free [OF h1(2), of x] unfolding pages_inv_def h1(3) set_owner_def
    by (cases "first \<le> x \<and> x < first + count") (auto dest: spec [of _ x])
  then have "pages_inv (give_virtual_pages first count h1)"
    using inv h1(2) by (intro give_inv) (simp_all add: pages_inv_def same_ranges_def)
  moreover have "free_count_at (give_virtual_pages first count h1) x \<le>
      free_count_at h x + of_bool (first \<le> x \<and> x < first + count)" for x
    using give_effect(1) [of first count h1 x] same_ranges_free [OF h1(2), of x] by auto
  ultimately show ?thesis using False h1 by (simp add: free_pages_locked_def)
qed (use inv in \<open>simp add: free_pages_locked_def\<close>)

lemma take_inv:
  assumes inv: "pages_inv h" and t: "take_virtual_pages count h = (Some p, h1)"
  shows "bump_page h1 \<le> HEAP_PAGES \<and> owner h1 = owner h \<and> p + count \<le> HEAP_PAGES + of_bool (count = 0) * p \<and>
    (\<forall>x. free_count_at h1 x + of_bool (p \<le> x \<and> x < p + count) + of_bool (owner h1 x \<noteq> 0) \<le> 1)"
proof -
  have e: "free_count_at h1 x + of_bool (p \<le> x \<and> x < p + count) = free_count_at h x"
    "h1 = h\<lparr>bump_page := bump_page h1, free_runs := free_runs h1\<rparr>"
    "bump_page h1 = bump_page h \<or> bump_page h1 \<le> HEAP_PAGES" for x
    using take_effect [OF t] by simp_all
  have b: "bump_page h1 \<le> HEAP_PAGES" using e(3) inv by (auto simp: pages_inv_def)
  have o: "owner h1 = owner h" by (subst e(2)) simp
  have le: "free_count_at h1 x + of_bool (p \<le> x \<and> x < p + count) + of_bool (owner h1 x \<noteq> 0) \<le> 1" for x
    using inv e(1) [of x] o by (simp add: pages_inv_def)
  have "p + count \<le> HEAP_PAGES" if "0 < count"
  proof (rule ccontr)
    assume "\<not> p + count \<le> HEAP_PAGES"
    then have "p \<le> p + count - 1" "p + count - 1 < p + count" "HEAP_PAGES \<le> p + count - 1" using that by auto
    then show False using le [of "p + count - 1"] free_above [OF b, of "p + count - 1"] by (simp del: One_nat_def)
  qed
  then show ?thesis using b o le by (cases "count = 0") simp_all
qed

lemma alloc_pages_effect:
  assumes inv: "pages_inv h" and a: "alloc_pages_locked count h = Some (r, h')"
  shows "pages_inv h' \<and>
    (case r of None \<Rightarrow> owner h' = owner h
     | Some p \<Rightarrow> 0 < count \<and> p + count \<le> HEAP_PAGES \<and> (\<forall>x. p \<le> x \<and> x < p + count \<longrightarrow> owner h x = 0) \<and>
         owner h' = set_owner p count OWNER_LARGE (owner h))"
proof (cases "count = 0 \<or> fst (take_virtual_pages count h) = None")
  case True
  have "h' = h \<and> r = None"
  proof (cases "count = 0")
    case False
    then have "take_virtual_pages count h = (None, h)"
      using True take_effect [of count h None] by (cases "take_virtual_pages count h") auto
    then show ?thesis using a False by (simp add: alloc_pages_locked_def)
  qed (use a in \<open>simp add: alloc_pages_locked_def\<close>)
  then show ?thesis using inv by simp
next
  case False
  then obtain p h1 where t: "take_virtual_pages count h = (Some p, h1)" and c: "0 < count"
    by (cases "take_virtual_pages count h") auto
  then obtain q h2 where bk: "back_pages p 0 count h1 = Some (q, h2)"
    using a by (auto simp: alloc_pages_locked_def bind_eq_Some_conv)
  note ti = take_inv [OF inv t]
  note be = back_pages_effect [OF bk]
  have fr: "owner h x = 0 \<and> free_count_at h1 x = 0" if "p \<le> x" "x < p + count" for x
    using ti that by (auto dest: spec [of _ x])
  have fc: "free_count_at h2 x = free_count_at h1 x" for x using be same_ranges_free by blast
  show ?thesis
  proof (cases q)
    case (Inr u)
    then have "r = Some p" "h' = h2" using a t bk c by (simp_all add: alloc_pages_locked_def)
    moreover have "pages_inv h2"
      unfolding pages_inv_def
    proof (intro conjI allI)
      show "bump_page h2 \<le> HEAP_PAGES" using be ti by (simp add: same_ranges_def)
      fix x
      show "free_count_at h2 x + of_bool (owner h2 x \<noteq> 0) \<le> 1"
        using be Inr fc [of x] ti by (auto simp: set_owner_def dest: spec [of _ x])
    qed
    ultimately show ?thesis using be Inr ti c fr by simp
  next
    case (Inl k)
    then have k: "k < count" "owner h2 = set_owner p k OWNER_LARGE (owner h)" "bump_page h2 \<le> HEAP_PAGES"
      using be ti by (auto simp: same_ranges_def)
    obtain h3 where f: "free_pages_locked p k h2 = Some h3" and
      e: "r = None" "h' = (if k = 0 then give_virtual_pages p count h3 else give_virtual_pages (p + k) (count - k) h3)"
      using a t bk c Inl by (auto simp: alloc_pages_locked_def bind_eq_Some_conv)
    have i2: "free_count_at h2 x + of_bool (p + k \<le> x \<and> x < p + count) + of_bool (owner h2 x \<noteq> 0) \<le> 1" for x
      using ti fc [of x] k by (auto simp: set_owner_def dest: spec [of _ x])
    have "pages_inv h2"
      unfolding pages_inv_def using k(3) le_trans [OF add_le_mono [OF le_add1 order_refl] i2] by blast
    then have h3: "pages_inv h3" "owner h3 = set_owner p k 0 (owner h2)"
      "\<forall>x. free_count_at h3 x \<le> free_count_at h2 x + of_bool (p \<le> x \<and> x < p + k)"
      using free_pages_effect [of h2 p k] k(2) f by (auto simp: set_owner_def)
    have o3: "owner h3 = owner h" using h3(2) k fr by (auto simp: set_owner_def fun_eq_iff)
    have "free_count_at h3 x + of_bool (p + k \<le> x \<and> x < p + k + (count - k)) + of_bool (owner h3 x \<noteq> 0) \<le> 1" for x
      using i2 [of x] h3(3) k fr [of x] o3 by (cases "p \<le> x \<and> x < p + k") (auto simp: set_owner_def dest: spec [of _ x])
    then have "pages_inv (give_virtual_pages (p + k) (count - k) h3)"
      using h3(1) by (intro give_inv) (simp_all add: pages_inv_def)
    then show ?thesis using e o3 by (cases "k = 0") simp_all
  qed
qed

subsection \<open>Backing succeeds while frames are left\<close>

lemma IDX_div: "IDX w l = unat w div 2 ^ (12 + 9 * l) mod 512"
proof -
  have m: "(0x1FF :: u64) = mask 9" by (simp add: mask_eq_exp_minus_1)
  have "IDX w l = take_bit 9 (unat (drop_bit (12 + 9 * l) w))"
    by (simp add: IDX_def m take_bit_eq_mask [symmetric] unsigned_take_bit_eq)
  also have "\<dots> = take_bit 9 (drop_bit (12 + 9 * l) (unat w))" by (simp only: unat_drop_bit_eq)
  finally show ?thesis by (simp add: take_bit_eq_mod drop_bit_eq_div)
qed

lemma IDX_heap_page:
  assumes "x < HEAP_PAGES"
  shows "IDX (of_nat (heap_page_addr x)) 0 = x mod 512" "IDX (of_nat (heap_page_addr x)) 1 = x div 512"
proof -
  have "heap_page_addr x < 2 ^ LENGTH(64)" using assms by (simp add: heap_page_addr_def)
  then have u: "unat (of_nat (heap_page_addr x) :: u64) = heap_page_addr x"
    by (simp only: unsigned_of_nat take_bit_nat_eq_self of_nat_id)
  have h: "heap_page_addr x = 4096 * (512 * 8796059467776 + x)" by (simp add: heap_page_addr_def)
  have d: "heap_page_addr x div 4096 = 512 * 8796059467776 + x" unfolding h by (rule nonzero_mult_div_cancel_left) simp
  have "IDX (of_nat (heap_page_addr x)) 0 = (512 * 8796059467776 + x) mod 512"
    by (simp only: IDX_div u d [symmetric]) simp
  also have "\<dots> = x mod 512" by (rule mod_mult_self4)
  finally show "IDX (of_nat (heap_page_addr x)) 0 = x mod 512" .
  have "heap_page_addr x div 2 ^ (12 + 9 * 1) = heap_page_addr x div 4096 div 512" by (simp add: div_mult2_eq [symmetric])
  also have "\<dots> = 512 * 17179803648 + x div 512" unfolding d by simp
  finally have "IDX (of_nat (heap_page_addr x)) 1 = (512 * 17179803648 + x div 512) mod 512"
    by (simp only: IDX_div u)
  also have "\<dots> = x div 512 mod 512" by (rule mod_mult_self4)
  finally show "IDX (of_nat (heap_page_addr x)) 1 = x div 512"
    using assms by (simp add: div_less_iff_less_mult)
qed

lemma same_heap_page:
  assumes "x < HEAP_PAGES" "y < HEAP_PAGES" "same_page (of_nat (heap_page_addr x)) (of_nat (heap_page_addr y))"
  shows "x = y"
proof -
  have "x mod 512 = y mod 512" "x div 512 = y div 512"
    using assms(3) IDX_heap_page [OF assms(1)] IDX_heap_page [OF assms(2)] by (simp_all add: same_page_def)
  then show ?thesis by (metis div_mult_mod_eq)
qed

lemma tree_ok_alloc:
  assumes "tree_ok s root" and "pmm_alloc_page (vpmm s) = (phys, p)"
  shows "tree_ok (s\<lparr>vpmm := p\<rparr>) root \<and> (\<forall>v. lookup_in (s\<lparr>vpmm := p\<rparr>) root v = lookup_in s root v)"
proof -
  have g: "pmm_inv p \<and> bitmap_pages p = bitmap_pages (vpmm s) \<and> (\<forall>i. test_bit (vpmm s) i \<longrightarrow> test_bit p i)"
    using pmm_frames.alloc_good [OF _ assms(2)] assms(1) by (auto simp: tree_ok_def store_ok_def)
  have c: "child (s\<lparr>vpmm := p\<rparr>) = child s" "entry (s\<lparr>vpmm := p\<rparr>) = entry s" by (auto simp: fun_eq_iff child_def entry_def)
  have t: "tab_at (s\<lparr>vpmm := p\<rparr>) root q = tab_at s root q" for root q
    by (induction "s\<lparr>vpmm := p\<rparr>" root q rule: tab_at.induct) (auto simp: c split: option.splits)
  have l: "lookup_from (s\<lparr>vpmm := p\<rparr>) root v k = lookup_from s root v k" for root v k
    by (induction k arbitrary: root) (auto simp: c Let_def)
  have "table_frame s u \<Longrightarrow> table_frame (s\<lparr>vpmm := p\<rparr>) u" for u using g by (auto simp: table_frame_def)
  then show ?thesis using assms(1) g unfolding tree_ok_def store_ok_def t by (simp add: lookup_in_def l)
qed

text \<open>The kernel's tables are a tree, and the heap pages nobody owns are not mapped.\<close>

definition backing_ok :: "hpages \<Rightarrow> bool" where
  "backing_ok h \<longleftrightarrow> tree_ok (hvm h) (kernel_pml4 (hvm h)) \<and>
     (\<forall>x < HEAP_PAGES. owner h x = 0 \<longrightarrow> lookup_in (hvm h) (kernel_pml4 (hvm h)) (of_nat (heap_page_addr x)) = None)"

lemma back_pages_succeeds:
  assumes "backing_ok h" and "first + i + n \<le> HEAP_PAGES" and "4 * n \<le> frames_left (hvm h)"
    and "\<And>x. first + i \<le> x \<Longrightarrow> x < first + i + n \<Longrightarrow> owner h x = 0"
  shows "\<exists>h'. back_pages first i n h = Some (Inr (), h') \<and> backing_ok h'"
  using assms
proof (induction n arbitrary: i h)
  case (Suc n)
  let ?x = "first + i" and ?s = "hvm h" and ?root = "kernel_pml4 (hvm h)"
  obtain phys p where a: "pmm_alloc_page (vpmm ?s) = (phys, p)" by fastforce
  define s1 where "s1 = ?s\<lparr>vpmm := p\<rparr>"
  have tree: "tree_ok ?s ?root" using Suc.prems(1) by (simp add: backing_ok_def)
  have inv: "pmm_inv (vpmm ?s)" using tree by (simp add: tree_ok_def store_ok_def)
  have left: "phys \<noteq> 0" "4 * n + 3 \<le> frames_left s1"
    using pmm_frames.alloc_left [OF inv _ a, of "4 * n + 3"] Suc.prems(3) by (simp_all add: frames_left_def s1_def)
  have t1: "tree_ok s1 ?root" "\<And>v. lookup_in s1 ?root v = lookup_in ?s ?root v"
    using tree_ok_alloc [OF tree a] by (simp_all add: s1_def)
  obtain rc s2 where m: "map_in ?root (of_nat (heap_page_addr ?x)) (of_nat phys) map_flags PTE_WRITE s1 = Some (rc, s2)"
    and l2: "4 * n \<le> frames_left s2"
    using map_in_left [OF t1(1), of PTE_WRITE "4 * n"] left by fastforce
  have nx: "lookup_in s1 ?root (of_nat (heap_page_addr ?x)) = None"
    using Suc.prems(1,2) Suc.prems(4) [of ?x] by (simp add: t1(2) backing_ok_def)
  note me = map_in_effect [OF t1(1) _ m refl]
  have k: "kernel_pml4 s2 = ?root" "rc = 0" "tree_ok s2 ?root"
    using me nx by (simp_all add: s1_def)
  define h1 where "h1 = h\<lparr>hvm := s2, owner := (owner h)(?x := OWNER_LARGE), pages_mapped := add64 (pages_mapped h) 1\<rparr>"
  have "lookup_in s2 ?root (of_nat (heap_page_addr y)) = None" if "y < HEAP_PAGES" "owner h1 y = 0" for y
  proof -
    have y: "y \<noteq> ?x" "owner h y = 0" using that(2) by (auto simp: h1_def split: if_splits)
    then have "\<not> same_page (of_nat (heap_page_addr y)) (of_nat (heap_page_addr ?x))"
      using same_heap_page [of y ?x] that(1) Suc.prems(2) by auto
    then have "lookup_in s2 ?root (of_nat (heap_page_addr y)) = lookup_in s1 ?root (of_nat (heap_page_addr y))"
      using me by simp
    then show ?thesis using Suc.prems(1) that(1) y(2) by (simp add: t1(2) backing_ok_def)
  qed
  then have b1: "backing_ok h1" using k by (simp add: backing_ok_def h1_def)
  have "\<exists>h'. back_pages first (Suc i) n h1 = Some (Inr (), h') \<and> backing_ok h'"
    using Suc.prems l2 by (intro Suc.IH b1) (auto simp: h1_def)
  moreover have "back_pages first i (Suc n) h = back_pages first (Suc i) n h1"
    using a left(1) m k by (simp add: vmm_map_page_def s1_def h1_def)
  ultimately show ?case by simp
qed simp

lemma alloc_pages_succeeds:
  assumes inv: "pages_inv h" and b: "backing_ok h" and c: "0 < count" "4 * count \<le> frames_left (hvm h)"
    and t: "bump_page h + count \<le> HEAP_PAGES"
  shows "\<exists>p h'. alloc_pages_locked count h = Some (Some p, h') \<and> backing_ok h'"
proof -
  have "fst (take_virtual_pages count h) \<noteq> None"
    using t by (simp add: take_virtual_pages_def Let_def split: option.split prod.split)
  then obtain p h1 where tk: "take_virtual_pages count h = (Some p, h1)"
    by (metis not_None_eq prod.collapse)
  note ti = take_inv [OF inv tk]
  have h1: "h1 = h\<lparr>bump_page := bump_page h1, free_runs := free_runs h1\<rparr>" using take_effect [OF tk] by simp
  have f: "hvm h1 = hvm h" by (subst h1) simp
  have b1: "backing_ok h1" using b ti f by (simp add: backing_ok_def)
  have "owner h1 x = 0" if "p \<le> x" "x < p + count" for x
    using ti that by (auto dest: spec [of _ x])
  then obtain h2 where "back_pages p 0 count h1 = Some (Inr (), h2)" "backing_ok h2"
    using back_pages_succeeds [OF b1, of p 0 count] ti c f by auto
  then show ?thesis using tk c(1) by (simp add: alloc_pages_locked_def)
qed

end
