(* ===== verification/Heap.thy ===== *)
theory Heap
  imports Heap_Pages
begin

text \<open>
  The slab layer, the large allocations and the public interface of the kernel heap, the second part
  of \<^verbatim>\<open>kernel/mm/heap.c\<close>. Pointers are addresses, 0 is NULL. The headers of slabs and large blocks
  and the links through free objects are kept as maps from addresses: \<open>slabs\<close> and \<open>larges\<close> hold the
  structures at the start of a run of pages, \<open>links\<close> the first word of an object while the object is
  on a free list, \<open>bytes\<close> the contents of the blocks handed out. Every operation runs under
  \<^verbatim>\<open>heap_lock\<close> and is one function; \<open>None\<close> is the halt loop of the page-table allocator.
\<close>

subsection \<open>The state\<close>

abbreviation SLAB_PAGES :: nat where "SLAB_PAGES \<equiv> 4"
abbreviation SLAB_BYTES :: nat where "SLAB_BYTES \<equiv> 16384"
abbreviation SLAB_MAGIC :: nat where "SLAB_MAGIC \<equiv> 0x534C4142"
abbreviation LARGE_MAGIC :: nat where "LARGE_MAGIC \<equiv> 0x4C52474C"
abbreviation MAX_SMALL :: nat where "MAX_SMALL \<equiv> 2048"
abbreviation SLAB_HDR_SIZE :: nat where "SLAB_HDR_SIZE \<equiv> 64"     \<comment> \<open>48 bytes, rounded up to 64\<close>
abbreviation LARGE_HDR_SIZE :: nat where "LARGE_HDR_SIZE \<equiv> 32"
abbreviation NUM_CLASSES :: nat where "NUM_CLASSES \<equiv> 8"

record slab =
  s_magic :: nat
  s_obj_size :: nat
  s_free_count :: nat
  s_total :: nat
  s_freelist :: nat
  s_next :: nat
  s_prev :: nat
  s_cache :: nat                    \<comment> \<open>index into \<^verbatim>\<open>caches\<close>\<close>

record slab_cache =
  c_obj_size :: nat
  c_partial :: nat
  c_nslabs :: nat
  c_live_objects :: nat

record large_hdr =
  l_magic :: nat
  l_pages :: nat
  l_size :: nat

datatype heap_msg = NotObjectBoundary nat | NotHeapPointer nat | PageNotAllocated nat | BadLargeHeader nat | BadSlabMagic nat

record heap =
  hp :: hpages
  caches :: "nat \<Rightarrow> slab_cache"
  slabs :: "nat \<Rightarrow> slab"
  larges :: "nat \<Rightarrow> large_hdr"
  links :: "nat \<Rightarrow> nat"
  bytes :: "nat \<Rightarrow> u8"
  large_allocs :: nat
  bytes_requested :: nat
  msgs :: "heap_msg list"

definition class_sizes :: "nat list" where
  "class_sizes = [16, 32, 64, 128, 256, 512, 1024, 2048]"

definition cache_for :: "nat \<Rightarrow> nat option" where
  "cache_for sz = find (\<lambda>i. sz \<le> class_sizes ! i) [0 ..< NUM_CLASSES]"

definition dec32 :: "nat \<Rightarrow> nat" where "dec32 x = (x + (2 ^ 32 - 1)) mod 2 ^ 32"
definition inc32 :: "nat \<Rightarrow> nat" where "inc32 x = (x + 1) mod 2 ^ 32"

definition upd_slab :: "nat \<Rightarrow> (slab \<Rightarrow> slab) \<Rightarrow> heap \<Rightarrow> heap" where
  "upd_slab s f h = h\<lparr>slabs := (slabs h)(s := f (slabs h s))\<rparr>"

definition upd_cache :: "nat \<Rightarrow> (slab_cache \<Rightarrow> slab_cache) \<Rightarrow> heap \<Rightarrow> heap" where
  "upd_cache c f h = h\<lparr>caches := (caches h)(c := f (caches h c))\<rparr>"

subsection \<open>Slabs\<close>

definition partial_push :: "nat \<Rightarrow> nat \<Rightarrow> heap \<Rightarrow> heap" where
  "partial_push c s h =
     (let p = c_partial (caches h c);
          h1 = upd_slab s (\<lambda>sl. sl\<lparr>s_prev := 0, s_next := p\<rparr>) h;
          h2 = (if p \<noteq> 0 then upd_slab p (\<lambda>sl. sl\<lparr>s_prev := s\<rparr>) h1 else h1)
      in upd_cache c (\<lambda>k. k\<lparr>c_partial := s\<rparr>) h2)"

definition partial_remove :: "nat \<Rightarrow> nat \<Rightarrow> heap \<Rightarrow> heap" where
  "partial_remove c s h =
     (let n = s_next (slabs h s); p = s_prev (slabs h s);
          h1 = (if p \<noteq> 0 then upd_slab p (\<lambda>sl. sl\<lparr>s_next := n\<rparr>) h else upd_cache c (\<lambda>k. k\<lparr>c_partial := n\<rparr>) h);
          h2 = (if n \<noteq> 0 then upd_slab n (\<lambda>sl. sl\<lparr>s_prev := p\<rparr>) h1 else h1)
      in upd_slab s (\<lambda>sl. sl\<lparr>s_next := 0, s_prev := 0\<rparr>) h2)"

text \<open>The loop that threads the objects of a new slab.\<close>

definition thread_objects :: "nat \<Rightarrow> nat \<Rightarrow> nat \<Rightarrow> (nat \<Rightarrow> nat) \<Rightarrow> nat \<Rightarrow> nat" where
  "thread_objects obj sz tot l =
     fold (\<lambda>i l. l(obj + i * sz := (if i + 1 < tot then obj + (i + 1) * sz else 0))) [0 ..< tot] l"

definition own_pages :: "nat \<Rightarrow> nat \<Rightarrow> (nat \<Rightarrow> nat) \<Rightarrow> nat \<Rightarrow> nat" where
  "own_pages first s f = fold (\<lambda>i f. f(first + i := s)) [0 ..< SLAB_PAGES] f"

definition slab_create :: "nat \<Rightarrow> heap \<Rightarrow> (nat \<times> heap) option" where
  "slab_create c h = do {
     (r, p) \<leftarrow> alloc_pages_locked SLAB_PAGES (hp h);
     Some (case r of
        None \<Rightarrow> (0, h\<lparr>hp := p\<rparr>)
      | Some first \<Rightarrow>
          let s = heap_page_addr first; sz = c_obj_size (caches h c);
              tot = (SLAB_BYTES - SLAB_HDR_SIZE) div sz; obj = s + SLAB_HDR_SIZE;
              sl = \<lparr>s_magic = SLAB_MAGIC, s_obj_size = sz, s_free_count = tot, s_total = tot,
                    s_freelist = obj, s_next = 0, s_prev = 0, s_cache = c\<rparr>;
              h1 = h\<lparr>hp := p\<lparr>owner := own_pages first s (owner p)\<rparr>,
                     slabs := (slabs h)(s := sl), links := thread_objects obj sz tot (links h)\<rparr>;
              h2 = upd_cache c (\<lambda>k. k\<lparr>c_nslabs := add64 (c_nslabs k) 1\<rparr>) h1
          in (s, partial_push c s h2))
   }"

definition slab_destroy :: "nat \<Rightarrow> heap \<Rightarrow> heap option" where
  "slab_destroy s h =
     (let c = s_cache (slabs h s);
          h1 = partial_remove c s h;
          h2 = upd_cache c (\<lambda>k. k\<lparr>c_nslabs := sub64 (c_nslabs k) 1\<rparr>) h1;
          h3 = upd_slab s (\<lambda>sl. sl\<lparr>s_magic := 0\<rparr>) h2
      in do {
        p \<leftarrow> free_pages_locked (page_index s) SLAB_PAGES (hp h3);
        Some (h3\<lparr>hp := p\<rparr>)
      })"

text \<open>Taking the first object off a slab's free list, the second half of \<^verbatim>\<open>slab_alloc\<close>.\<close>

definition slab_take :: "nat \<Rightarrow> nat \<Rightarrow> heap \<Rightarrow> nat \<times> heap" where
  "slab_take c s h =
     (let obj = s_freelist (slabs h s);
          h1 = upd_slab s (\<lambda>sl. sl\<lparr>s_freelist := links h obj, s_free_count := dec32 (s_free_count sl)\<rparr>) h;
          h2 = (if s_free_count (slabs h1 s) = 0 then partial_remove c s h1 else h1)
      in (obj, upd_cache c (\<lambda>k. k\<lparr>c_live_objects := add64 (c_live_objects k) 1\<rparr>) h2))"

definition slab_alloc :: "nat \<Rightarrow> heap \<Rightarrow> (nat \<times> heap) option" where
  "slab_alloc c h =
     (let s = c_partial (caches h c)
      in if s \<noteq> 0 then Some (slab_take c s h)
         else do {
           (s, h) \<leftarrow> slab_create c h;
           Some (if s = 0 then (0, h) else slab_take c s h)
         })"

definition slab_free :: "nat \<Rightarrow> nat \<Rightarrow> heap \<Rightarrow> heap option" where
  "slab_free s ptr h =
     (let c = s_cache (slabs h s); sl = slabs h s;
          off = sub64 ptr (add64 s SLAB_HDR_SIZE)
      in if off mod s_obj_size sl \<noteq> 0 \<or> off div s_obj_size sl \<ge> s_total sl
         then Some (h\<lparr>msgs := msgs h @ [NotObjectBoundary ptr]\<rparr>)
         else
           let h1 = upd_slab s (\<lambda>sl. sl\<lparr>s_freelist := ptr, s_free_count := inc32 (s_free_count sl)\<rparr>)
                      (h\<lparr>links := (links h)(ptr := s_freelist sl)\<rparr>);
               h2 = (if s_free_count sl = 0 then partial_push c s h1 else h1);
               h3 = upd_cache c (\<lambda>k. k\<lparr>c_live_objects := sub64 (c_live_objects k) 1\<rparr>) h2;
               sl3 = slabs h3 s
           in if s_free_count sl3 = s_total sl3 \<and> (s_next sl3 \<noteq> 0 \<or> s_prev sl3 \<noteq> 0)
              then slab_destroy s h3 else Some h3)"

subsection \<open>Large blocks\<close>

definition large_alloc :: "nat \<Rightarrow> heap \<Rightarrow> (nat \<times> heap) option" where
  "large_alloc sz h =
     (let n = PAGE_ALIGN_UP (add64 sz LARGE_HDR_SIZE) div PAGE_SIZE
      in do {
        (r, p) \<leftarrow> alloc_pages_locked n (hp h);
        Some (case r of
           None \<Rightarrow> (0, h\<lparr>hp := p\<rparr>)
         | Some first \<Rightarrow>
             let a = heap_page_addr first
             in (a + LARGE_HDR_SIZE,
                 h\<lparr>hp := p, larges := (larges h)(a := \<lparr>l_magic = LARGE_MAGIC, l_pages = n, l_size = sz\<rparr>),
                   large_allocs := add64 (large_allocs h) 1\<rparr>))
      })"

subsection \<open>The public interface\<close>

definition heap_init :: "heap \<Rightarrow> heap" where
  "heap_init h = fold (\<lambda>i. upd_cache i (\<lambda>k. k\<lparr>c_obj_size := class_sizes ! i\<rparr>)) [0 ..< NUM_CLASSES] h"

definition kmalloc_locked :: "nat \<Rightarrow> heap \<Rightarrow> (nat \<times> heap) option" where
  "kmalloc_locked sz h =
     (if sz > MAX_SMALL then do {
        (p, h) \<leftarrow> large_alloc sz h;
        Some (p, if p \<noteq> 0 then h\<lparr>bytes_requested := add64 (bytes_requested h) sz\<rparr> else h)
      } else case cache_for sz of
          None \<Rightarrow> None
        | Some c \<Rightarrow> do {
            (p, h) \<leftarrow> slab_alloc c h;
            Some (p, if p \<noteq> 0 then h\<lparr>bytes_requested := add64 (bytes_requested h) (c_obj_size (caches h c))\<rparr> else h)
          })"

definition kmalloc :: "nat \<Rightarrow> heap \<Rightarrow> (nat \<times> heap) option" where
  "kmalloc sz h = (if sz = 0 then Some (0, h) else kmalloc_locked sz h)"

definition kzalloc :: "nat \<Rightarrow> heap \<Rightarrow> (nat \<times> heap) option" where
  "kzalloc sz h = do {
     (p, h) \<leftarrow> kmalloc sz h;
     Some (p, if p \<noteq> 0 then h\<lparr>bytes := (\<lambda>a. if p \<le> a \<and> a < p + sz then 0 else bytes h a)\<rparr> else h)
   }"

text \<open>The usable and the requested size of a block.\<close>

definition usable_size :: "nat \<Rightarrow> heap \<Rightarrow> nat \<times> nat" where
  "usable_size ptr h =
     (let o1 = owner (hp h) (page_index ptr)
      in if o1 = OWNER_LARGE then
           let l = larges h (ptr - LARGE_HDR_SIZE)
           in (sub64 (wrap64 (l_pages l * PAGE_SIZE)) LARGE_HDR_SIZE, l_size l)
         else (s_obj_size (slabs h o1), s_obj_size (slabs h o1)))"

definition kfree_locked :: "nat \<Rightarrow> heap \<Rightarrow> heap option" where
  "kfree_locked ptr h =
     (if ptr < HEAP_START \<or> ptr \<ge> HEAP_START + HEAP_PAGES * PAGE_SIZE
      then Some (h\<lparr>msgs := msgs h @ [NotHeapPointer ptr]\<rparr>)
      else
        let o1 = owner (hp h) (page_index ptr)
        in if o1 = 0 then Some (h\<lparr>msgs := msgs h @ [PageNotAllocated ptr]\<rparr>)
           else if o1 = OWNER_LARGE then
             let a = ptr - LARGE_HDR_SIZE; l = larges h a
             in if a mod PAGE_SIZE \<noteq> 0 \<or> l_magic l \<noteq> LARGE_MAGIC
                then Some (h\<lparr>msgs := msgs h @ [BadLargeHeader ptr]\<rparr>)
                else
                  let h1 = h\<lparr>bytes_requested := sub64 (bytes_requested h) (l_size l),
                             large_allocs := sub64 (large_allocs h) 1,
                             larges := (larges h)(a := l\<lparr>l_magic := 0\<rparr>)\<rparr>
                  in do { p \<leftarrow> free_pages_locked (page_index a) (l_pages l) (hp h1); Some (h1\<lparr>hp := p\<rparr>) }
           else if s_magic (slabs h o1) \<noteq> SLAB_MAGIC
             then Some (h\<lparr>msgs := msgs h @ [BadSlabMagic ptr]\<rparr>)
           else slab_free o1 ptr
                  (h\<lparr>bytes_requested := sub64 (bytes_requested h) (s_obj_size (slabs h o1))\<rparr>))"

definition kfree :: "nat \<Rightarrow> heap \<Rightarrow> heap option" where
  "kfree ptr h = (if ptr = 0 then Some h else kfree_locked ptr h)"

definition copy_bytes :: "nat \<Rightarrow> nat \<Rightarrow> nat \<Rightarrow> (nat \<Rightarrow> u8) \<Rightarrow> nat \<Rightarrow> u8" where
  "copy_bytes dst src n m = (\<lambda>a. if dst \<le> a \<and> a < dst + n then m (src + (a - dst)) else m a)"

definition krealloc :: "nat \<Rightarrow> nat \<Rightarrow> heap \<Rightarrow> (nat \<times> heap) option" where
  "krealloc ptr sz h =
     (if ptr = 0 then kmalloc sz h
      else if sz = 0 then do { h \<leftarrow> kfree ptr h; Some (0, h) }
      else
        let (cap, requested) = usable_size ptr h
        in if sz \<le> cap \<and> (sz > MAX_SMALL) = (cap > MAX_SMALL) then Some (ptr, h)
           else do {
             (n, h1) \<leftarrow> kmalloc_locked sz h;
             if n = 0 then Some (0, h1)
             else do {
               h2 \<leftarrow> kfree_locked ptr (h1\<lparr>bytes := copy_bytes n ptr (min requested sz) (bytes h1)\<rparr>);
               Some (n, h2)
             }
           })"

record heap_stats =
  st_pages_mapped :: nat
  st_slabs :: nat
  st_slab_objects :: nat
  st_large_allocs :: nat
  st_bytes_requested :: nat

definition heap_get_stats :: "heap \<Rightarrow> heap_stats" where
  "heap_get_stats h =
     fold (\<lambda>i st. st\<lparr>st_slabs := add64 (st_slabs st) (c_nslabs (caches h i)),
                     st_slab_objects := add64 (st_slab_objects st) (c_live_objects (caches h i))\<rparr>)
       [0 ..< NUM_CLASSES]
       \<lparr>st_pages_mapped = pages_mapped (hp h), st_slabs = 0, st_slab_objects = 0,
        st_large_allocs = large_allocs h, st_bytes_requested = bytes_requested h\<rparr>"

text \<open>Kernel stacks come from the frame allocator and are used through the direct map.\<close>

definition kstack_alloc :: "nat \<Rightarrow> pmm \<Rightarrow> nat \<times> pmm" where
  "kstack_alloc n p = (let (phys, p) = pmm_alloc_pages n p in (if phys \<noteq> 0 then add64 phys (unat HHDM_BASE) else 0, p))"

definition kstack_free :: "nat \<Rightarrow> nat \<Rightarrow> pmm \<Rightarrow> pmm" where
  "kstack_free virt n p = (if virt \<noteq> 0 then pmm_free_pages (sub64 virt (unat HHDM_BASE)) n p else p)"

subsection \<open>Chains\<close>

text \<open>A free list, followed through the links, and a partial list with both pointers.\<close>

primrec chain :: "(nat \<Rightarrow> nat) \<Rightarrow> nat \<Rightarrow> nat list \<Rightarrow> bool" where
  "chain l p [] \<longleftrightarrow> p = 0"
| "chain l p (x # xs) \<longleftrightarrow> p = x \<and> x \<noteq> 0 \<and> chain l (l x) xs"

primrec dll :: "(nat \<Rightarrow> slab) \<Rightarrow> nat \<Rightarrow> nat \<Rightarrow> nat list \<Rightarrow> bool" where
  "dll S q p [] \<longleftrightarrow> p = 0"
| "dll S q p (x # xs) \<longleftrightarrow> p = x \<and> x \<noteq> 0 \<and> s_prev (S x) = q \<and> dll S x (s_next (S x)) xs"

text \<open>Walking \<open>n\<close> links.\<close>

primrec walk :: "(nat \<Rightarrow> nat) \<Rightarrow> nat \<Rightarrow> nat \<Rightarrow> nat list" where
  "walk l p 0 = []"
| "walk l p (Suc n) = p # walk l (l p) n"

lemma chain_walk: "chain l p xs \<Longrightarrow> walk l p (length xs) = xs"
  by (induction xs arbitrary: p) auto

lemma chain_upd: "chain l p xs \<Longrightarrow> \<forall>x \<in> set xs. l' x = l x \<Longrightarrow> chain l' p xs"
  by (induction xs arbitrary: p) auto

lemma dll_cong:
  "(\<And>x. x \<in> set xs \<Longrightarrow> s_next (S x) = s_next (S' x) \<and> s_prev (S x) = s_prev (S' x)) \<Longrightarrow> dll S q p xs = dll S' q p xs"
  by (induction xs arbitrary: q p) auto

lemma dll_nonzero: "dll S q p xs \<Longrightarrow> x \<in> set xs \<Longrightarrow> x \<noteq> 0"
  by (induction xs arbitrary: q p) auto

lemma dll_head: "dll S q p xs \<Longrightarrow> p = 0 \<and> xs = [] \<or> (p \<noteq> 0 \<and> xs = p # tl xs)"
  by (cases xs) auto

lemma dll_push:
  assumes "dll S 0 p xs" and "s \<notin> set xs" and "s \<noteq> 0"
    and "s_next (S' s) = p" "s_prev (S' s) = 0"
    and "\<And>x. x \<in> set xs \<Longrightarrow> s_next (S' x) = s_next (S x)"
    and "\<And>x. x \<in> set xs \<Longrightarrow> s_prev (S' x) = (if x = p then s else s_prev (S x))"
    and "distinct xs"
  shows "dll S' 0 s (s # xs)"
proof (cases xs)
  case (Cons y ys)
  have "s_next (S' x) = s_next (S x) \<and> s_prev (S' x) = s_prev (S x)" if "x \<in> set ys" for x
    using assms(1,8) assms(6,7) [of x] Cons that by auto
  then have "dll S' y (s_next (S y)) ys"
    using assms(1) dll_cong [of ys S' S y "s_next (S y)"] Cons by simp
  then show ?thesis using assms Cons by auto
qed (use assms in auto)

lemma dll_split:
  "dll S q p (xs @ s # ys) \<Longrightarrow> dll S s (s_next (S s)) ys \<and> s_prev (S s) = (if xs = [] then q else last xs)"
proof (induction xs arbitrary: q p)
  case (Cons x xs)
  then have "dll S x (s_next (S x)) (xs @ s # ys)" by simp
  from Cons.IH [OF this] show ?case by simp
qed simp

text \<open>Unlinking an element in the middle: the neighbours point past it.\<close>

lemma dll_remove:
  assumes "dll S q p (xs @ s # ys)" and "distinct (xs @ s # ys)" and "q \<notin> set (xs @ s # ys)"
    and "\<And>x. x \<in> set (xs @ ys) \<Longrightarrow> s_next (S' x) = (if x = s_prev (S s) then s_next (S s) else s_next (S x))"
    and "\<And>x. x \<in> set (xs @ ys) \<Longrightarrow> s_prev (S' x) = (if x = s_next (S s) then s_prev (S s) else s_prev (S x))"
  shows "dll S' q (if s_prev (S s) = q then s_next (S s) else p) (xs @ ys)"
  using assms
proof (induction xs arbitrary: q p)
  case Nil
  then show ?case
  proof (cases ys)
    case (Cons y zs)
    have "s_next (S' x) = s_next (S x) \<and> s_prev (S' x) = s_prev (S x)" if "x \<in> set zs" for x
      using Nil.prems(1-3) Nil.prems(4,5) [of x] Cons that by auto
    then have "dll S' y (s_next (S y)) zs"
      using Nil Cons dll_cong [of zs S' S y "s_next (S y)"] by simp
    then show ?thesis using Nil Cons by auto
  qed auto
next
  case (Cons x xs)
  note sp = dll_split [OF Cons.prems(1)]
  have pr: "s_prev (S s) \<in> set (x # xs)" using sp last_in_set [of "x # xs"] by simp
  have q: "s_prev (S s) \<noteq> q" using pr Cons.prems(3) by auto
  have "dll S' x (if s_prev (S s) = x then s_next (S s) else s_next (S x)) (xs @ ys)"
    using Cons.prems by (intro Cons.IH) auto
  moreover have "s_next (S s) \<noteq> x"
    using sp Cons.prems(1,2) by (cases ys) auto
  ultimately show ?case using Cons.prems q by auto
qed

subsection \<open>The invariant\<close>

definition obj_addrs :: "nat \<Rightarrow> slab \<Rightarrow> nat set" where
  "obj_addrs s sl = (\<lambda>i. s + SLAB_HDR_SIZE + i * s_obj_size sl) ` {..< s_total sl}"

definition free_list :: "(nat \<Rightarrow> nat) \<Rightarrow> slab \<Rightarrow> nat list" where
  "free_list l sl = walk l (s_freelist sl) (s_free_count sl)"

definition slab_shape :: "slab \<Rightarrow> bool" where
  "slab_shape sl \<longleftrightarrow>
     s_magic sl = SLAB_MAGIC \<and> s_cache sl < NUM_CLASSES \<and> s_obj_size sl = class_sizes ! s_cache sl \<and>
     s_total sl = (SLAB_BYTES - SLAB_HDR_SIZE) div s_obj_size sl"

definition slab_ok :: "(nat \<Rightarrow> nat) \<Rightarrow> nat \<Rightarrow> slab \<Rightarrow> bool" where
  "slab_ok l s sl \<longleftrightarrow>
     slab_shape sl \<and> s_free_count sl \<le> s_total sl \<and>
     chain l (s_freelist sl) (free_list l sl) \<and> distinct (free_list l sl) \<and> set (free_list l sl) \<subseteq> obj_addrs s sl"

text \<open>A slab starts at an address when the page there names it as its owner.\<close>

definition slab_at :: "heap \<Rightarrow> nat \<Rightarrow> bool" where
  "slab_at h s \<longleftrightarrow> owner (hp h) (page_index s) = s \<and> heap_page_addr (page_index s) = s"

definition owners_ok :: "heap \<Rightarrow> bool" where
  "owners_ok h \<longleftrightarrow>
     (\<forall>x. owner (hp h) x > OWNER_LARGE \<longrightarrow> slab_at h (owner (hp h) x) \<and>
        page_index (owner (hp h) x) \<le> x \<and> x < page_index (owner (hp h) x) + SLAB_PAGES) \<and>
     (\<forall>s x. slab_at h s \<and> page_index s \<le> x \<and> x < page_index s + SLAB_PAGES \<longrightarrow> owner (hp h) x = s)"

definition large_at :: "heap \<Rightarrow> nat \<Rightarrow> bool" where
  "large_at h a \<longleftrightarrow> l_magic (larges h a) = LARGE_MAGIC"

definition large_pages :: "heap \<Rightarrow> nat \<Rightarrow> nat set" where
  "large_pages h a = {page_index a ..< page_index a + l_pages (larges h a)}"

definition larges_ok :: "heap \<Rightarrow> bool" where
  "larges_ok h \<longleftrightarrow>
     (\<forall>a. large_at h a \<longrightarrow> heap_page_addr (page_index a) = a \<and> 0 < l_pages (larges h a) \<and>
        (\<forall>x \<in> large_pages h a. owner (hp h) x = OWNER_LARGE)) \<and>
     (\<forall>a b. large_at h a \<and> large_at h b \<and> a \<noteq> b \<longrightarrow> large_pages h a \<inter> large_pages h b = {})"

text \<open>The slabs of a class with a free object, which are the ones on its partial list.\<close>

definition parts :: "heap \<Rightarrow> nat \<Rightarrow> nat set" where
  "parts h k = {s. slab_at h s \<and> s_cache (slabs h s) = k \<and> 0 < s_free_count (slabs h s)}"

definition lists_for :: "heap \<Rightarrow> (nat \<Rightarrow> nat set) \<Rightarrow> bool" where
  "lists_for h P \<longleftrightarrow>
     (\<forall>k < NUM_CLASSES. \<exists>xs. dll (slabs h) 0 (c_partial (caches h k)) xs \<and> distinct xs \<and> set xs = P k) \<and>
     (\<forall>j k. j \<noteq> k \<longrightarrow> P j \<inter> P k = {})"

definition heap_inv :: "heap \<Rightarrow> bool" where
  "heap_inv h \<longleftrightarrow>
     pages_inv (hp h) \<and> owners_ok h \<and> (\<forall>s. slab_at h s \<longrightarrow> slab_ok (links h) s (slabs h s)) \<and> larges_ok h \<and>
     lists_for h (parts h) \<and> (\<forall>k < NUM_CLASSES. c_obj_size (caches h k) = class_sizes ! k)"

text \<open>The blocks that are handed out, with the room they have.\<close>

definition live_obj :: "heap \<Rightarrow> nat \<Rightarrow> nat \<Rightarrow> bool" where
  "live_obj h s p \<longleftrightarrow> slab_at h s \<and> p \<in> obj_addrs s (slabs h s) \<and> p \<notin> set (free_list (links h) (slabs h s))"

definition slab_blocks :: "heap \<Rightarrow> (nat \<times> nat) set" where
  "slab_blocks h = {(p, n). \<exists>s. live_obj h s p \<and> n = s_obj_size (slabs h s)}"

lemma slab_blocks_cong:
  assumes "\<And>s p. live_obj h' s p \<longleftrightarrow> live_obj h s p" and "\<And>s. slab_at h s \<Longrightarrow> s_obj_size (slabs h' s) = s_obj_size (slabs h s)"
  shows "slab_blocks h' = slab_blocks h"
proof -
  have "live_obj h' s p \<and> n = s_obj_size (slabs h' s) \<longleftrightarrow> live_obj h s p \<and> n = s_obj_size (slabs h s)" for s p n
    using assms unfolding live_obj_def by auto
  then show ?thesis unfolding slab_blocks_def by simp
qed

definition large_blocks :: "heap \<Rightarrow> (nat \<times> nat) set" where
  "large_blocks h = {(p, n). \<exists>a. large_at h a \<and> p = a + LARGE_HDR_SIZE \<and>
                      n = l_pages (larges h a) * PAGE_SIZE - LARGE_HDR_SIZE}"

definition blocks :: "heap \<Rightarrow> (nat \<times> nat) set" where
  "blocks h = slab_blocks h \<union> large_blocks h"

subsection \<open>Partial lists\<close>

text \<open>A slab without its list pointers.\<close>

definition core :: "slab \<Rightarrow> slab" where
  "core sl = sl\<lparr>s_next := 0, s_prev := 0\<rparr>"

lemma core_eqD:
  assumes "core sl' = core sl"
  shows "s_magic sl' = s_magic sl" "s_obj_size sl' = s_obj_size sl" "s_free_count sl' = s_free_count sl"
    "s_total sl' = s_total sl" "s_freelist sl' = s_freelist sl" "s_cache sl' = s_cache sl"
  using arg_cong [OF assms, of s_magic] arg_cong [OF assms, of s_obj_size] arg_cong [OF assms, of s_free_count]
    arg_cong [OF assms, of s_total] arg_cong [OF assms, of s_freelist] arg_cong [OF assms, of s_cache]
  by (simp_all add: core_def)

text \<open>What the list operations keep.\<close>

definition same_core :: "heap \<Rightarrow> heap \<Rightarrow> bool" where
  "same_core h h' \<longleftrightarrow>
     hp h' = hp h \<and> larges h' = larges h \<and> links h' = links h \<and> bytes h' = bytes h \<and>
     (\<forall>x. core (slabs h' x) = core (slabs h x)) \<and>
     (\<forall>k. c_obj_size (caches h' k) = c_obj_size (caches h k))"

lemma same_core_simps:
  assumes "same_core h h'"
  shows "slab_at h' s = slab_at h s" "slab_ok l s (slabs h' s) = slab_ok l s (slabs h s)" "parts h' = parts h"
    "large_at h' a = large_at h a" "large_pages h' a = large_pages h a" "owners_ok h' = owners_ok h"
    "larges_ok h' = larges_ok h" "slab_blocks h' = slab_blocks h" "large_blocks h' = large_blocks h"
proof -
  have c: "core (slabs h' x) = core (slabs h x)" for x using assms by (simp add: same_core_def)
  have e: "hp h' = hp h" "larges h' = larges h" "links h' = links h" using assms by (simp_all add: same_core_def)
  show s: "slab_at h' s = slab_at h s" for s by (simp add: slab_at_def e)
  show "slab_ok l s (slabs h' s) = slab_ok l s (slabs h s)"
    by (simp add: slab_ok_def slab_shape_def free_list_def obj_addrs_def core_eqD [OF c])
  show "parts h' = parts h" by (simp add: parts_def fun_eq_iff s core_eqD [OF c])
  show l: "large_at h' a = large_at h a" "large_pages h' a = large_pages h a" for a
    by (simp_all add: large_at_def large_pages_def e)
  show "owners_ok h' = owners_ok h" by (simp add: owners_ok_def s e)
  show "larges_ok h' = larges_ok h" by (simp add: larges_ok_def l e)
  show "slab_blocks h' = slab_blocks h"
    by (simp add: slab_blocks_def live_obj_def s e free_list_def obj_addrs_def core_eqD [OF c])
  show "large_blocks h' = large_blocks h" by (simp add: large_blocks_def l e)
qed

lemma upd_simps [simp]:
  "hp (upd_slab s f h) = hp h" "hp (upd_cache c g h) = hp h"
  "larges (upd_slab s f h) = larges h" "larges (upd_cache c g h) = larges h"
  "links (upd_slab s f h) = links h" "links (upd_cache c g h) = links h"
  "bytes (upd_slab s f h) = bytes h" "bytes (upd_cache c g h) = bytes h"
  "slabs (upd_slab s f h) = (slabs h)(s := f (slabs h s))" "slabs (upd_cache c g h) = slabs h"
  "caches (upd_slab s f h) = caches h" "caches (upd_cache c g h) = (caches h)(c := g (caches h c))"
  by (simp_all add: upd_slab_def upd_cache_def)

lemma push_core: "same_core h (partial_push c s h)"
  by (simp add: partial_push_def same_core_def Let_def core_def)

lemma remove_core: "same_core h (partial_remove c s h)"
  by (simp add: partial_remove_def same_core_def Let_def core_def)

lemma push_lists:
  assumes l: "lists_for h P" and s: "\<And>k. s \<notin> P k" "s \<noteq> 0" and c: "c < NUM_CLASSES"
  shows "lists_for (partial_push c s h) (P(c := insert s (P c)))"
  unfolding lists_for_def
proof (intro conjI allI impI)
  let ?h = "partial_push c s h"
  obtain xs where xs: "dll (slabs h) 0 (c_partial (caches h c)) xs" "distinct xs" "set xs = P c"
    using l c unfolding lists_for_def by blast
  have hd: "c_partial (caches h c) \<in> P c" if "c_partial (caches h c) \<noteq> 0"
    using dll_head [OF xs(1)] that xs(3) by (metis list.set_intros(1))
  have out: "slabs ?h x = slabs h x" if "x \<noteq> s" "x \<notin> P c" for x
    using hd that by (auto simp: partial_push_def Let_def)
  fix k assume k: "k < NUM_CLASSES"
  show "\<exists>xs. dll (slabs ?h) 0 (c_partial (caches ?h k)) xs \<and> distinct xs \<and> set xs = (P(c := insert s (P c))) k"
  proof (cases "k = c")
    case True
    have "dll (slabs ?h) 0 s (s # xs)"
    proof (rule dll_push [OF xs(1)])
      show "s_next (slabs ?h s) = c_partial (caches h c)" "s_prev (slabs ?h s) = 0"
        using hd s by (auto simp: partial_push_def Let_def)
    qed (use s xs(2,3) dll_nonzero [OF xs(1)] in \<open>auto simp: partial_push_def Let_def\<close>)
    then show ?thesis
      using True s xs by (intro exI [of _ "s # xs"]) (simp add: partial_push_def Let_def)
  next
    case False
    obtain ys where ys: "dll (slabs h) 0 (c_partial (caches h k)) ys" "distinct ys" "set ys = P k"
      using l k unfolding lists_for_def by blast
    have "dll (slabs ?h) 0 (c_partial (caches h k)) ys = dll (slabs h) 0 (c_partial (caches h k)) ys"
    proof (rule dll_cong)
      fix x assume "x \<in> set ys"
      then have "x \<noteq> s" "x \<notin> P c" using ys(3) s l False unfolding lists_for_def by blast+
      then show "s_next (slabs ?h x) = s_next (slabs h x) \<and> s_prev (slabs ?h x) = s_prev (slabs h x)"
        using out by simp
    qed
    moreover have "c_partial (caches ?h k) = c_partial (caches h k)" using False by (simp add: partial_push_def Let_def)
    ultimately show ?thesis using ys False by (intro exI [of _ ys]) simp
  qed
next
  fix j k :: nat assume "j \<noteq> k"
  then show "(P(c := insert s (P c))) j \<inter> (P(c := insert s (P c))) k = {}"
    using l s unfolding lists_for_def by auto
qed

lemma remove_lists:
  assumes l: "lists_for h P" and s: "s \<in> P c" and c: "c < NUM_CLASSES"
  shows "lists_for (partial_remove c s h) (P(c := P c - {s}))"
  unfolding lists_for_def
proof (intro conjI allI impI)
  let ?h = "partial_remove c s h" and ?n = "s_next (slabs h s)" and ?p = "s_prev (slabs h s)"
  obtain xs where xs: "dll (slabs h) 0 (c_partial (caches h c)) xs" "distinct xs" "set xs = P c"
    using l c unfolding lists_for_def by blast
  then obtain as bs where ab: "xs = as @ s # bs" using s by (metis in_set_conv_decomp)
  note sp = dll_split [OF xs(1) [unfolded ab]]
  have p: "?p \<noteq> 0 \<longrightarrow> ?p \<in> set as" using sp last_in_set [of as] by auto
  have n: "?n \<noteq> 0 \<longrightarrow> ?n \<in> set bs" using dll_head [OF conjunct1 [OF sp]] by (metis list.set_intros(1))
  have nz: "0 \<notin> P c" using dll_nonzero [OF xs(1)] xs(3) by auto
  have ds: "s \<notin> set as" "s \<notin> set bs" "set as \<inter> set bs = {}" using xs(2) ab by auto
  have nx: "s_next (slabs ?h x) = (if x = ?p then ?n else s_next (slabs h x))"
    and pv: "s_prev (slabs ?h x) = (if x = ?n then ?p else s_prev (slabs h x))" if "x \<noteq> s" "x \<noteq> 0" for x
    using p n ds that by (auto simp: partial_remove_def Let_def)
  have hd: "c_partial (caches ?h k) = (if k = c \<and> ?p = 0 then ?n else c_partial (caches h k))" for k
    by (simp add: partial_remove_def Let_def)
  fix k assume k: "k < NUM_CLASSES"
  show "\<exists>xs. dll (slabs ?h) 0 (c_partial (caches ?h k)) xs \<and> distinct xs \<and> set xs = (P(c := P c - {s})) k"
  proof (cases "k = c")
    case True
    have "dll (slabs ?h) 0 (if ?p = 0 then ?n else c_partial (caches h c)) (as @ bs)"
      using xs nz ds by (intro dll_remove nx pv) (auto simp: ab)
    then show ?thesis
      using True xs ab ds by (intro exI [of _ "as @ bs"]) (auto simp: hd)
  next
    case False
    obtain ys where ys: "dll (slabs h) 0 (c_partial (caches h k)) ys" "distinct ys" "set ys = P k"
      using l k unfolding lists_for_def by blast
    have "dll (slabs ?h) 0 (c_partial (caches h k)) ys = dll (slabs h) 0 (c_partial (caches h k)) ys"
    proof (rule dll_cong)
      fix x assume x: "x \<in> set ys"
      then have "x \<notin> P c" using ys(3) l False unfolding lists_for_def by blast
      then have "x \<noteq> s" "x \<noteq> ?p" "x \<noteq> ?n" "x \<noteq> 0" using dll_nonzero [OF ys(1) x] p n xs(3) ab s by auto
      then show "s_next (slabs ?h x) = s_next (slabs h x) \<and> s_prev (slabs ?h x) = s_prev (slabs h x)"
        by (simp add: nx pv)
    qed
    then show ?thesis using ys False by (intro exI [of _ ys]) (simp add: hd)
  qed
next
  fix j k :: nat assume "j \<noteq> k"
  then have "P j \<inter> P k = {}" using l unfolding lists_for_def by blast
  then show "(P(c := P c - {s})) j \<inter> (P(c := P c - {s})) k = {}" by auto
qed

text \<open>Changing fields other than the list pointers.\<close>

lemma lists_cong:
  assumes "lists_for h P" and "\<And>k. c_partial (caches h' k) = c_partial (caches h k)"
    and "\<And>x k. x \<in> P k \<Longrightarrow> s_next (slabs h' x) = s_next (slabs h x) \<and> s_prev (slabs h' x) = s_prev (slabs h x)"
  shows "lists_for h' P"
proof -
  have "dll (slabs h') 0 p xs = dll (slabs h) 0 p xs" if "set xs = P k" for p xs k
    using assms(3) that by (intro dll_cong) auto
  then show ?thesis using assms(1,2) unfolding lists_for_def by metis
qed

subsection \<open>One slab\<close>

lemma slab_fields [simp]:
  "slab_shape (sl\<lparr>s_freelist := p\<rparr>) = slab_shape sl" "slab_shape (sl\<lparr>s_free_count := n\<rparr>) = slab_shape sl"
  "obj_addrs s (sl\<lparr>s_freelist := p\<rparr>) = obj_addrs s sl" "obj_addrs s (sl\<lparr>s_free_count := n\<rparr>) = obj_addrs s sl"
  by (simp_all add: slab_shape_def obj_addrs_def)

lemma class_size_bounds: "k < NUM_CLASSES \<Longrightarrow> 16 \<le> class_sizes ! k \<and> class_sizes ! k \<le> 2048 \<and> class_sizes ! k mod 16 = 0"
proof -
  assume "k < NUM_CLASSES"
  then have "k \<in> {0, 1, 2, 3, 4, 5, 6, 7}" by auto
  then show ?thesis by (auto simp: class_sizes_def)
qed

lemma page_index_addr [simp]: "page_index (heap_page_addr p) = p"
  by (simp add: page_index_def heap_page_addr_def)

lemma page_index_offset: "page_index (heap_page_addr p + d) = p + d div PAGE_SIZE"
  by (simp add: page_index_def heap_page_addr_def)

lemma heap_page_addr_pos [simp]: "HEAP_START \<le> heap_page_addr p" "0 < heap_page_addr p" "heap_page_addr p \<noteq> 0" "heap_page_addr p \<noteq> OWNER_LARGE"
  by (simp_all add: heap_page_addr_def)

lemma slab_okD:
  assumes "slab_ok l s sl"
  shows "16 \<le> s_obj_size sl" "s_obj_size sl \<le> 2048" "s_obj_size sl mod 16 = 0" "s_total sl \<le> 1020"
    "s_total sl * s_obj_size sl \<le> SLAB_BYTES - SLAB_HDR_SIZE" "0 < s_total sl"
proof -
  show b: "16 \<le> s_obj_size sl" "s_obj_size sl \<le> 2048" "s_obj_size sl mod 16 = 0"
    using assms class_size_bounds [of "s_cache sl"] by (auto simp: slab_ok_def slab_shape_def)
  have t: "s_total sl = (SLAB_BYTES - SLAB_HDR_SIZE) div s_obj_size sl" using assms by (simp add: slab_ok_def slab_shape_def)
  show "s_total sl * s_obj_size sl \<le> SLAB_BYTES - SLAB_HDR_SIZE" unfolding t by (rule div_times_less_eq_dividend)
  show "s_total sl \<le> 1020" unfolding t using div_le_mono2 [OF _ b(1), of "SLAB_BYTES - SLAB_HDR_SIZE"] by simp
  show "0 < s_total sl" unfolding t using b by (simp add: div_greater_zero_iff)
qed

lemma obj_addrs_range:
  assumes "slab_ok l s sl" and "p \<in> obj_addrs s sl"
  shows "s + SLAB_HDR_SIZE \<le> p \<and> p + s_obj_size sl \<le> s + SLAB_BYTES"
proof -
  obtain i where i: "i < s_total sl" "p = s + SLAB_HDR_SIZE + i * s_obj_size sl" using assms(2) by (auto simp: obj_addrs_def)
  have "Suc i * s_obj_size sl \<le> s_total sl * s_obj_size sl" using i(1) by (intro mult_le_mono1) simp
  then show ?thesis using slab_okD(5) [OF assms(1)] i(2) by simp
qed

lemma card_obj_addrs: "slab_ok l s sl \<Longrightarrow> card (obj_addrs s sl) = s_total sl"
  using slab_okD(1) [of l s sl] unfolding obj_addrs_def by (subst card_image) (auto simp: inj_on_def)

lemma walk_length [simp]: "length (walk l p n) = n"
  by (induction n arbitrary: p) auto

lemma free_list_length [simp]: "length (free_list l sl) = s_free_count sl"
  by (simp add: free_list_def)

lemma slab_take_ok:
  assumes ok: "slab_ok l s sl" and f: "0 < s_free_count sl" and pos: "HEAP_START \<le> s"
    and sl': "sl' = sl\<lparr>s_freelist := l (s_freelist sl), s_free_count := dec32 (s_free_count sl)\<rparr>"
  shows "slab_ok l s sl' \<and> s_freelist sl \<in> obj_addrs s sl \<and> s_freelist sl \<notin> set (free_list l sl') \<and>
    set (free_list l sl) = insert (s_freelist sl) (set (free_list l sl')) \<and> s_free_count sl' = s_free_count sl - 1"
proof -
  obtain n where n: "s_free_count sl = Suc n" using f by (cases "s_free_count sl") auto
  have "Suc n \<le> 1020" using ok slab_okD(4) [OF ok] n unfolding slab_ok_def by linarith
  then have c: "s_free_count sl' = n" using n by (simp add: sl' dec32_def mod_if)
  have l: "free_list l sl = s_freelist sl # free_list l sl'" by (simp add: free_list_def n c) (simp add: sl')
  show ?thesis
    using ok c n l unfolding slab_ok_def by (simp add: sl')
qed

lemma slab_put_ok:
  assumes ok: "slab_ok l s sl" and p: "p \<in> obj_addrs s sl" "p \<notin> set (free_list l sl)" and pos: "HEAP_START \<le> s"
    and sl': "sl' = sl\<lparr>s_freelist := p, s_free_count := inc32 (s_free_count sl)\<rparr>" and l': "l' = l(p := s_freelist sl)"
  shows "slab_ok l' s sl' \<and> set (free_list l' sl') = insert p (set (free_list l sl)) \<and>
    s_free_count sl' = Suc (s_free_count sl)"
proof -
  have ch: "chain l (s_freelist sl) (free_list l sl)" "distinct (free_list l sl)" "set (free_list l sl) \<subseteq> obj_addrs s sl"
    using ok by (simp_all add: slab_ok_def)
  have "card (insert p (set (free_list l sl))) \<le> card (obj_addrs s sl)"
    using ch p by (intro card_mono) (auto simp: obj_addrs_def)
  then have le: "Suc (s_free_count sl) \<le> s_total sl"
    using ch(2) p(2) by (simp add: card_obj_addrs [OF ok] distinct_card)
  then have c: "s_free_count sl' = Suc (s_free_count sl)"
    using slab_okD(4) [OF ok] by (simp add: sl' inc32_def)
  have ch': "chain l' (s_freelist sl) (free_list l sl)"
    using chain_upd [OF ch(1), of l'] p(2) by (auto simp: l')
  have fl: "free_list l' sl' = p # free_list l sl"
    using chain_walk [OF ch'] by (simp add: free_list_def c) (simp add: sl' l')
  have "p \<noteq> 0" using obj_addrs_range [OF ok p(1)] by simp
  then show ?thesis
    using ok ch ch' p le c unfolding slab_ok_def fl by (simp add: sl' l')
qed

lemma slab_links_ok:
  assumes ok: "slab_ok l s sl" and "\<And>x. x \<in> obj_addrs s sl \<Longrightarrow> l' x = l x"
  shows "slab_ok l' s sl \<and> free_list l' sl = free_list l sl"
proof -
  have ch: "chain l (s_freelist sl) (free_list l sl)" "set (free_list l sl) \<subseteq> obj_addrs s sl"
    using ok by (simp_all add: slab_ok_def)
  then have ch': "chain l' (s_freelist sl) (free_list l sl)"
    using assms(2) chain_upd [OF ch(1), of l'] by blast
  then have "free_list l' sl = free_list l sl"
    using chain_walk [OF ch'] by (simp add: free_list_def)
  then show ?thesis using ok ch' by (simp add: slab_ok_def)
qed

lemma thread_objects_at:
  "0 < sz \<Longrightarrow> thread_objects obj sz tot l x =
     (if \<exists>i < tot. x = obj + i * sz then (if x + sz < obj + tot * sz then x + sz else 0) else l x)"
proof -
  assume sz: "0 < sz"
  have "fold (\<lambda>i l. l(obj + i * sz := (if i + 1 < tot then obj + (i + 1) * sz else 0))) [0 ..< n] l x =
    (if \<exists>i < n. x = obj + i * sz then (if x + sz < obj + tot * sz then x + sz else 0) else l x)" for n
  proof (induction n)
    case (Suc n)
    have "n + 1 < tot \<longleftrightarrow> obj + n * sz + sz < obj + tot * sz"
      using sz mult_less_cancel2 [of "n + 1" sz tot] by (simp add: algebra_simps)
    then show ?case using Suc by (auto simp: less_Suc_eq algebra_simps)
  qed simp
  then show ?thesis by (simp add: thread_objects_def)
qed

lemma thread_chain:
  "0 < sz \<Longrightarrow> 0 < obj \<Longrightarrow> k \<le> tot \<Longrightarrow>
   chain (thread_objects obj sz tot l) (if k < tot then obj + k * sz else 0) (map (\<lambda>i. obj + i * sz) [k ..< tot])"
proof (induction "tot - k" arbitrary: k)
  case (Suc n)
  then have k: "k < tot" by simp
  have "Suc k < tot \<longleftrightarrow> obj + k * sz + sz < obj + tot * sz"
    using Suc.prems mult_less_cancel2 [of "Suc k" sz tot] by (simp add: algebra_simps)
  then have "thread_objects obj sz tot l (obj + k * sz) = (if Suc k < tot then obj + Suc k * sz else 0)"
    using k Suc.prems by (auto simp: thread_objects_at algebra_simps)
  then show ?case using Suc.hyps(1) [of "Suc k"] Suc.hyps(2) Suc.prems k by (simp add: upt_conv_Cons)
qed simp

lemma slab_new_ok:
  assumes c: "c < NUM_CLASSES" and s: "s = heap_page_addr first"
    and sl: "s_magic sl = SLAB_MAGIC" "s_obj_size sl = class_sizes ! c" "s_free_count sl = s_total sl"
      "s_total sl = (SLAB_BYTES - SLAB_HDR_SIZE) div s_obj_size sl" "s_freelist sl = s + SLAB_HDR_SIZE" "s_cache sl = c"
    and l: "l = thread_objects (s + SLAB_HDR_SIZE) (s_obj_size sl) (s_total sl) l0"
  shows "slab_ok l s sl \<and> set (free_list l sl) = obj_addrs s sl \<and> 0 < s_free_count sl \<and>
    (\<forall>x. x \<notin> obj_addrs s sl \<longrightarrow> l x = l0 x)"
proof -
  have sz: "16 \<le> s_obj_size sl" "s_obj_size sl \<le> 2048" using class_size_bounds [OF c] sl(2) by auto
  have t: "0 < s_total sl" unfolding sl(4) using sz by (simp add: div_greater_zero_iff)
  let ?xs = "map (\<lambda>i. s + SLAB_HDR_SIZE + i * s_obj_size sl) [0 ..< s_total sl]"
  have ch: "chain l (s + SLAB_HDR_SIZE) ?xs"
    using thread_chain [of "s_obj_size sl" "s + SLAB_HDR_SIZE" 0 "s_total sl" l0] sz t by (simp add: l)
  then have fl: "free_list l sl = ?xs" using chain_walk [OF ch] by (simp add: free_list_def sl(3,5))
  have "distinct ?xs" using sz by (auto simp: distinct_map inj_on_def)
  moreover have st: "set ?xs = obj_addrs s sl" by (auto simp: obj_addrs_def)
  moreover have "slab_shape sl" using sl c by (simp add: slab_shape_def)
  moreover have "l x = l0 x" if "x \<notin> obj_addrs s sl" for x
    using that sz by (auto simp: l thread_objects_at obj_addrs_def)
  ultimately show ?thesis using ch t sl(3,5) by (simp add: slab_ok_def fl del: set_map)
qed

subsection \<open>Slabs in the heap\<close>

lemma heap_invD:
  assumes "heap_inv h"
  shows "pages_inv (hp h)" "owners_ok h" "slab_at h s \<Longrightarrow> slab_ok (links h) s (slabs h s)" "larges_ok h"
    "lists_for h (parts h)" "k < NUM_CLASSES \<Longrightarrow> c_obj_size (caches h k) = class_sizes ! k"
  using assms by (simp_all add: heap_inv_def)

lemma heap_invI:
  assumes "pages_inv (hp h)" "owners_ok h" "\<And>s. slab_at h s \<Longrightarrow> slab_ok (links h) s (slabs h s)" "larges_ok h"
    "lists_for h (parts h)" "\<And>k. k < NUM_CLASSES \<Longrightarrow> c_obj_size (caches h k) = class_sizes ! k"
  shows "heap_inv h"
  using assms by (simp add: heap_inv_def)

lemma slab_at_addr: "slab_at h s \<Longrightarrow> \<exists>p. s = heap_page_addr p \<and> owner (hp h) p = s"
  by (metis slab_at_def)

lemma slab_at_pos: "slab_at h s \<Longrightarrow> HEAP_START \<le> s"
  using slab_at_addr heap_page_addr_pos(1) by blast

text \<open>An object lies in pages of its slab, so objects of different slabs are apart.\<close>

lemma obj_page:
  assumes inv: "heap_inv h" and s: "slab_at h s" and p: "p \<in> obj_addrs s (slabs h s)"
    and q: "p \<le> q" "q < p + s_obj_size (slabs h s)"
  shows "owner (hp h) (page_index q) = s"
proof -
  obtain f where f: "s = heap_page_addr f" using slab_at_addr [OF s] by blast
  have r: "s + SLAB_HDR_SIZE \<le> p \<and> p + s_obj_size (slabs h s) \<le> s + SLAB_BYTES"
    using obj_addrs_range [OF heap_invD(3) [OF inv s] p] .
  define d where "d = q - s"
  have d: "q = s + d" "d < SLAB_BYTES" using r q unfolding d_def by linarith+
  have "page_index q = f + d div PAGE_SIZE" using page_index_offset f d by simp
  moreover have "d div PAGE_SIZE < 4" using d(2) by (simp add: div_less_iff_less_mult)
  ultimately show ?thesis
    using heap_invD(2) [OF inv] s f unfolding owners_ok_def by simp
qed

lemma obj_slab_unique:
  assumes "heap_inv h" and "slab_at h s" and "p \<in> obj_addrs s (slabs h s)"
    and "slab_at h t" and "p \<in> obj_addrs t (slabs h t)"
  shows "s = t"
  using obj_page [OF assms(1-3), of p] obj_page [OF assms(1,4,5), of p]
    slab_okD(1) [OF heap_invD(3) [OF assms(1,2)]] slab_okD(1) [OF heap_invD(3) [OF assms(1,4)]] by simp

lemma large_page:
  assumes inv: "heap_inv h" and a: "large_at h a" and q: "a \<le> q" "q < a + l_pages (larges h a) * PAGE_SIZE"
  shows "owner (hp h) (page_index q) = OWNER_LARGE" and "page_index q \<in> large_pages h a"
proof -
  have ad: "heap_page_addr (page_index a) = a" and ow: "\<forall>x \<in> large_pages h a. owner (hp h) x = OWNER_LARGE"
    using heap_invD(4) [OF inv] a by (auto simp: larges_ok_def)
  have "page_index q = page_index a + (q - a) div PAGE_SIZE"
    using page_index_offset [of "page_index a" "q - a"] ad q(1) by simp
  moreover have "(q - a) div PAGE_SIZE < l_pages (larges h a)"
    using q by (simp add: div_less_iff_less_mult)
  ultimately show "page_index q \<in> large_pages h a" by (simp add: large_pages_def)
  then show "owner (hp h) (page_index q) = OWNER_LARGE" using ow by blast
qed

text \<open>A block is a large block or an object, as the owner of its first page says.\<close>

lemma large_block_owner: "heap_inv h \<Longrightarrow> (p, n) \<in> large_blocks h \<Longrightarrow> owner (hp h) (page_index p) = OWNER_LARGE"
proof -
  assume inv: "heap_inv h" and "(p, n) \<in> large_blocks h"
  then obtain a where a: "large_at h a" "p = a + LARGE_HDR_SIZE" by (auto simp: large_blocks_def)
  have "0 < l_pages (larges h a)" using heap_invD(4) [OF inv] a by (simp add: larges_ok_def)
  then show ?thesis using large_page(1) [OF inv a(1), of p] a(2) by simp
qed

lemma live_obj_owner: "heap_inv h \<Longrightarrow> live_obj h s p \<Longrightarrow> owner (hp h) (page_index p) = s"
  using obj_page [of h s p p] slab_okD(1) [OF heap_invD(3), of h s] by (auto simp: live_obj_def)

lemma block_owner: "heap_inv h \<Longrightarrow> (p, n) \<in> blocks h \<Longrightarrow> owner (hp h) (page_index p) \<noteq> 0"
  using large_block_owner [of h p n] live_obj_owner [of h _ p] slab_at_pos
  by (fastforce simp: blocks_def slab_blocks_def live_obj_def)

lemma pages_inv_owner:
  assumes "pages_inv q" and "\<And>x. (f x \<noteq> 0) = (owner q x \<noteq> 0)"
  shows "pages_inv (q\<lparr>owner := f\<rparr>)"
  using assms by (simp add: pages_inv_def free_count_at_def)

text \<open>Adding a slab on fresh pages.\<close>

lemma new_slab_state:
  assumes inv: "heap_inv h" and c: "c < NUM_CLASSES" and s: "s = heap_page_addr first"
    and free: "\<And>x. first \<le> x \<Longrightarrow> x < first + SLAB_PAGES \<Longrightarrow> owner (hp h) x = 0"
    and own: "pages_inv (hp h1)" "owner (hp h1) = set_owner first SLAB_PAGES s (owner (hp h))"
    and sl: "slab_ok (links h1) s sl" "set (free_list (links h1) sl) = obj_addrs s sl" "0 < s_free_count sl" "s_cache sl = c"
    and lk: "\<And>x. x \<notin> obj_addrs s sl \<Longrightarrow> links h1 x = links h x"
    and st: "slabs h1 = (slabs h)(s := sl)" "larges h1 = larges h"
      "\<And>k. c_partial (caches h1 k) = c_partial (caches h k)" "\<And>k. c_obj_size (caches h1 k) = c_obj_size (caches h k)"
  shows "heap_inv (partial_push c s h1)" and "blocks (partial_push c s h1) = blocks h"
    and "s \<in> parts (partial_push c s h1) c"
proof -
  note core = push_core [of h1 c s]
  note same = same_core_simps [OF core]
  have sz: "s \<noteq> 0" "s > OWNER_LARGE" using s heap_page_addr_pos [of first] by (simp_all add: heap_page_addr_def)
  have at: "slab_at h1 t \<longleftrightarrow> slab_at h t \<or> t = s" for t
    using free [of "page_index t"] s sz by (auto simp: slab_at_def own(2) set_owner_def)
  have ns: "\<not> slab_at h s" using free [of first] s sz by (auto simp: slab_at_def)
  have apart: "obj_addrs t (slabs h t) \<inter> obj_addrs s sl = {}" if t: "slab_at h t" for t
  proof (rule equals0I)
    fix p assume p: "p \<in> obj_addrs t (slabs h t) \<inter> obj_addrs s sl"
    have "owner (hp h) (page_index p) = t"
      using obj_page [OF inv t, of p p] p slab_okD(1) [OF heap_invD(3) [OF inv t]] by simp
    moreover have "page_index p = first + (p - s) div PAGE_SIZE" "(p - s) div PAGE_SIZE < 4"
      using obj_addrs_range [OF sl(1), of p] p page_index_offset [of first "p - s"] s slab_okD(1) [OF sl(1)]
      by (auto simp: div_less_iff_less_mult)
    ultimately show False using free [of "page_index p"] slab_at_pos [OF t] by simp
  qed
  have ok: "slab_ok (links h1) t (slabs h t) \<and> free_list (links h1) (slabs h t) = free_list (links h) (slabs h t)"
    if "slab_at h t" for t
    using slab_links_ok [OF heap_invD(3) [OF inv that], of "links h1"] apart [OF that] lk by blast
  have P: "parts h1 = (parts h)(c := insert s (parts h c))"
    using ns sl(3,4) by (auto simp: parts_def fun_eq_iff at st(1))
  have "lists_for h1 (parts h)"
    using heap_invD(5) [OF inv] by (rule lists_cong) (use ns in \<open>auto simp: st parts_def\<close>)
  then have L: "lists_for (partial_push c s h1) (parts h1)"
    unfolding P using ns sz c by (intro push_lists) (auto simp: parts_def)
  have lg: "large_pages h1 = large_pages h" "large_at h1 = large_at h"
    by (simp_all add: large_pages_def large_at_def fun_eq_iff st(2))
  have lo: "larges_ok h1"
    using heap_invD(4) [OF inv] free unfolding larges_ok_def lg st(2) own(2) set_owner_def
    by (metis zero_neq_one)
  have oo: "owners_ok h1"
    unfolding owners_ok_def
  proof (intro conjI allI impI)
    fix x assume x: "owner (hp h1) x > OWNER_LARGE"
    show "slab_at h1 (owner (hp h1) x)" "page_index (owner (hp h1) x) \<le> x" "x < page_index (owner (hp h1) x) + SLAB_PAGES"
      using x heap_invD(2) [OF inv] s unfolding owners_ok_def by (auto simp: at own(2) set_owner_def split: if_splits)
  next
    fix t x assume "slab_at h1 t \<and> page_index t \<le> x \<and> x < page_index t + SLAB_PAGES"
    then show "owner (hp h1) x = t"
      using heap_invD(2) [OF inv] free [of x] s slab_at_pos unfolding owners_ok_def
      by (fastforce simp: at own(2) set_owner_def)
  qed
  show "heap_inv (partial_push c s h1)"
  proof (rule heap_invI)
    show "pages_inv (hp (partial_push c s h1))" using own(1) core by (simp add: same_core_def)
    show "owners_ok (partial_push c s h1)" "larges_ok (partial_push c s h1)" using oo lo by (simp_all add: same)
    show "lists_for (partial_push c s h1) (parts (partial_push c s h1))" using L by (simp add: same)
    show "slab_ok (links (partial_push c s h1)) t (slabs (partial_push c s h1) t)" if "slab_at (partial_push c s h1) t" for t
      using that ok [of t] sl(1) ns core by (auto simp: same at st(1) same_core_def)
    show "c_obj_size (caches (partial_push c s h1) k) = class_sizes ! k" if "k < NUM_CLASSES" for k
      using heap_invD(6) [OF inv that] core st(4) by (simp add: same_core_def)
  qed
  show "s \<in> parts (partial_push c s h1) c" using P by (simp add: same)
  have "live_obj h1 t p \<longleftrightarrow> live_obj h t p" for t p
    using ok [of t] ns sl(2) by (cases "t = s") (auto simp: live_obj_def at st(1))
  then have "slab_blocks h1 = slab_blocks h"
    using ns by (intro slab_blocks_cong) (auto simp: st(1))
  then show "blocks (partial_push c s h1) = blocks h"
    by (simp add: blocks_def same) (simp add: large_blocks_def lg st(2))
qed

lemma upd_cache_core:
  assumes "\<And>k. c_obj_size (f k) = c_obj_size k" and "\<And>k. c_partial (f k) = c_partial k"
  shows "same_core h (upd_cache c f h)" "lists_for (upd_cache c f h) P = lists_for h P"
  using assms by (auto simp: same_core_def lists_for_def)

text \<open>The invariant without the partial lists.\<close>

definition heap_inv0 :: "heap \<Rightarrow> bool" where
  "heap_inv0 h \<longleftrightarrow>
     pages_inv (hp h) \<and> owners_ok h \<and> (\<forall>s. slab_at h s \<longrightarrow> slab_ok (links h) s (slabs h s)) \<and> larges_ok h \<and>
     (\<forall>k < NUM_CLASSES. c_obj_size (caches h k) = class_sizes ! k)"

lemma heap_inv_split: "heap_inv h \<longleftrightarrow> heap_inv0 h \<and> lists_for h (parts h)"
  by (auto simp: heap_inv_def heap_inv0_def)

lemma same_core_inv:
  assumes "heap_inv0 h" and "same_core h h'" and "lists_for h' (parts h)"
  shows "heap_inv h' \<and> blocks h' = blocks h"
proof
  note same = same_core_simps [OF assms(2)]
  have e: "hp h' = hp h" "links h' = links h" "\<And>k. c_obj_size (caches h' k) = c_obj_size (caches h k)"
    using assms(2) by (simp_all add: same_core_def)
  show "heap_inv h'" using assms(1,3) unfolding heap_inv_def heap_inv0_def same e by simp
  show "blocks h' = blocks h" by (simp add: blocks_def same)
qed

lemma same_core_refl: "same_core h h" by (simp add: same_core_def)

lemma same_core_trans: "same_core h1 h2 \<Longrightarrow> same_core h2 h3 \<Longrightarrow> same_core h1 h3"
  by (simp add: same_core_def)

lemma own_pages_set: "own_pages first s (set_owner first SLAB_PAGES v f) = set_owner first SLAB_PAGES s f"
proof -
  have "fold (\<lambda>i f. f(first + i := s)) [0 ..< n] g = set_owner first n s g" for n g
    by (induction n) (auto simp: set_owner_def fun_eq_iff)
  then show ?thesis by (auto simp: own_pages_def set_owner_def fun_eq_iff)
qed

lemma slab_create_effect:
  assumes inv: "heap_inv h" and c: "c < NUM_CLASSES" and r: "slab_create c h = Some (s, h')"
  shows "heap_inv h' \<and> blocks h' = blocks h \<and> bytes h' = bytes h \<and> (s \<noteq> 0 \<longrightarrow> s \<in> parts h' c)"
proof -
  obtain q p where a: "alloc_pages_locked SLAB_PAGES (hp h) = Some (q, p)"
    using r by (auto simp: slab_create_def bind_eq_Some_conv)
  note ae = alloc_pages_effect [OF heap_invD(1) [OF inv] a]
  show ?thesis
  proof (cases q)
    case None
    then have h': "h' = h\<lparr>hp := p\<rparr>" "s = 0" using r a by (simp_all add: slab_create_def)
    have ow: "owner p = owner (hp h)" using ae None by simp
    have "slab_at h' = slab_at h" "large_at h' = large_at h" "large_pages h' = large_pages h"
      by (auto simp: h' slab_at_def ow large_at_def large_pages_def fun_eq_iff)
    then show ?thesis
      using inv ae None unfolding heap_inv_def owners_ok_def larges_ok_def lists_for_def parts_def blocks_def
        slab_blocks_def large_blocks_def live_obj_def
      by (simp add: h' ow)
  next
    case (Some first)
    define sz where "sz = c_obj_size (caches h c)"
    define tot where "tot = (SLAB_BYTES - SLAB_HDR_SIZE) div sz"
    define sl where "sl = \<lparr>s_magic = SLAB_MAGIC, s_obj_size = sz, s_free_count = tot, s_total = tot,
      s_freelist = heap_page_addr first + SLAB_HDR_SIZE, s_next = 0, s_prev = 0, s_cache = c\<rparr>"
    define h1 where "h1 = upd_cache c (\<lambda>k. k\<lparr>c_nslabs := add64 (c_nslabs k) 1\<rparr>)
      (h\<lparr>hp := p\<lparr>owner := set_owner first SLAB_PAGES (heap_page_addr first) (owner (hp h))\<rparr>,
         slabs := (slabs h)(heap_page_addr first := sl),
         links := thread_objects (heap_page_addr first + SLAB_HDR_SIZE) sz tot (links h)\<rparr>)"
    have s: "s = heap_page_addr first" and h': "h' = partial_push c s h1"
      using r a Some ae by (auto simp: slab_create_def Let_def sz_def tot_def sl_def h1_def own_pages_set)
    have "c_obj_size (caches h c) = class_sizes ! c" using heap_invD(6) [OF inv c] .
    then have ok: "slab_ok (links h1) s sl \<and> set (free_list (links h1) sl) = obj_addrs s sl \<and> 0 < s_free_count sl \<and>
        (\<forall>x. x \<notin> obj_addrs s sl \<longrightarrow> links h1 x = links h x)"
      by (intro slab_new_ok [OF c s]) (simp_all add: sl_def sz_def tot_def h1_def s)
    have fr: "\<And>x. first \<le> x \<Longrightarrow> x < first + SLAB_PAGES \<Longrightarrow> owner (hp h) x = 0" using ae Some by simp
    have pi: "pages_inv (hp h1)"
      using ae Some by (simp add: h1_def) (rule pages_inv_owner, auto simp: set_owner_def)
    have "heap_inv h' \<and> blocks h' = blocks h \<and> s \<in> parts h' c"
      unfolding h' using new_slab_state [OF inv c s fr pi, of sl] ok
      by (simp add: h1_def s sl_def)
    moreover have "bytes h' = bytes h" by (simp add: h' h1_def partial_push_def Let_def)
    ultimately show ?thesis by simp
  qed
qed

text \<open>Changing the free list of one slab.\<close>

lemma one_slab:
  assumes inv: "heap_inv h" and s: "slab_at h s"
    and h1: "hp h1 = hp h" "larges h1 = larges h" "caches h1 = caches h" "slabs h1 = (slabs h)(s := sl')"
    and lk: "\<And>x. x \<notin> obj_addrs s (slabs h s) \<Longrightarrow> links h1 x = links h x"
    and ok: "slab_ok (links h1) s sl'"
    and sl': "s_obj_size sl' = s_obj_size (slabs h s)" "s_total sl' = s_total (slabs h s)"
      "s_cache sl' = s_cache (slabs h s)" "s_next sl' = s_next (slabs h s)" "s_prev sl' = s_prev (slabs h s)"
  shows "heap_inv0 h1" and "lists_for h1 (parts h)" and "slab_at h1 t = slab_at h t"
    and "live_obj h1 t p \<longleftrightarrow> (if t = s then p \<in> obj_addrs s (slabs h s) \<and> p \<notin> set (free_list (links h1) sl')
           else live_obj h t p)"
    and "large_blocks h1 = large_blocks h" and "s_obj_size (slabs h1 t) = s_obj_size (slabs h t)"
proof -
  show at: "slab_at h1 t = slab_at h t" for t by (simp add: slab_at_def h1)
  have lg: "large_at h1 = large_at h" "large_pages h1 = large_pages h"
    by (simp_all add: large_at_def large_pages_def fun_eq_iff h1)
  have other: "slab_ok (links h1) t (slabs h t) \<and> free_list (links h1) (slabs h t) = free_list (links h) (slabs h t)"
    if "slab_at h t" "t \<noteq> s" for t
    using slab_links_ok [OF heap_invD(3) [OF inv that(1)], of "links h1"] obj_slab_unique [OF inv that(1) _ s] that(2) lk
    by blast
  show "heap_inv0 h1"
    using inv other ok unfolding heap_inv_def heap_inv0_def owners_ok_def larges_ok_def
    by (simp add: at lg h1)
  show "lists_for h1 (parts h)"
    using heap_invD(5) [OF inv] by (rule lists_cong) (simp_all add: h1 sl')
  show "live_obj h1 t p \<longleftrightarrow> (if t = s then p \<in> obj_addrs s (slabs h s) \<and> p \<notin> set (free_list (links h1) sl')
      else live_obj h t p)"
    using other [of t] s by (auto simp: live_obj_def at h1 obj_addrs_def sl')
  show "large_blocks h1 = large_blocks h" by (simp add: large_blocks_def lg h1)
  show "s_obj_size (slabs h1 t) = s_obj_size (slabs h t)" by (simp add: h1 sl')
qed

lemma slab_take_effect:
  assumes inv: "heap_inv h" and s: "s \<in> parts h c" and c: "c < NUM_CLASSES" and r: "slab_take c s h = (p, h')"
  shows "heap_inv h' \<and> p \<noteq> 0 \<and> (p, class_sizes ! c) \<notin> blocks h \<and> blocks h' = insert (p, class_sizes ! c) (blocks h) \<and>
    bytes h' = bytes h"
proof -
  have at: "slab_at h s" "s_cache (slabs h s) = c" "0 < s_free_count (slabs h s)" using s by (auto simp: parts_def)
  define sl' where "sl' = (slabs h s)\<lparr>s_freelist := links h (s_freelist (slabs h s)), s_free_count := dec32 (s_free_count (slabs h s))\<rparr>"
  define h1 where "h1 = h\<lparr>slabs := (slabs h)(s := sl')\<rparr>"
  define h2 where "h2 = (if s_free_count sl' = 0 then partial_remove c s h1 else h1)"
  have p: "p = s_freelist (slabs h s)" and h': "h' = upd_cache c (\<lambda>k. k\<lparr>c_live_objects := add64 (c_live_objects k) 1\<rparr>) h2"
    using r by (auto simp: slab_take_def Let_def h2_def h1_def sl'_def upd_slab_def)
  have ok: "slab_ok (links h) s (slabs h s)" using heap_invD(3) [OF inv at(1)] .
  note t = slab_take_ok [OF ok at(3) slab_at_pos [OF at(1)] sl'_def]
  have f1: "hp h1 = hp h" "larges h1 = larges h" "caches h1 = caches h" "slabs h1 = (slabs h)(s := sl')" and lk: "links h1 = links h"
    by (simp_all add: h1_def)
  have f2: "s_obj_size sl' = s_obj_size (slabs h s)" "s_total sl' = s_total (slabs h s)"
      "s_cache sl' = s_cache (slabs h s)" "s_next sl' = s_next (slabs h s)" "s_prev sl' = s_prev (slabs h s)"
    by (simp_all add: sl'_def)
  have ok1: "slab_ok (links h1) s sl'" using t lk by simp
  note os = one_slab [OF inv at(1) f1 fun_cong [OF lk] ok1 f2]
  note at1 = os(3) and live = os(4) and lb = os(5) and sz = os(6)
  have P: "parts h1 = (if s_free_count sl' = 0 then (parts h)(c := parts h c - {s}) else parts h)"
    using at by (auto simp: parts_def fun_eq_iff at1 f1(4) f2(3))
  have "lists_for h2 (parts h1)"
    using os(2) remove_lists [OF os(2) s c] unfolding P h2_def by simp
  moreover have "same_core h1 h2" by (simp add: h2_def remove_core same_core_refl)
  moreover have "same_core h2 h'" unfolding h' by (rule upd_cache_core(1)) simp_all
  moreover have "lists_for h' P = lists_for h2 P" for P unfolding h' by (rule upd_cache_core(2)) simp_all
  ultimately have "heap_inv h' \<and> blocks h' = blocks h1"
    using same_core_inv [OF os(1) same_core_trans] by blast
  moreover have "bytes h' = bytes h" by (simp add: h' h2_def h1_def partial_remove_def Let_def)
  moreover have "p \<noteq> 0" using t obj_addrs_range [OF ok, of p] slab_at_pos [OF at(1)] p by auto
  moreover have sc: "s_obj_size (slabs h s) = class_sizes ! c" using ok at(2) by (simp add: slab_ok_def slab_shape_def)
  have nl: "\<not> live_obj h t p" for t
    using obj_slab_unique [OF inv at(1), of p t] t by (auto simp: live_obj_def p)
  have "(p, class_sizes ! c) \<notin> blocks h"
  proof -
    have "owner (hp h) (page_index p) = s"
      using obj_page [OF inv at(1), of p p] t slab_okD(1) [OF ok] by (simp add: p)
    then show ?thesis
      using large_block_owner [OF inv, of p] nl slab_at_pos [OF at(1)] by (auto simp: blocks_def slab_blocks_def)
  qed
  moreover have "live_obj h1 u q \<longleftrightarrow> live_obj h u q \<or> u = s \<and> q = p" for u q
    using live [of u q] t at(1) by (auto simp: live_obj_def p h1_def)
  then have "slab_blocks h1 = insert (p, class_sizes ! c) (slab_blocks h)"
    by (auto simp: slab_blocks_def sz sc)
  ultimately show ?thesis by (simp add: blocks_def lb)
qed

lemma slab_alloc_effect:
  assumes inv: "heap_inv h" and c: "c < NUM_CLASSES" and r: "slab_alloc c h = Some (p, h')"
  shows "heap_inv h' \<and> bytes h' = bytes h \<and>
    (if p = 0 then blocks h' = blocks h
     else (p, class_sizes ! c) \<notin> blocks h \<and> blocks h' = insert (p, class_sizes ! c) (blocks h))"
proof (cases "c_partial (caches h c) = 0")
  case False
  obtain xs where xs: "dll (slabs h) 0 (c_partial (caches h c)) xs" "set xs = parts h c"
    using heap_invD(5) [OF inv] c unfolding lists_for_def by blast
  then have "c_partial (caches h c) \<in> parts h c" using dll_head [OF xs(1)] False by (metis list.set_intros(1))
  then show ?thesis using slab_take_effect [OF inv _ c, of _ p h'] r False by (auto simp: slab_alloc_def Let_def)
next
  case True
  then obtain s h1 where s: "slab_create c h = Some (s, h1)" "(p, h') = (if s = 0 then (0, h1) else slab_take c s h1)"
    using r by (auto simp: slab_alloc_def Let_def bind_eq_Some_conv)
  note ce = slab_create_effect [OF inv c s(1)]
  show ?thesis
  proof (cases "s = 0")
    case False
    then show ?thesis using ce slab_take_effect [of h1 s c p h'] c s(2) by auto
  qed (use ce s(2) in simp)
qed

lemma slab_destroy_effect:
  assumes inv: "heap_inv h" and s: "s \<in> parts h (s_cache (slabs h s))" and full: "\<And>p. \<not> live_obj h s p"
  shows "\<exists>h'. slab_destroy s h = Some h' \<and> heap_inv h' \<and> blocks h' = blocks h \<and> bytes h' = bytes h"
proof -
  define c where "c = s_cache (slabs h s)"
  have at: "slab_at h s" using s by (simp add: parts_def)
  have c: "c < NUM_CLASSES" using heap_invD(3) [OF inv at] by (simp add: c_def slab_ok_def slab_shape_def)
  define h1 where "h1 = partial_remove c s h"
  define h3 where "h3 = upd_slab s (\<lambda>sl. sl\<lparr>s_magic := 0\<rparr>) (upd_cache c (\<lambda>k. k\<lparr>c_nslabs := sub64 (c_nslabs k) 1\<rparr>) h1)"
  have core: "same_core h h1" unfolding h1_def by (rule remove_core)
  have h3: "hp h3 = hp h" "larges h3 = larges h" "links h3 = links h" "bytes h3 = bytes h"
    using core by (simp_all add: h3_def same_core_def)
  have own: "owner (hp h) x = s" if "page_index s \<le> x" "x < page_index s + SLAB_PAGES" for x
    using heap_invD(2) [OF inv] at that unfolding owners_ok_def by blast
  have pos: "HEAP_START \<le> s" using slab_at_pos [OF at] .
  obtain q where q: "free_pages_locked (page_index s) SLAB_PAGES (hp h3) = Some q" "pages_inv q"
    "owner q = set_owner (page_index s) SLAB_PAGES 0 (owner (hp h))"
    using free_pages_effect [of "hp h" "page_index s" SLAB_PAGES] heap_invD(1) [OF inv] own pos h3(1) by auto
  define h' where "h' = h3\<lparr>hp := q\<rparr>"
  have r: "slab_destroy s h = Some h'"
    using q(1) by (simp add: slab_destroy_def Let_def h'_def h3_def h1_def c_def)
  have at': "slab_at h' t \<longleftrightarrow> slab_at h t \<and> t \<noteq> s" for t
    using own [of "page_index t"] at slab_at_pos [of h t] by (auto simp: slab_at_def h'_def q(3) set_owner_def)
  have cr: "core (slabs h' t) = core (slabs h t)" if "t \<noteq> s" for t
    using core that by (simp add: h'_def h3_def same_core_def)
  have sl: "slab_ok l t (slabs h' t) = slab_ok l t (slabs h t)" "free_list l (slabs h' t) = free_list l (slabs h t)"
    "obj_addrs t (slabs h' t) = obj_addrs t (slabs h t)" "s_cache (slabs h' t) = s_cache (slabs h t)"
    "s_free_count (slabs h' t) = s_free_count (slabs h t)" "s_obj_size (slabs h' t) = s_obj_size (slabs h t)"
    if "t \<noteq> s" for l t
    using core_eqD [OF cr [OF that]] by (simp_all add: slab_ok_def slab_shape_def free_list_def obj_addrs_def)
  have P: "parts h' = (parts h)(c := parts h c - {s})"
  proof -
    have "t \<in> parts h' k \<longleftrightarrow> t \<in> parts h k \<and> t \<noteq> s" for t k
      by (cases "t = s") (simp_all add: parts_def at' sl)
    then show ?thesis by (auto simp: fun_eq_iff) (simp add: parts_def c_def)
  qed
  have "lists_for h1 ((parts h)(c := parts h c - {s}))"
    unfolding h1_def using heap_invD(5) [OF inv] s c by (intro remove_lists) (simp_all add: c_def)
  then have L: "lists_for h' (parts h')"
    unfolding P by (rule lists_cong) (simp_all add: h'_def h3_def)
  have lg: "large_at h' = large_at h" "large_pages h' = large_pages h"
    by (simp_all add: large_at_def large_pages_def fun_eq_iff h'_def h3)
  have ow: "owner (hp h') x = (if page_index s \<le> x \<and> x < page_index s + SLAB_PAGES then 0 else owner (hp h) x)" for x
    by (simp add: h'_def q(3) set_owner_def)
  have inv': "heap_inv h'"
  proof (rule heap_invI)
    show "pages_inv (hp h')" by (simp add: h'_def q(2))
    show "slab_ok (links h') t (slabs h' t)" if "slab_at h' t" for t
      using that heap_invD(3) [OF inv, of t] sl(1) by (simp add: at') (simp add: h'_def h3)
    show "lists_for h' (parts h')" by (rule L)
    show "c_obj_size (caches h' k) = class_sizes ! k" if "k < NUM_CLASSES" for k
      using heap_invD(6) [OF inv that] core by (auto simp: h'_def h3_def same_core_def)
    show "larges_ok h'"
      using heap_invD(4) [OF inv] own pos unfolding larges_ok_def lg ow
      by (simp add: h'_def h3) force
    show "owners_ok h'"
      unfolding owners_ok_def
    proof (intro conjI allI impI)
      fix x assume "owner (hp h') x > OWNER_LARGE"
      then show "slab_at h' (owner (hp h') x)" "page_index (owner (hp h') x) \<le> x"
        "x < page_index (owner (hp h') x) + SLAB_PAGES"
        using heap_invD(2) [OF inv] unfolding owners_ok_def by (auto simp: at' ow split: if_splits)
    next
      fix t x assume "slab_at h' t \<and> page_index t \<le> x \<and> x < page_index t + SLAB_PAGES"
      moreover from this have "owner (hp h) x = t"
        using heap_invD(2) [OF inv] unfolding owners_ok_def by (auto simp: at')
      ultimately show "owner (hp h') x = t" using own [of x] by (auto simp: at' ow)
    qed
  qed
  have "live_obj h' t p \<longleftrightarrow> live_obj h t p" for t p
    using full [of p] sl [of t] by (cases "t = s") (simp_all add: live_obj_def at', simp add: h'_def h3)
  moreover have "s_obj_size (slabs h' t) = s_obj_size (slabs h t)" for t
    using core core_eqD(2) [of "slabs h1 t" "slabs h t"] by (auto simp: h'_def h3_def same_core_def)
  ultimately have "slab_blocks h' = slab_blocks h" by (rule slab_blocks_cong)
  moreover have "large_blocks h' = large_blocks h" by (simp add: large_blocks_def lg) (simp add: h'_def h3)
  ultimately show ?thesis using r inv' by (simp add: blocks_def) (simp add: h'_def h3)
qed

lemma slab_offset:
  assumes ok: "slab_ok l s sl" and p: "p \<in> obj_addrs s sl" and s: "s + SLAB_BYTES < 2 ^ 64"
  shows "sub64 p (add64 s SLAB_HDR_SIZE) mod s_obj_size sl = 0 \<and> sub64 p (add64 s SLAB_HDR_SIZE) div s_obj_size sl < s_total sl"
proof -
  obtain i where i: "i < s_total sl" "p = s + SLAB_HDR_SIZE + i * s_obj_size sl" using p by (auto simp: obj_addrs_def)
  have "sub64 p (add64 s SLAB_HDR_SIZE) = i * s_obj_size sl"
    using obj_addrs_range [OF ok p] slab_okD(1) [OF ok] s i(2) by simp
  then show ?thesis using i(1) slab_okD(1) [OF ok] by simp
qed

lemma slab_at_below: "heap_inv h \<Longrightarrow> slab_at h s \<Longrightarrow> s + SLAB_BYTES \<le> HEAP_START + HEAP_PAGES * PAGE_SIZE"
proof -
  assume inv: "heap_inv h" and s: "slab_at h s"
  obtain f where f: "s = heap_page_addr f" using slab_at_addr [OF s] by blast
  have "owner (hp h) (f + 3) = s" using heap_invD(2) [OF inv] s f unfolding owners_ok_def by simp
  then have "free_count_at (hp h) (f + 3) = 0"
    using heap_invD(1) [OF inv] slab_at_pos [OF s] unfolding pages_inv_def by (auto dest: spec [of _ "f + 3"])
  then have "f + 3 < HEAP_PAGES"
    using heap_invD(1) [OF inv] free_above [of "hp h" "f + 3"] unfolding pages_inv_def by linarith
  then show ?thesis using f by (simp add: heap_page_addr_def)
qed

lemma slab_free_effect:
  assumes inv: "heap_inv h" and lv: "live_obj h s p"
  shows "\<exists>h'. slab_free s p h = Some h' \<and> heap_inv h' \<and> blocks h' = blocks h - {(p, s_obj_size (slabs h s))} \<and> bytes h' = bytes h"
proof -
  define sl where "sl = slabs h s"
  define c where "c = s_cache sl"
  have at: "slab_at h s" and p: "p \<in> obj_addrs s sl" "p \<notin> set (free_list (links h) sl)"
    using lv by (auto simp: live_obj_def sl_def)
  have ok: "slab_ok (links h) s sl" using heap_invD(3) [OF inv at] by (simp add: sl_def)
  have c: "c < NUM_CLASSES" using ok by (simp add: c_def slab_ok_def slab_shape_def)
  define sl' where "sl' = sl\<lparr>s_freelist := p, s_free_count := inc32 (s_free_count sl)\<rparr>"
  define h1 where "h1 = upd_slab s (\<lambda>sl. sl\<lparr>s_freelist := p, s_free_count := inc32 (s_free_count sl)\<rparr>)
    (h\<lparr>links := (links h)(p := s_freelist sl)\<rparr>)"
  define h2 where "h2 = (if s_free_count sl = 0 then partial_push c s h1 else h1)"
  define h3 where "h3 = upd_cache c (\<lambda>k. k\<lparr>c_live_objects := sub64 (c_live_objects k) 1\<rparr>) h2"
  have "s + SLAB_BYTES < 2 ^ 64" using slab_at_below [OF inv at] by simp
  from slab_offset [OF ok p(1) this]
  have "(sub64 p (add64 s SLAB_HDR_SIZE) mod s_obj_size sl \<noteq> 0 \<or> sub64 p (add64 s SLAB_HDR_SIZE) div s_obj_size sl \<ge> s_total sl) = False"
    by simp
  then have r: "slab_free s p h =
     (if s_free_count (slabs h3 s) = s_total (slabs h3 s) \<and> (s_next (slabs h3 s) \<noteq> 0 \<or> s_prev (slabs h3 s) \<noteq> 0)
      then slab_destroy s h3 else Some h3)"
    by (simp only: slab_free_def Let_def if_False h3_def h2_def h1_def sl_def c_def)
  have lk: "links h1 = (links h)(p := s_freelist sl)" by (simp add: h1_def)
  note put = slab_put_ok [OF ok p slab_at_pos [OF at] sl'_def lk]
  have f1: "hp h1 = hp h" "larges h1 = larges h" "caches h1 = caches h" "slabs h1 = (slabs h)(s := sl')"
    by (simp_all add: h1_def sl'_def sl_def)
  have f2: "s_obj_size sl' = s_obj_size (slabs h s)" "s_total sl' = s_total (slabs h s)"
      "s_cache sl' = s_cache (slabs h s)" "s_next sl' = s_next (slabs h s)" "s_prev sl' = s_prev (slabs h s)"
    by (simp_all add: sl'_def sl_def)
  have lo: "links h1 x = links h x" if "x \<notin> obj_addrs s (slabs h s)" for x using that p(1) by (auto simp: lk sl_def)
  note os = one_slab [OF inv at f1 lo conjunct1 [OF put] f2]
  have P: "parts h1 = (parts h)(c := insert s (parts h c))"
    using at put by (auto simp: parts_def fun_eq_iff os(3) f1(4) f2(3) c_def sl_def)
  have ns: "s \<notin> parts h k" if "s_free_count sl = 0" for k using that by (simp add: parts_def sl_def)
  have "lists_for h2 (parts h1)"
  proof (cases "s_free_count sl = 0")
    case True
    then show ?thesis unfolding h2_def P using push_lists [OF os(2) ns [OF True] _ c] slab_at_pos [OF at] by simp
  next
    case False
    then have "parts h1 = parts h" using at by (auto simp: P parts_def fun_eq_iff sl_def c_def)
    then show ?thesis using os(2) False by (simp add: h2_def)
  qed
  moreover have "same_core h1 h2" by (simp add: h2_def push_core same_core_refl)
  moreover have "same_core h2 h3" unfolding h3_def by (rule upd_cache_core(1)) simp_all
  moreover have "lists_for h3 Q = lists_for h2 Q" for Q unfolding h3_def by (rule upd_cache_core(2)) simp_all
  ultimately have core: "same_core h1 h3" and inv3: "heap_inv h3 \<and> blocks h3 = blocks h1"
    using same_core_inv [OF os(1) same_core_trans] same_core_trans by blast+
  have by3: "bytes h3 = bytes h" using core by (simp add: same_core_def h1_def)
  have lv1: "live_obj h1 t q \<longleftrightarrow> live_obj h t q \<and> \<not> (t = s \<and> q = p)" for t q
    using os(4) [of t q] put at by (auto simp: live_obj_def sl_def)
  have "(q, n) \<in> blocks h1 \<longleftrightarrow> (q, n) \<in> blocks h \<and> (q, n) \<noteq> (p, s_obj_size sl)" for q n
  proof -
    have own: "owner (hp h) (page_index p) = s" using live_obj_owner [OF inv lv] .
    then have "(p, n) \<notin> large_blocks h" using large_block_owner [OF inv, of p n] slab_at_pos [OF at] by auto
    moreover have "t = s" if "live_obj h t p" for t using live_obj_owner [OF inv that] own by simp
    ultimately show ?thesis by (auto simp: blocks_def os(5) slab_blocks_def lv1 os(6) sl_def)
  qed
  then have b: "blocks h3 = blocks h - {(p, s_obj_size sl)}" using inv3 by auto
  show ?thesis
  proof (cases "s_free_count (slabs h3 s) = s_total (slabs h3 s) \<and> (s_next (slabs h3 s) \<noteq> 0 \<or> s_prev (slabs h3 s) \<noteq> 0)")
    case True
    have at3: "slab_at h3 s" using at os(3) same_core_simps(1) [OF core] by simp
    have ok3: "slab_ok (links h3) s (slabs h3 s)" using heap_invD(3) inv3 at3 by blast
    have "set (free_list (links h3) (slabs h3 s)) = obj_addrs s (slabs h3 s)"
      using ok3 True card_obj_addrs [OF ok3]
      by (intro card_subset_eq) (auto simp: slab_ok_def distinct_card obj_addrs_def)
    then have "\<exists>h'. slab_destroy s h3 = Some h' \<and> heap_inv h' \<and> blocks h' = blocks h3 \<and> bytes h' = bytes h3"
      using inv3 at3 True slab_okD(6) [OF ok3] by (intro slab_destroy_effect) (auto simp: live_obj_def parts_def)
    then show ?thesis using r True b by3 by (auto simp: sl_def)
  next
    case False
    then have "slab_free s p h = Some h3" using r by (simp only: if_False)
    then show ?thesis using inv3 b by3 by (simp add: sl_def)
  qed
qed

subsection \<open>Large blocks in the heap\<close>

text \<open>Pages that no slab owns may change hands without touching the slabs.\<close>

lemma owner_change:
  assumes inv: "heap_inv h" and rng: "\<And>x. p \<le> x \<Longrightarrow> x < p + n \<Longrightarrow> owner (hp h) x \<le> OWNER_LARGE" and v: "v \<le> OWNER_LARGE"
    and h': "owner (hp h') = set_owner p n v (owner (hp h))" "pages_inv (hp h')" "links h' = links h" "slabs h' = slabs h"
      "caches h' = caches h"
    and lg: "larges_ok h'"
  shows "heap_inv h' \<and> slab_blocks h' = slab_blocks h"
proof -
  have at: "slab_at h' t \<longleftrightarrow> slab_at h t" for t
  proof (cases "p \<le> page_index t \<and> page_index t < p + n")
    case True
    have "heap_page_addr (page_index t) \<noteq> t" if "t \<le> OWNER_LARGE"
      using that heap_page_addr_pos(1) [of "page_index t"] by (simp del: heap_page_addr_pos)
    then show ?thesis using True rng [of "page_index t"] v unfolding slab_at_def h'(1) set_owner_def by auto
  qed (auto simp: slab_at_def h'(1) set_owner_def)
  have P: "parts h' = parts h" by (simp add: parts_def fun_eq_iff at h')
  have "owners_ok h'"
    unfolding owners_ok_def
  proof (intro conjI allI impI)
    fix x assume "owner (hp h') x > OWNER_LARGE"
    then show "slab_at h' (owner (hp h') x)" "page_index (owner (hp h') x) \<le> x"
      "x < page_index (owner (hp h') x) + SLAB_PAGES"
      using heap_invD(2) [OF inv] v unfolding owners_ok_def by (auto simp: at h'(1) set_owner_def split: if_splits)
  next
    fix t x assume t: "slab_at h' t \<and> page_index t \<le> x \<and> x < page_index t + SLAB_PAGES"
    then have "owner (hp h) x = t" using heap_invD(2) [OF inv] unfolding owners_ok_def by (auto simp: at)
    moreover have "HEAP_START \<le> t" using t slab_at_pos at by blast
    ultimately show "owner (hp h') x = t" using rng [of x] by (auto simp: h'(1) set_owner_def)
  qed
  then have "heap_inv h'"
    using inv h' lg unfolding heap_inv_def P by (simp add: at lists_for_def)
  moreover have "slab_blocks h' = slab_blocks h" by (simp add: slab_blocks_def live_obj_def at h')
  ultimately show ?thesis ..
qed

lemma large_alloc_effect:
  assumes inv: "heap_inv h" and r: "large_alloc sz h = Some (p, h')" and sz: "sz + LARGE_HDR_SIZE + PAGE_SIZE < 2 ^ 64"
  shows "heap_inv h' \<and> bytes h' = bytes h \<and>
    (if p = 0 then blocks h' = blocks h
     else \<exists>n \<ge> sz. (p, n) \<notin> blocks h \<and> blocks h' = insert (p, n) (blocks h))"
proof -
  define n where "n = PAGE_ALIGN_UP (add64 sz LARGE_HDR_SIZE) div PAGE_SIZE"
  obtain q m where a: "alloc_pages_locked n (hp h) = Some (q, m)"
    using r by (auto simp: large_alloc_def n_def Let_def bind_eq_Some_conv)
  note ae = alloc_pages_effect [OF heap_invD(1) [OF inv] a]
  show ?thesis
  proof (cases q)
    case None
    then have h': "h' = h\<lparr>hp := m\<rparr>" "p = 0" using r a by (simp_all add: large_alloc_def n_def Let_def)
    have ow: "owner m = set_owner 0 0 0 (owner (hp h))" using ae None by simp
    have lg: "large_at h' = large_at h" "large_pages h' = large_pages h"
      by (auto simp: h' large_at_def large_pages_def fun_eq_iff)
    have "larges_ok h'" using heap_invD(4) [OF inv] unfolding larges_ok_def lg by (simp add: h' ow)
    then have "heap_inv h' \<and> slab_blocks h' = slab_blocks h"
      using ae None by (intro owner_change [OF inv, of 0 0 0]) (simp_all add: h')
    moreover have "large_blocks h' = large_blocks h" unfolding large_blocks_def lg by (simp add: h')
    ultimately show ?thesis using h' by (simp add: blocks_def)
  next
    case (Some first)
    define b where "b = heap_page_addr first"
    have h': "h' = h\<lparr>hp := m, larges := (larges h)(b := \<lparr>l_magic = LARGE_MAGIC, l_pages = n, l_size = sz\<rparr>),
        large_allocs := add64 (large_allocs h) 1\<rparr>" and p: "p = b + LARGE_HDR_SIZE"
      using r a Some by (auto simp: large_alloc_def n_def b_def Let_def)
    have hf: "hp h' = m" "larges h' = (larges h)(b := \<lparr>l_magic = LARGE_MAGIC, l_pages = n, l_size = sz\<rparr>)" by (simp_all add: h')
    have e: "0 < n" "\<And>x. first \<le> x \<Longrightarrow> x < first + n \<Longrightarrow> owner (hp h) x = 0" "pages_inv m"
      "owner m = set_owner first n OWNER_LARGE (owner (hp h))" using ae Some by auto
    have new: "\<not> large_at h b"
      using heap_invD(4) [OF inv] e(1,2) unfolding larges_ok_def large_pages_def by (fastforce simp: b_def)
    have at: "large_at h' a \<longleftrightarrow> large_at h a \<or> a = b" for a by (simp add: large_at_def h')
    have pg: "large_pages h' a = (if a = b then {first ..< first + n} else large_pages h a)" for a
      by (simp add: large_pages_def h' b_def)
    have disj: "large_pages h a \<inter> large_pages h a' = {}" if "large_at h a" "large_at h a'" "a \<noteq> a'" for a a'
      using heap_invD(4) [OF inv] that by (simp add: larges_ok_def)
    have ap: "large_pages h a \<inter> {first ..< first + n} = {}" if "large_at h a" for a
      using heap_invD(4) [OF inv] that e(2) unfolding larges_ok_def by fastforce
    have "larges_ok h'"
      unfolding larges_ok_def
    proof (intro conjI allI impI ballI)
      fix a assume a: "large_at h' a"
      show "heap_page_addr (page_index a) = a" "0 < l_pages (larges h' a)"
        using a e(1) heap_invD(4) [OF inv] by (auto simp: at hf larges_ok_def b_def)
      fix x assume "x \<in> large_pages h' a"
      then show "owner (hp h') x = OWNER_LARGE"
        using a heap_invD(4) [OF inv] by (auto simp: at pg hf e(4) set_owner_def larges_ok_def split: if_splits)
    next
      fix a a' assume "large_at h' a \<and> large_at h' a' \<and> a \<noteq> a'"
      then show "large_pages h' a \<inter> large_pages h' a' = {}"
        using disj [of a a'] ap [of a] ap [of a'] by (cases "a = b"; cases "a' = b") (simp_all add: at pg Int_commute)
    qed
    then have k: "heap_inv h' \<and> slab_blocks h' = slab_blocks h"
      using e by (intro owner_change [OF inv, of first n OWNER_LARGE]) (simp_all add: h')
    have "n * PAGE_SIZE = PAGE_ALIGN_UP (sz + LARGE_HDR_SIZE)"
      using sz div_mult_mod_eq [of "PAGE_ALIGN_UP (sz + LARGE_HDR_SIZE)" PAGE_SIZE] by (simp add: n_def)
    then have ge: "sz \<le> n * PAGE_SIZE - LARGE_HDR_SIZE"
      using PAGE_ALIGN_UP_ge [of "sz + LARGE_HDR_SIZE"] sz by simp
    have lb: "large_blocks h' = insert (p, n * PAGE_SIZE - LARGE_HDR_SIZE) (large_blocks h)"
      using new by (auto simp: large_blocks_def at hf p)
    have "page_index p = first" using page_index_offset [of first LARGE_HDR_SIZE] by (simp add: p b_def)
    then have "(p, n * PAGE_SIZE - LARGE_HDR_SIZE) \<notin> blocks h"
      using block_owner [OF inv, of p] e(1) e(2) [of first] by auto
    then show ?thesis using k lb ge h' p by (auto simp: blocks_def)
  qed
qed

lemma large_free_effect:
  assumes inv: "heap_inv h" and a: "large_at h a" and l: "l = larges h a"
    and h1: "hp h1 = hp h" "links h1 = links h" "slabs h1 = slabs h" "caches h1 = caches h"
      "larges h1 = (larges h)(a := l\<lparr>l_magic := 0\<rparr>)"
  shows "\<exists>q. free_pages_locked (page_index a) (l_pages l) (hp h1) = Some q \<and> heap_inv (h1\<lparr>hp := q\<rparr>) \<and>
    blocks (h1\<lparr>hp := q\<rparr>) = blocks h - {(a + LARGE_HDR_SIZE, l_pages l * PAGE_SIZE - LARGE_HDR_SIZE)}"
proof -
  have la: "heap_page_addr (page_index a) = a" "0 < l_pages l" "\<forall>x \<in> large_pages h a. owner (hp h) x = OWNER_LARGE"
    using heap_invD(4) [OF inv] a by (auto simp: larges_ok_def l)
  have rng: "owner (hp h) x = OWNER_LARGE" if "page_index a \<le> x" "x < page_index a + l_pages l" for x
    using la(3) that by (simp add: large_pages_def l)
  obtain q where q: "free_pages_locked (page_index a) (l_pages l) (hp h1) = Some q" "pages_inv q"
    "owner q = set_owner (page_index a) (l_pages l) 0 (owner (hp h))"
    using free_pages_effect [of "hp h" "page_index a" "l_pages l"] heap_invD(1) [OF inv] rng h1(1) by auto
  define h' where "h' = h1\<lparr>hp := q\<rparr>"
  have hf: "hp h' = q" "larges h' = (larges h)(a := l\<lparr>l_magic := 0\<rparr>)" by (simp_all add: h'_def h1)
  have at: "large_at h' b \<longleftrightarrow> large_at h b \<and> b \<noteq> a" for b by (simp add: large_at_def hf)
  have pg: "large_pages h' b = large_pages h b" for b by (simp add: large_pages_def hf l)
  have disj: "large_pages h b \<inter> large_pages h b' = {}" if "large_at h b" "large_at h b'" "b \<noteq> b'" for b b'
    using heap_invD(4) [OF inv] that by (simp add: larges_ok_def)
  have "larges_ok h'"
    unfolding larges_ok_def
  proof (intro conjI allI impI ballI)
    fix b assume b: "large_at h' b"
    show "heap_page_addr (page_index b) = b" "0 < l_pages (larges h' b)"
      using b heap_invD(4) [OF inv] by (auto simp: at hf larges_ok_def)
    fix x assume x: "x \<in> large_pages h' b"
    then have "x \<notin> large_pages h a" using disj [of b a] b a by (auto simp: at pg)
    then show "owner (hp h') x = OWNER_LARGE"
      using x b heap_invD(4) [OF inv] by (auto simp: at pg hf q(3) set_owner_def larges_ok_def large_pages_def l)
  next
    fix b b' assume "large_at h' b \<and> large_at h' b' \<and> b \<noteq> b'"
    then show "large_pages h' b \<inter> large_pages h' b' = {}" using disj [of b b'] by (simp add: at pg)
  qed
  then have k: "heap_inv h' \<and> slab_blocks h' = slab_blocks h"
    using q rng by (intro owner_change [OF inv, of "page_index a" "l_pages l" 0]) (simp_all add: h'_def h1)
  have lb: "large_blocks h' = large_blocks h - {(a + LARGE_HDR_SIZE, l_pages l * PAGE_SIZE - LARGE_HDR_SIZE)}"
    by (auto simp: large_blocks_def at hf l)
  have "owner (hp h) (page_index (a + LARGE_HDR_SIZE)) = OWNER_LARGE"
    using large_page(1) [OF inv a, of "a + LARGE_HDR_SIZE"] la(2) l by simp
  then have "(a + LARGE_HDR_SIZE, n) \<notin> slab_blocks h" for n
    using live_obj_owner [OF inv] slab_at_pos by (fastforce simp: slab_blocks_def live_obj_def)
  then have "blocks h' = blocks h - {(a + LARGE_HDR_SIZE, l_pages l * PAGE_SIZE - LARGE_HDR_SIZE)}"
    using k lb by (auto simp: blocks_def)
  then show ?thesis using q(1) k by (auto simp: h'_def)
qed

subsection \<open>The public interface keeps the blocks apart\<close>

lemma cache_for_class: "cache_for sz = Some c \<Longrightarrow> c < NUM_CLASSES \<and> sz \<le> class_sizes ! c"
  by (auto simp: cache_for_def find_Some_iff)

lemma cache_for_some: "sz \<le> MAX_SMALL \<Longrightarrow> \<exists>c. cache_for sz = Some c"
proof (cases "cache_for sz")
  case None
  moreover assume "sz \<le> MAX_SMALL"
  then have "sz \<le> class_sizes ! 7" by (simp add: class_sizes_def)
  moreover have "7 \<in> set [0 ..< NUM_CLASSES]" by (simp only: set_upt) simp
  ultimately show ?thesis unfolding cache_for_def find_None_iff by blast
qed simp

lemma stats_only:
  "heap_inv (h\<lparr>bytes_requested := n\<rparr>) = heap_inv h" "blocks (h\<lparr>bytes_requested := n\<rparr>) = blocks h"
  "live_obj (h\<lparr>bytes_requested := n\<rparr>) s p = live_obj h s p"
  "heap_inv (h\<lparr>bytes := m\<rparr>) = heap_inv h" "blocks (h\<lparr>bytes := m\<rparr>) = blocks h"
proof -
  have c: "same_core h (h\<lparr>bytes_requested := n\<rparr>)" by (simp add: same_core_def)
  show "heap_inv (h\<lparr>bytes_requested := n\<rparr>) = heap_inv h"
    unfolding heap_inv_def same_core_simps [OF c] by (simp add: lists_for_def)
  show "blocks (h\<lparr>bytes_requested := n\<rparr>) = blocks h" by (simp add: blocks_def same_core_simps [OF c])
  show "live_obj (h\<lparr>bytes_requested := n\<rparr>) s p = live_obj h s p" by (simp add: live_obj_def slab_at_def)
  have at: "slab_at (h\<lparr>bytes := m\<rparr>) = slab_at h" "large_at (h\<lparr>bytes := m\<rparr>) = large_at h"
    "large_pages (h\<lparr>bytes := m\<rparr>) = large_pages h" "parts (h\<lparr>bytes := m\<rparr>) = parts h"
    by (simp_all add: fun_eq_iff slab_at_def large_at_def large_pages_def parts_def)
  show "heap_inv (h\<lparr>bytes := m\<rparr>) = heap_inv h"
    unfolding heap_inv_def owners_ok_def larges_ok_def at by (simp add: lists_for_def)
  show "blocks (h\<lparr>bytes := m\<rparr>) = blocks h"
    unfolding blocks_def slab_blocks_def large_blocks_def live_obj_def at by simp
qed

lemma kmalloc_locked_effect:
  assumes inv: "heap_inv h" and r: "kmalloc_locked sz h = Some (p, h')" and sz: "sz + LARGE_HDR_SIZE + PAGE_SIZE < 2 ^ 64"
  shows "heap_inv h' \<and> bytes h' = bytes h \<and>
    (if p = 0 then blocks h' = blocks h
     else \<exists>n \<ge> sz. (p, n) \<notin> blocks h \<and> blocks h' = insert (p, n) (blocks h))"
proof (cases "sz > MAX_SMALL")
  case True
  then obtain h1 where l: "large_alloc sz h = Some (p, h1)"
    "h' = (if p \<noteq> 0 then h1\<lparr>bytes_requested := add64 (bytes_requested h1) sz\<rparr> else h1)"
    using r by (auto simp: kmalloc_locked_def bind_eq_Some_conv)
  from large_alloc_effect [OF inv l(1) sz] l(2) show ?thesis by (simp add: stats_only split: if_splits)
next
  case False
  then obtain c where c: "cache_for sz = Some c" "c < NUM_CLASSES" "sz \<le> class_sizes ! c"
    using cache_for_some [of sz] cache_for_class by (auto simp: not_less)
  then obtain h1 where l: "slab_alloc c h = Some (p, h1)"
    "h' = (if p \<noteq> 0 then h1\<lparr>bytes_requested := add64 (bytes_requested h1) (c_obj_size (caches h1 c))\<rparr> else h1)"
    using r False by (auto simp: kmalloc_locked_def bind_eq_Some_conv)
  from slab_alloc_effect [OF inv c(2) l(1)] l(2) c(3) show ?thesis by (auto simp: stats_only split: if_splits)
qed

text \<open>Where the blocks are.\<close>

lemma large_block_below:
  assumes inv: "heap_inv h" and a: "large_at h a"
  shows "a + l_pages (larges h a) * PAGE_SIZE \<le> HEAP_START + HEAP_PAGES * PAGE_SIZE"
proof -
  have la: "heap_page_addr (page_index a) = a" "0 < l_pages (larges h a)" "\<forall>x \<in> large_pages h a. owner (hp h) x = OWNER_LARGE"
    using heap_invD(4) [OF inv] a by (auto simp: larges_ok_def)
  let ?x = "page_index a + l_pages (larges h a) - 1"
  have "owner (hp h) ?x = OWNER_LARGE" using la by (auto simp: large_pages_def)
  then have "free_count_at (hp h) ?x = 0"
    using heap_invD(1) [OF inv] unfolding pages_inv_def by (auto dest: spec [of _ ?x])
  then have "?x < HEAP_PAGES"
    using heap_invD(1) [OF inv] free_above [of "hp h" ?x] unfolding pages_inv_def by linarith
  then have "page_index a + l_pages (larges h a) \<le> HEAP_PAGES" using la(2) by simp
  then have "heap_page_addr (page_index a) + l_pages (larges h a) * PAGE_SIZE \<le> HEAP_START + HEAP_PAGES * PAGE_SIZE"
    unfolding heap_page_addr_def by simp
  then show ?thesis using la(1) by simp
qed

lemma blocks_geometry:
  assumes inv: "heap_inv h" and b: "(p, n) \<in> blocks h"
  shows "p mod 16 = 0 \<and> HEAP_START \<le> p \<and> p + n \<le> HEAP_START + HEAP_PAGES * PAGE_SIZE \<and> 0 < n"
proof -
  consider (slab) s where "live_obj h s p" "n = s_obj_size (slabs h s)"
    | (large) a where "large_at h a" "p = a + LARGE_HDR_SIZE" "n = l_pages (larges h a) * PAGE_SIZE - LARGE_HDR_SIZE"
    using b by (auto simp: blocks_def slab_blocks_def large_blocks_def)
  then show ?thesis
  proof cases
    case slab
    then have at: "slab_at h s" and p: "p \<in> obj_addrs s (slabs h s)" by (simp_all add: live_obj_def)
    note ok = heap_invD(3) [OF inv at]
    obtain i f where i: "p = s + SLAB_HDR_SIZE + i * s_obj_size (slabs h s)" "s = heap_page_addr f"
      using p slab_at_addr [OF at] by (auto simp: obj_addrs_def)
    obtain k where k: "s_obj_size (slabs h s) = 16 * k" using slab_okD(3) [OF ok] by (metis mult_div_mod_eq add.right_neutral)
    have "p = heap_page_addr f + SLAB_HDR_SIZE + i * (16 * k)" using i k by metis
    then have "p = 16 * (0xFFFFC00000000000 div 16 + f * 256 + 4 + i * k)" unfolding heap_page_addr_def by simp
    then have "p mod 16 = 0" by (metis mod_mult_self1_is_0)
    then show ?thesis
      using obj_addrs_range [OF ok p] slab_at_below [OF inv at] slab_at_pos [OF at] slab_okD(1) [OF ok] slab(2) by simp
  next
    case large
    have la: "heap_page_addr (page_index a) = a" "0 < l_pages (larges h a)"
      using heap_invD(4) [OF inv] large(1) by (auto simp: larges_ok_def)
    then have "a = 16 * (0xFFFFC00000000000 div 16 + page_index a * 256)" by (simp add: heap_page_addr_def)
    then have "p = 16 * (0xFFFFC00000000000 div 16 + page_index a * 256 + 2)" using large(2) by simp
    moreover from this have "HEAP_START \<le> p" by simp
    ultimately have "p mod 16 = 0 \<and> HEAP_START \<le> p" by (metis mod_mult_self1_is_0)
    then show ?thesis using large_block_below [OF inv large(1)] large la(2) by simp
  qed
qed

lemma obj_spacing:
  assumes "p \<in> obj_addrs s sl" "q \<in> obj_addrs s sl" "p \<noteq> q" "p \<le> x" "x < p + s_obj_size sl" "q \<le> x" "x < q + s_obj_size sl"
  shows False
proof -
  obtain i j where ij: "p = s + SLAB_HDR_SIZE + i * s_obj_size sl" "q = s + SLAB_HDR_SIZE + j * s_obj_size sl"
    using assms(1,2) by (auto simp: obj_addrs_def)
  have "i < Suc j \<and> j < Suc i"
    using assms(4-7) ij mult_le_mono1 [of "Suc j" i "s_obj_size sl"] mult_le_mono1 [of "Suc i" j "s_obj_size sl"]
    by (auto simp: not_less [symmetric] simp del: not_less)
  then show False using ij assms(3) by (simp add: less_Suc_eq)
qed

lemma blocks_disjoint:
  assumes inv: "heap_inv h" and b: "(p, n) \<in> blocks h" "(q, m) \<in> blocks h" "(p, n) \<noteq> (q, m)"
  shows "{p ..< p + n} \<inter> {q ..< q + m} = {}"
proof (rule equals0I)
  fix x assume "x \<in> {p ..< p + n} \<inter> {q ..< q + m}"
  then have x: "p \<le> x" "x < p + n" "q \<le> x" "x < q + m" by auto
  have own: "(\<exists>s. live_obj h s p \<and> n = s_obj_size (slabs h s) \<and> owner (hp h) (page_index x) = s) \<or>
      (\<exists>a. large_at h a \<and> p = a + LARGE_HDR_SIZE \<and> n = l_pages (larges h a) * PAGE_SIZE - LARGE_HDR_SIZE \<and>
        owner (hp h) (page_index x) = OWNER_LARGE \<and> page_index x \<in> large_pages h a)"
    if "(p, n) \<in> blocks h" "p \<le> x" "x < p + n" for p n
    using that obj_page [OF inv _ _ that(2)] large_page [OF inv, of _ x]
    by (auto simp: blocks_def slab_blocks_def large_blocks_def live_obj_def)
  have big: "HEAP_START \<le> s" if "live_obj h s p" for s p using slab_at_pos [of h s] that by (simp add: live_obj_def)
  show False
    using own [OF b(1) x(1,2)] own [OF b(2) x(3,4)]
  proof (elim disjE exE conjE)
    fix s t assume l: "live_obj h s p" "n = s_obj_size (slabs h s)" "owner (hp h) (page_index x) = s"
      "live_obj h t q" "m = s_obj_size (slabs h t)" "owner (hp h) (page_index x) = t"
    then show False using obj_spacing [of p s "slabs h s" q x] x b(3) by (auto simp: live_obj_def)
  next
    fix a c assume l: "large_at h a" "p = a + LARGE_HDR_SIZE" "n = l_pages (larges h a) * PAGE_SIZE - LARGE_HDR_SIZE"
      "page_index x \<in> large_pages h a" "large_at h c" "q = c + LARGE_HDR_SIZE"
      "m = l_pages (larges h c) * PAGE_SIZE - LARGE_HDR_SIZE" "page_index x \<in> large_pages h c"
    then have "a \<noteq> c" using b(3) by auto
    then show False using heap_invD(4) [OF inv] l unfolding larges_ok_def by blast
  qed (use big in fastforce)+
qed

lemma kfree_locked_effect:
  assumes inv: "heap_inv h" and b: "(p, n) \<in> blocks h"
  shows "\<exists>h'. kfree_locked p h = Some h' \<and> heap_inv h' \<and> blocks h' = blocks h - {(p, n)} \<and> bytes h' = bytes h"
proof -
  note geo = blocks_geometry [OF inv b]
  consider (slab) s where "live_obj h s p" "n = s_obj_size (slabs h s)"
    | (large) a where "large_at h a" "p = a + LARGE_HDR_SIZE" "n = l_pages (larges h a) * PAGE_SIZE - LARGE_HDR_SIZE"
    using b by (auto simp: blocks_def slab_blocks_def large_blocks_def)
  then show ?thesis
  proof cases
    case slab
    define h1 where "h1 = h\<lparr>bytes_requested := sub64 (bytes_requested h) (s_obj_size (slabs h s))\<rparr>"
    have at: "slab_at h s" using slab by (simp add: live_obj_def)
    have "s_magic (slabs h s) = SLAB_MAGIC" using heap_invD(3) [OF inv at] by (simp add: slab_ok_def slab_shape_def)
    then have "kfree_locked p h = slab_free s p h1"
      using live_obj_owner [OF inv slab(1)] geo slab_at_pos [OF at] by (simp add: kfree_locked_def Let_def h1_def)
    moreover have "heap_inv h1" "live_obj h1 s p" "blocks h1 = blocks h" using inv slab by (simp_all add: h1_def stats_only)
    ultimately show ?thesis using slab_free_effect [of h1 s p] slab(2) by (simp add: h1_def)
  next
    case large
    define h1 where "h1 = h\<lparr>bytes_requested := sub64 (bytes_requested h) (l_size (larges h a)),
      large_allocs := sub64 (large_allocs h) 1, larges := (larges h)(a := (larges h a)\<lparr>l_magic := 0\<rparr>)\<rparr>"
    have ow: "owner (hp h) (page_index p) = OWNER_LARGE"
      using large_block_owner [OF inv, of p n] large by (auto simp: large_blocks_def)
    have "a = heap_page_addr (page_index a)" using heap_invD(4) [OF inv] large(1) by (simp add: larges_ok_def)
    then have "a = PAGE_SIZE * (HEAP_START div PAGE_SIZE + page_index a)" by (simp add: heap_page_addr_def)
    then have al: "a mod PAGE_SIZE = 0" by (metis mod_mult_self1_is_0)
    obtain q where q: "free_pages_locked (page_index a) (l_pages (larges h a)) (hp h1) = Some q" "heap_inv (h1\<lparr>hp := q\<rparr>)"
      "blocks (h1\<lparr>hp := q\<rparr>) = blocks h - {(a + LARGE_HDR_SIZE, l_pages (larges h a) * PAGE_SIZE - LARGE_HDR_SIZE)}"
      using large_free_effect [OF inv large(1) refl, of h1] by (auto simp: h1_def)
    have "kfree_locked p h = Some (h1\<lparr>hp := q\<rparr>)"
      using ow geo al large(1,2) q(1) by (simp add: kfree_locked_def Let_def h1_def large_at_def)
    then show ?thesis using q(2,3) large(2,3) by (simp add: h1_def)
  qed
qed

lemma usable_size_block:
  assumes inv: "heap_inv h" and b: "(p, n) \<in> blocks h"
  shows "fst (usable_size p h) = n"
proof -
  note geo = blocks_geometry [OF inv b]
  consider (slab) s where "live_obj h s p" "n = s_obj_size (slabs h s)"
    | (large) a where "large_at h a" "p = a + LARGE_HDR_SIZE" "n = l_pages (larges h a) * PAGE_SIZE - LARGE_HDR_SIZE"
    using b by (auto simp: blocks_def slab_blocks_def large_blocks_def)
  then show ?thesis
  proof cases
    case slab
    then show ?thesis using live_obj_owner [OF inv slab(1)] slab_at_pos [of h s]
      by (simp add: usable_size_def Let_def live_obj_def)
  next
    case large
    have "owner (hp h) (page_index p) = OWNER_LARGE"
      using large_block_owner [OF inv, of p n] large by (auto simp: large_blocks_def)
    moreover have "l_pages (larges h a) * PAGE_SIZE < 2 ^ 64" "LARGE_HDR_SIZE < l_pages (larges h a) * PAGE_SIZE"
      using large_block_below [OF inv large(1)] geo large(3) by simp_all
    ultimately show ?thesis using large(2,3) by (simp add: usable_size_def Let_def)
  qed
qed

lemma krealloc_effect:
  assumes inv: "heap_inv h" and b: "(p, n) \<in> blocks h" and sz: "0 < sz" "sz + LARGE_HDR_SIZE + PAGE_SIZE < 2 ^ 64"
    and r: "krealloc p sz h = Some (q, h')"
  shows "heap_inv h' \<and>
    (if q = 0 then blocks h' = blocks h \<and> bytes h' = bytes h
     else (\<exists>m \<ge> sz. blocks h' = insert (q, m) (blocks h - {(p, n)})) \<and>
       (\<forall>i < min (snd (usable_size p h)) sz. bytes h' (q + i) = bytes h (p + i)) \<and>
       (\<forall>x. x < q \<or> q + sz \<le> x \<longrightarrow> bytes h' x = bytes h x))"
proof -
  obtain rq where u: "usable_size p h = (n, rq)" using usable_size_block [OF inv b] by (metis prod.collapse)
  have p: "p \<noteq> 0" using blocks_geometry [OF inv b] by simp
  show ?thesis
  proof (cases "sz \<le> n \<and> (sz > MAX_SMALL) = (n > MAX_SMALL)")
    case True
    then have "q = p" "h' = h" using r p sz u by (simp_all add: krealloc_def)
    then show ?thesis using inv p b True by (auto simp: insert_absorb)
  next
    case False
    define cp where "cp = (\<lambda>h1 :: heap. h1\<lparr>bytes := copy_bytes q p (min rq sz) (bytes h1)\<rparr>)"
    obtain h1 where m: "kmalloc_locked sz h = Some (q, h1)"
      and k: "if q = 0 then h' = h1 else kfree_locked p (cp h1) = Some h'"
      using r p sz u False by (auto simp: krealloc_def bind_eq_Some_conv cp_def split: if_splits)
    note me = kmalloc_locked_effect [OF inv m sz(2)]
    show ?thesis
    proof (cases "q = 0")
      case False
      then obtain m where mm: "sz \<le> m" "(q, m) \<notin> blocks h" "blocks h1 = insert (q, m) (blocks h)" using me by auto
      have i1: "heap_inv (cp h1)" "blocks (cp h1) = blocks h1" using me by (simp_all add: cp_def stats_only)
      from kfree_locked_effect [OF i1(1), of p n] b i1(2) mm(3) k False
      have f: "heap_inv h'" "blocks h' = insert (q, m) (blocks h) - {(p, n)}" "bytes h' = bytes (cp h1)" by auto
      have "(q, m) \<noteq> (p, n)" using mm(2) b by auto
      then have "blocks h' = insert (q, m) (blocks h - {(p, n)})" using f(2) by auto
      then have "\<exists>m \<ge> sz. blocks h' = insert (q, m) (blocks h - {(p, n)})" using mm(1) by blast
      moreover have "bytes h' = copy_bytes q p (min rq sz) (bytes h)" using f(3) me by (simp add: cp_def)
      ultimately show ?thesis using False f(1) u by (auto simp: copy_bytes_def)
    qed (use me k in auto)
  qed
qed

subsection \<open>A small heap\<close>

text \<open>
  A heap as \<^verbatim>\<open>heap_init\<close> leaves it, and the same heap with one slab of the largest class in its first
  pages.
\<close>

definition empty_pages :: hpages where
  "empty_pages = \<lparr>hvm = sample_vm, bump_page = 0, free_runs = [], owner = (\<lambda>_. 0), pages_mapped = 0, lost = []\<rparr>"

definition empty_heap :: heap where
  "empty_heap = \<lparr>hp = empty_pages,
     caches = (\<lambda>i. \<lparr>c_obj_size = 0, c_partial = 0, c_nslabs = 0, c_live_objects = 0\<rparr>),
     slabs = (\<lambda>_. \<lparr>s_magic = 0, s_obj_size = 0, s_free_count = 0, s_total = 0, s_freelist = 0, s_next = 0, s_prev = 0, s_cache = 0\<rparr>),
     larges = (\<lambda>_. \<lparr>l_magic = 0, l_pages = 0, l_size = 0\<rparr>),
     links = (\<lambda>_. 0), bytes = (\<lambda>_. 0), large_allocs = 0, bytes_requested = 0, msgs = []\<rparr>"

lemma heap_init_fields:
  "hp (heap_init h) = hp h" "slabs (heap_init h) = slabs h" "larges (heap_init h) = larges h" "links (heap_init h) = links h"
  "caches (heap_init h) k = (if k < NUM_CLASSES then (caches h k)\<lparr>c_obj_size := class_sizes ! k\<rparr> else caches h k)"
proof -
  have f: "hp (fold (\<lambda>i. upd_cache i (\<lambda>k. k\<lparr>c_obj_size := class_sizes ! i\<rparr>)) xs h) = hp h \<and>
      slabs (fold (\<lambda>i. upd_cache i (\<lambda>k. k\<lparr>c_obj_size := class_sizes ! i\<rparr>)) xs h) = slabs h \<and>
      larges (fold (\<lambda>i. upd_cache i (\<lambda>k. k\<lparr>c_obj_size := class_sizes ! i\<rparr>)) xs h) = larges h \<and>
      links (fold (\<lambda>i. upd_cache i (\<lambda>k. k\<lparr>c_obj_size := class_sizes ! i\<rparr>)) xs h) = links h" for xs
    by (induction xs arbitrary: h) simp_all
  show "hp (heap_init h) = hp h" "slabs (heap_init h) = slabs h" "larges (heap_init h) = larges h" "links (heap_init h) = links h"
    unfolding heap_init_def using f [of "[0 ..< NUM_CLASSES]"] by blast+
  have "caches (fold (\<lambda>i. upd_cache i (\<lambda>k. k\<lparr>c_obj_size := class_sizes ! i\<rparr>)) [0 ..< n] h) k =
      (if k < n then (caches h k)\<lparr>c_obj_size := class_sizes ! k\<rparr> else caches h k)" for n
    by (induction n) (auto simp: less_Suc_eq)
  then show "caches (heap_init h) k = (if k < NUM_CLASSES then (caches h k)\<lparr>c_obj_size := class_sizes ! k\<rparr> else caches h k)"
    unfolding heap_init_def .
qed

lemma heap_init_inv: "heap_inv (heap_init empty_heap) \<and> blocks (heap_init empty_heap) = {}"
proof -
  have at: "\<not> slab_at (heap_init empty_heap) s" for s
    using heap_page_addr_pos(3) [of "page_index s"] by (auto simp: slab_at_def heap_init_fields empty_heap_def empty_pages_def)
  have lg: "\<not> large_at (heap_init empty_heap) a" for a
    by (simp add: large_at_def heap_init_fields empty_heap_def)
  have "lists_for (heap_init empty_heap) (parts (heap_init empty_heap))"
    unfolding lists_for_def parts_def at by (auto simp: heap_init_fields empty_heap_def)
  then have "heap_inv (heap_init empty_heap)"
    by (simp add: heap_inv_def owners_ok_def larges_ok_def at lg heap_init_fields)
       (simp add: empty_heap_def empty_pages_def pages_inv_def free_count_at_def)
  then show ?thesis by (simp add: blocks_def slab_blocks_def large_blocks_def live_obj_def at lg)
qed

definition sample_slab :: slab where
  "sample_slab = \<lparr>s_magic = SLAB_MAGIC, s_obj_size = 2048, s_free_count = 7, s_total = 7,
     s_freelist = HEAP_START + SLAB_HDR_SIZE, s_next = 0, s_prev = 0, s_cache = 7\<rparr>"

definition sample_heap0 :: heap where
  "sample_heap0 = (heap_init empty_heap)
     \<lparr>hp := empty_pages\<lparr>bump_page := 4, owner := set_owner 0 4 HEAP_START (\<lambda>_. 0)\<rparr>,
      slabs := (slabs empty_heap)(HEAP_START := sample_slab),
      links := thread_objects (HEAP_START + SLAB_HDR_SIZE) 2048 7 (\<lambda>_. 0)\<rparr>"

definition sample_heap :: heap where
  "sample_heap = partial_push 7 HEAP_START sample_heap0"

lemma sample_heap_inv: "heap_inv sample_heap" "blocks sample_heap = {}" "HEAP_START \<in> parts sample_heap 7"
proof -
  have s: "HEAP_START = heap_page_addr 0" by (simp add: heap_page_addr_def)
  have ok: "slab_ok (links sample_heap0) HEAP_START sample_slab \<and>
      set (free_list (links sample_heap0) sample_slab) = obj_addrs HEAP_START sample_slab \<and> 0 < s_free_count sample_slab \<and>
      (\<forall>x. x \<notin> obj_addrs HEAP_START sample_slab \<longrightarrow> links sample_heap0 x = 0)"
    by (rule slab_new_ok [of 7 _ 0]) (simp_all add: s sample_slab_def class_sizes_def sample_heap0_def)
  have pi: "pages_inv (hp sample_heap0)"
    by (auto simp: sample_heap0_def pages_inv_def free_count_at_def empty_pages_def set_owner_def)
  have "heap_inv (partial_push 7 HEAP_START sample_heap0)"
    "blocks (partial_push 7 HEAP_START sample_heap0) = blocks (heap_init empty_heap)"
    "HEAP_START \<in> parts (partial_push 7 HEAP_START sample_heap0) 7"
    by (rule new_slab_state [of "heap_init empty_heap" 7 HEAP_START 0 sample_heap0 sample_slab];
        use ok pi s heap_init_inv in \<open>simp add: sample_heap0_def heap_init_fields sample_slab_def\<close>;
        simp add: empty_heap_def empty_pages_def)+
  then show "heap_inv sample_heap" "blocks sample_heap = {}" "HEAP_START \<in> parts sample_heap 7"
    using heap_init_inv by (simp_all add: sample_heap_def)
qed

text \<open>The heap with one large block of 3000 bytes in its first page.\<close>

definition large_heap :: heap where
  "large_heap = (heap_init empty_heap)
     \<lparr>hp := empty_pages\<lparr>bump_page := 1, owner := set_owner 0 1 OWNER_LARGE (\<lambda>_. 0)\<rparr>,
      larges := (larges empty_heap)(HEAP_START := \<lparr>l_magic = LARGE_MAGIC, l_pages = 1, l_size = 3000\<rparr>)\<rparr>"

lemma large_heap_at: "large_at large_heap a \<longleftrightarrow> a = HEAP_START"
  by (simp add: large_at_def large_heap_def empty_heap_def)

lemma large_heap_inv: "heap_inv large_heap" "(HEAP_START + LARGE_HDR_SIZE, 4064) \<in> blocks large_heap"
proof -
  have pi: "page_index HEAP_START = 0" "heap_page_addr (page_index HEAP_START) = HEAP_START"
    by (simp_all add: page_index_def heap_page_addr_def)
  have "larges_ok large_heap"
    unfolding larges_ok_def large_heap_at
    by (auto simp: pi large_pages_def) (simp_all add: large_heap_def set_owner_def heap_page_addr_def)
  then show "heap_inv large_heap"
    using conjunct1 [OF heap_init_inv] owner_change [of "heap_init empty_heap" 0 1 OWNER_LARGE large_heap]
    by (auto simp: large_heap_def heap_init_fields empty_heap_def empty_pages_def pages_inv_def free_count_at_def set_owner_def)
  show "(HEAP_START + LARGE_HDR_SIZE, 4064) \<in> blocks large_heap"
    by (auto simp: blocks_def large_blocks_def large_heap_at) (simp add: large_heap_def)
qed

lemma sample_frames: "20 \<le> frames_left sample_vm"
proof -
  have "card {257 ..< 277 :: nat} \<le> frames_left sample_vm"
    unfolding frames_left_def by (rule card_mono) (auto simp: sample_vm_def)
  then show ?thesis by simp
qed

lemma sample_backing: "hvm q = sample_vm \<Longrightarrow> backing_ok q"
  using sample_tree by (simp add: backing_ok_def sample_lookup) (simp add: sample_vm_def)

subsection \<open>Properties\<close>

text \<open>
  C4: a block that \<^verbatim>\<open>kmalloc\<close> returns has room for the request, is 16-byte aligned, lies in the heap's
  range and overlaps no block handed out before; the other blocks and their contents are untouched. A
  NULL result changes no block.
\<close>

theorem kmalloc_fresh_block:
  assumes "heap_inv h" and "0 < sz" and "sz + LARGE_HDR_SIZE + PAGE_SIZE < 2 ^ 64" and "kmalloc sz h = Some (p, h')"
  shows "heap_inv h' \<and> bytes h' = bytes h \<and>
    (if p = 0 then blocks h' = blocks h
     else \<exists>n \<ge> sz. blocks h' = insert (p, n) (blocks h) \<and> p mod 16 = 0 \<and> HEAP_START \<le> p \<and>
       p + n \<le> HEAP_START + HEAP_PAGES * PAGE_SIZE \<and> (\<forall>(q, m) \<in> blocks h. {p ..< p + n} \<inter> {q ..< q + m} = {}))"
proof -
  have k: "kmalloc_locked sz h = Some (p, h')" using assms(2,4) by (simp add: kmalloc_def)
  note e = kmalloc_locked_effect [OF assms(1) k assms(3)]
  show ?thesis
  proof (cases "p = 0")
    case False
    then obtain n where n: "sz \<le> n" "(p, n) \<notin> blocks h" "blocks h' = insert (p, n) (blocks h)" using e by auto
    have i: "heap_inv h'" using e by simp
    have "{p ..< p + n} \<inter> {q ..< q + m} = {}" if "(q, m) \<in> blocks h" for q m
      using blocks_disjoint [OF i, of p n q m] n that by auto
    then show ?thesis using False e n blocks_geometry [OF i, of p n] by auto
  qed (use e in simp)
qed

lemma sample_cache: "c_partial (caches sample_heap 7) = HEAP_START" "s_freelist (slabs sample_heap HEAP_START) = HEAP_START + 64"
  by (simp_all add: sample_heap_def partial_push_def Let_def sample_heap0_def heap_init_fields empty_heap_def sample_slab_def)

lemma sample_kmalloc: "\<exists>h'. kmalloc 2000 sample_heap = Some (HEAP_START + 64, h')"
proof -
  have "cache_for 2000 = Some 7" by (simp add: cache_for_def class_sizes_def upt_rec)
  then show ?thesis
    by (simp add: kmalloc_def kmalloc_locked_def slab_alloc_def Let_def sample_cache slab_take_def)
qed

theorem kmalloc_fresh_block_witness:
  "\<exists>h' n. kmalloc 2000 sample_heap = Some (HEAP_START + 64, h') \<and> 2000 \<le> n \<and> blocks h' = {(HEAP_START + 64, n)}"
proof -
  obtain h' where k: "kmalloc 2000 sample_heap = Some (HEAP_START + 64, h')" using sample_kmalloc by blast
  have "\<exists>n \<ge> 2000. blocks h' = {(HEAP_START + 64, n)}"
    using kmalloc_fresh_block [OF sample_heap_inv(1) _ _ k] by (auto simp: sample_heap_inv(2))
  then show ?thesis using k by blast
qed

text \<open>
  C16: \<^verbatim>\<open>kfree\<close> of a block that was handed out returns, takes back exactly this block and leaves every
  other block and its contents alone.
\<close>

theorem kfree_releases_block:
  assumes "heap_inv h" and "(p, n) \<in> blocks h"
  shows "\<exists>h'. kfree p h = Some h' \<and> heap_inv h' \<and> blocks h' = blocks h - {(p, n)} \<and> bytes h' = bytes h"
proof -
  have "p \<noteq> 0" using blocks_geometry [OF assms] by simp
  then show ?thesis using kfree_locked_effect [OF assms] by (simp add: kfree_def)
qed

theorem kfree_releases_block_witness:
  "\<exists>h'. kfree (HEAP_START + LARGE_HDR_SIZE) large_heap = Some h' \<and> (HEAP_START + LARGE_HDR_SIZE, 4064) \<notin> blocks h'"
  using kfree_releases_block [OF large_heap_inv] by auto

text \<open>
  C25: \<^verbatim>\<open>krealloc\<close> of a block either fails and changes nothing, or returns a block with room for the
  new size in place of the old one whose first bytes, up to the recorded size of the old block, are the
  old contents; no byte outside the new block changes.
\<close>

theorem krealloc_keeps_data:
  assumes "heap_inv h" and "(p, n) \<in> blocks h" and "0 < sz" and "sz + LARGE_HDR_SIZE + PAGE_SIZE < 2 ^ 64"
    and "krealloc p sz h = Some (q, h')"
  shows "heap_inv h' \<and>
    (if q = 0 then blocks h' = blocks h \<and> bytes h' = bytes h
     else (\<exists>m \<ge> sz. blocks h' = insert (q, m) (blocks h - {(p, n)})) \<and>
       (\<forall>i < min (snd (usable_size p h)) sz. bytes h' (q + i) = bytes h (p + i)) \<and>
       (\<forall>x. x < q \<or> q + sz \<le> x \<longrightarrow> bytes h' x = bytes h x))"
  using krealloc_effect [OF assms] .

lemma large_heap_usable: "usable_size (HEAP_START + LARGE_HDR_SIZE) large_heap = (4064, 3000)"
  by (simp add: usable_size_def Let_def large_heap_def page_index_def set_owner_def)

theorem krealloc_keeps_data_witness:
  "\<exists>h'. krealloc (HEAP_START + LARGE_HDR_SIZE) 4000 large_heap = Some (HEAP_START + LARGE_HDR_SIZE, h') \<and>
     (HEAP_START + LARGE_HDR_SIZE, 4064) \<in> blocks h' \<and> heap_inv h'"
proof -
  have k: "krealloc (HEAP_START + LARGE_HDR_SIZE) 4000 large_heap = Some (HEAP_START + LARGE_HDR_SIZE, large_heap)"
    by (simp add: krealloc_def large_heap_usable [simplified])
  show ?thesis using krealloc_keeps_data [OF large_heap_inv _ _ k] k large_heap_inv(2) by auto
qed

lemma slab_alloc_succeeds:
  assumes inv: "heap_inv h" and c: "c < NUM_CLASSES" and a: "\<exists>q m. alloc_pages_locked SLAB_PAGES (hp h) = Some (Some q, m)"
  shows "\<exists>p h'. slab_alloc c h = Some (p, h') \<and> p \<noteq> 0"
proof (cases "c_partial (caches h c) = 0")
  case True
  obtain q m where am: "alloc_pages_locked SLAB_PAGES (hp h) = Some (Some q, m)" using a by blast
  obtain s h1 where s: "slab_create c h = Some (s, h1)" "s \<noteq> 0"
    using am by (simp add: slab_create_def Let_def)
  obtain p h' where t: "slab_take c s h1 = (p, h')" by fastforce
  have "p \<noteq> 0" using slab_create_effect [OF inv c s(1)] s(2) slab_take_effect [OF _ _ c t] by blast
  then show ?thesis using True s t by (simp add: slab_alloc_def)
next
  case False
  obtain p h' where t: "slab_take c (c_partial (caches h c)) h = (p, h')" by fastforce
  obtain xs where xs: "dll (slabs h) 0 (c_partial (caches h c)) xs" "set xs = parts h c"
    using heap_invD(5) [OF inv] c unfolding lists_for_def by blast
  then have "c_partial (caches h c) \<in> parts h c" using dll_head [OF xs(1)] False by (metis list.set_intros(1))
  then show ?thesis using slab_take_effect [OF inv _ c, of _ p h'] t False by (auto simp: slab_alloc_def Let_def)
qed

text \<open>
  C23: while the heap's range and the frames last, \<^verbatim>\<open>kmalloc\<close> returns a block: it neither halts nor
  returns NULL.
\<close>

theorem kmalloc_succeeds:
  assumes "heap_inv h" and "backing_ok (hp h)" and "0 < sz" and "sz + LARGE_HDR_SIZE + PAGE_SIZE < 2 ^ 64"
    and "n = max SLAB_PAGES (PAGE_ALIGN_UP (sz + LARGE_HDR_SIZE) div PAGE_SIZE)"
    and "bump_page (hp h) + n \<le> HEAP_PAGES" and "4 * n \<le> frames_left (hvm (hp h))"
  shows "\<exists>p h'. kmalloc sz h = Some (p, h') \<and> p \<noteq> 0"
proof -
  have al: "\<exists>q m. alloc_pages_locked k (hp h) = Some (Some q, m)" if "0 < k" "k \<le> n" for k
    using alloc_pages_succeeds [OF heap_invD(1) [OF assms(1)] assms(2), of k] that assms(6,7) by fastforce
  show ?thesis
  proof (cases "sz > MAX_SMALL")
    case True
    have "PAGE_SIZE \<le> PAGE_ALIGN_UP (sz + LARGE_HDR_SIZE)"
      using assms(4) by (simp add: PAGE_ALIGN_UP_def PAGE_ALIGN_DOWN_def)
    then have k: "0 < PAGE_ALIGN_UP (sz + LARGE_HDR_SIZE) div PAGE_SIZE" by (simp add: div_greater_zero_iff)
    obtain q m where "alloc_pages_locked (PAGE_ALIGN_UP (sz + LARGE_HDR_SIZE) div PAGE_SIZE) (hp h) = Some (Some q, m)"
      using al [OF k] assms(5) by auto
    then show ?thesis using True assms(3,4) by (simp add: kmalloc_def kmalloc_locked_def large_alloc_def Let_def)
  next
    case False
    then obtain c where c: "cache_for sz = Some c" "c < NUM_CLASSES"
      using cache_for_some [of sz] cache_for_class by (auto simp: not_less)
    obtain p h' where "slab_alloc c h = Some (p, h')" "p \<noteq> 0"
      using slab_alloc_succeeds [OF assms(1) c(2) al] assms(5) by auto
    then show ?thesis using False c assms(3) by (simp add: kmalloc_def kmalloc_locked_def)
  qed
qed

theorem kmalloc_succeeds_witness: "\<exists>p h'. kmalloc 100 (heap_init empty_heap) = Some (p, h') \<and> p \<noteq> 0"
proof -
  have h: "hp (heap_init empty_heap) = empty_pages" by (simp add: heap_init_fields empty_heap_def)
  have "backing_ok empty_pages" by (rule sample_backing) (simp add: empty_pages_def)
  then show ?thesis
    using kmalloc_succeeds [of "heap_init empty_heap" 100 4] conjunct1 [OF heap_init_inv] sample_frames
    by (simp add: h) (simp add: empty_pages_def PAGE_ALIGN_UP_def PAGE_ALIGN_DOWN_def)
qed

text \<open>
  C40: growing a large block in place does not update its recorded size, so a later move copies only
  as many bytes as were requested first: what was written into the grown part is lost.
\<close>

theorem krealloc_loses_grown_data:
  assumes "heap_inv h" and "(p, n) \<in> blocks h" and "usable_size p h = (n, r)" and "r < sz" and "sz \<le> n" and "MAX_SMALL < sz"
    and "n < sz2" and "sz2 + LARGE_HDR_SIZE + PAGE_SIZE < 2 ^ 64" and "krealloc p sz2 h = Some (q, h')" and "q \<noteq> 0"
  shows "krealloc p sz h = Some (p, h) \<and> (\<forall>i. r \<le> i \<and> i < sz \<longrightarrow> bytes h' (q + i) = bytes h (q + i))"
proof
  have p: "p \<noteq> 0" using blocks_geometry [OF assms(1,2)] by simp
  show "krealloc p sz h = Some (p, h)" using p assms(3-6) by (simp add: krealloc_def)
  obtain h1 where m: "kmalloc_locked sz2 h = Some (q, h1)"
    and k: "kfree_locked p (h1\<lparr>bytes := copy_bytes q p (min r sz2) (bytes h1)\<rparr>) = Some h'"
    using assms(3-7,9,10) p by (auto simp: krealloc_def bind_eq_Some_conv split: if_splits)
  note me = kmalloc_locked_effect [OF assms(1) m assms(8)]
  have "heap_inv (h1\<lparr>bytes := copy_bytes q p (min r sz2) (bytes h1)\<rparr>)"
    "(p, n) \<in> blocks (h1\<lparr>bytes := copy_bytes q p (min r sz2) (bytes h1)\<rparr>)"
    using me assms(2,10) by (auto simp: stats_only)
  from kfree_locked_effect [OF this] k have "bytes h' = copy_bytes q p (min r sz2) (bytes h1)" by simp
  then show "\<forall>i. r \<le> i \<and> i < sz \<longrightarrow> bytes h' (q + i) = bytes h (q + i)"
    using me by (simp add: copy_bytes_def)
qed

lemma large_heap_grow: "\<exists>q h'. krealloc (HEAP_START + LARGE_HDR_SIZE) 8000 large_heap = Some (q, h') \<and> q \<noteq> 0"
proof -
  have "hvm (hp large_heap) = sample_vm" "bump_page (hp large_heap) = 1" by (simp_all add: large_heap_def empty_pages_def)
  then obtain p m where a: "alloc_pages_locked 2 (hp large_heap) = Some (Some p, m)"
    using alloc_pages_succeeds [OF heap_invD(1) [OF large_heap_inv(1)] sample_backing, of 2] sample_frames by auto
  then obtain q h1 where m: "kmalloc_locked 8000 large_heap = Some (q, h1)" "q \<noteq> 0"
    by (simp add: kmalloc_locked_def large_alloc_def Let_def PAGE_ALIGN_UP_def PAGE_ALIGN_DOWN_def)
  let ?h = "h1\<lparr>bytes := copy_bytes q (HEAP_START + LARGE_HDR_SIZE) 3000 (bytes h1)\<rparr>"
  have "heap_inv ?h" "(HEAP_START + LARGE_HDR_SIZE, 4064) \<in> blocks ?h"
    using kmalloc_locked_effect [OF large_heap_inv(1) m(1)] m(2) large_heap_inv(2) by (auto simp: stats_only)
  then obtain h2 where "kfree_locked (HEAP_START + LARGE_HDR_SIZE) ?h = Some h2"
    using kfree_locked_effect by blast
  then show ?thesis using m by (simp add: krealloc_def large_heap_usable [simplified])
qed

theorem krealloc_loses_grown_data_witness:
  "\<exists>q h'. krealloc (HEAP_START + LARGE_HDR_SIZE) 4000 large_heap = Some (HEAP_START + LARGE_HDR_SIZE, large_heap) \<and>
     krealloc (HEAP_START + LARGE_HDR_SIZE) 8000 large_heap = Some (q, h') \<and> bytes h' (q + 3500) = bytes large_heap (q + 3500)"
proof -
  obtain q h' where k: "krealloc (HEAP_START + LARGE_HDR_SIZE) 8000 large_heap = Some (q, h')" "q \<noteq> 0"
    using large_heap_grow by blast
  have "krealloc (HEAP_START + LARGE_HDR_SIZE) 4000 large_heap = Some (HEAP_START + LARGE_HDR_SIZE, large_heap) \<and>
    (\<forall>i. 3000 \<le> i \<and> i < 4000 \<longrightarrow> bytes h' (q + i) = bytes large_heap (q + i))"
    by (rule krealloc_loses_grown_data [OF large_heap_inv large_heap_usable _ _ _ _ _ k]) simp_all
  then show ?thesis using k by auto
qed

text \<open>
  The size computation of \<^verbatim>\<open>large_alloc\<close> wraps: a request of \<open>2 ^ 64 - 1\<close> bytes is answered with a
  block of one page when a page is to be had.
\<close>

theorem kmalloc_huge_request_wraps:
  assumes "alloc_pages_locked 1 (hp h) = Some (Some first, m)"
  shows "\<exists>h'. kmalloc (2 ^ 64 - 1) h = Some (heap_page_addr first + LARGE_HDR_SIZE, h') \<and>
    (heap_page_addr first + LARGE_HDR_SIZE, PAGE_SIZE - LARGE_HDR_SIZE) \<in> blocks h'"
proof -
  have "add64 (2 ^ 64 - 1) LARGE_HDR_SIZE = 31" by (simp add: add64_def wrap64_def)
  then have n: "PAGE_ALIGN_UP (add64 (2 ^ 64 - 1) LARGE_HDR_SIZE) div PAGE_SIZE = 1"
    by (simp only: PAGE_ALIGN_UP_def PAGE_ALIGN_DOWN_def) simp
  then obtain h' where r: "large_alloc (2 ^ 64 - 1) h = Some (heap_page_addr first + LARGE_HDR_SIZE, h')"
    "larges h' (heap_page_addr first) = \<lparr>l_magic = LARGE_MAGIC, l_pages = 1, l_size = 2 ^ 64 - 1\<rparr>"
    unfolding large_alloc_def n Let_def using assms by simp
  define h2 where "h2 = h'\<lparr>bytes_requested := add64 (bytes_requested h') (2 ^ 64 - 1)\<rparr>"
  have "kmalloc (2 ^ 64 - 1) h = Some (heap_page_addr first + LARGE_HDR_SIZE, h2)"
    using r(1) unfolding kmalloc_def kmalloc_locked_def h2_def by simp
  moreover have "large_at h2 (heap_page_addr first)" "l_pages (larges h2 (heap_page_addr first)) = 1"
    using r(2) by (simp_all add: large_at_def h2_def)
  then have "(heap_page_addr first + LARGE_HDR_SIZE, PAGE_SIZE - LARGE_HDR_SIZE) \<in> blocks h2"
    unfolding blocks_def large_blocks_def by (intro UnI2 CollectI case_prodI exI [of _ "heap_page_addr first"]) simp
  ultimately show ?thesis by blast
qed

theorem kmalloc_huge_request_wraps_witness:
  "\<exists>p h'. kmalloc (2 ^ 64 - 1) (heap_init empty_heap) = Some (p, h') \<and> p \<noteq> 0"
proof -
  have h: "hp (heap_init empty_heap) = empty_pages" by (simp add: heap_init_fields empty_heap_def)
  have b: "backing_ok empty_pages" by (rule sample_backing) (simp add: empty_pages_def)
  obtain first m where "alloc_pages_locked 1 empty_pages = Some (Some first, m)"
    using alloc_pages_succeeds [OF _ b, of 1] heap_invD(1) [OF conjunct1 [OF heap_init_inv]] sample_frames
    by (auto simp: h) (auto simp: empty_pages_def)
  then show ?thesis using kmalloc_huge_request_wraps [of "heap_init empty_heap" first m] h by fastforce
qed

end
