(* ===== verification/Ring.thy ===== *)
theory Ring
  imports Sic_Prelude
begin

text \<open>
  Ring buffers. The kernel has many: pipes, pseudo-terminals, local sockets, the TCP receive
  buffer, the console log. They differ in how they keep their indices (a write index and a count,
  two free-running counters, a start and a length) and in how they copy (byte by byte or
  in two blocks), but all of them hold the list \<open>ring_list\<close>. This theory has the facts
  about that list, \<^verbatim>\<open>memcpy\<close> into an array, and the contract \<open>fifo\<close> of a bounded byte
  queue with the conservation law its clients rely on: what comes out is what went in, in order,
  each element once.
\<close>

subsection \<open>The contents of a ring\<close>

definition ring_list :: "'a list \<Rightarrow> nat \<Rightarrow> nat \<Rightarrow> 'a list" where
  "ring_list buf start len = map (\<lambda>i. buf ! ((start + i) mod length buf)) [0 ..< len]"

lemma ring_list_simps [simp]:
  "length (ring_list buf start len) = len"
  "ring_list buf start 0 = []"
  by (simp_all add: ring_list_def)

lemma ring_list_mod [simp]: "ring_list buf (start mod length buf) len = ring_list buf start len"
  by (simp add: ring_list_def mod_add_left_eq)

lemma ring_list_nth: "i < len \<Longrightarrow> ring_list buf start len ! i = buf ! ((start + i) mod length buf)"
  by (simp add: ring_list_def)

lemma ring_list_take: "take k (ring_list buf start len) = ring_list buf start (min k len)"
  by (rule nth_equalityI) (auto simp: ring_list_nth)

lemma ring_list_drop: "drop k (ring_list buf start len) = ring_list buf (start + k) (len - k)"
  by (rule nth_equalityI) (auto simp: ring_list_nth add.assoc)

lemma ring_list_Suc:
  "ring_list buf start (Suc len) = buf ! (start mod length buf) # ring_list buf (Suc start) len"
  by (rule nth_equalityI) (auto simp: ring_list_nth nth_Cons split: nat.splits)

lemma mod_distinct:
  assumes "i < n" and "j < n" and "(s + i) mod n = (s + j) mod n"
  shows "i = (j :: nat)"
proof (rule ccontr)
  assume "i \<noteq> j"
  moreover have "n dvd (s + i) - (s + j)" if "j \<le> i" using assms(3) that by (subst mod_eq_dvd_iff_nat [symmetric]) auto
  moreover have "n dvd (s + j) - (s + i)" if "i \<le> j" using assms(3) that by (subst mod_eq_dvd_iff_nat [symmetric]) auto
  ultimately show False
    using assms(1,2) nat_dvd_not_less [of "i - j" n] nat_dvd_not_less [of "j - i" n] by (cases i j rule: linorder_cases) auto
qed

text \<open>Storing at the index after the last element appends, as long as the ring is not full.\<close>

lemma ring_list_push:
  assumes "len < length buf"
  shows "ring_list (buf[(start + len) mod length buf := x]) start (Suc len) = ring_list buf start len @ [x]"
proof (rule nth_equalityI)
  fix i assume i: "i < length (ring_list (buf[(start + len) mod length buf := x]) start (Suc len))"
  have n: "(start + len) mod length buf < length buf" using assms by (intro mod_less_divisor) auto
  show "ring_list (buf[(start + len) mod length buf := x]) start (Suc len) ! i = (ring_list buf start len @ [x]) ! i"
  proof (cases "i = len")
    case True
    then show ?thesis using n by (simp add: ring_list_nth nth_append)
  next
    case False
    then have "i < len" using i by simp
    moreover have "(start + len) mod length buf \<noteq> (start + i) mod length buf"
      using mod_distinct [of len "length buf" i start] assms \<open>i < len\<close> by auto
    ultimately show ?thesis by (simp add: ring_list_nth nth_append)
  qed
qed simp

subsection \<open>\<^verbatim>\<open>memcpy\<close> into an array\<close>

definition memcpy :: "'a list \<Rightarrow> nat \<Rightarrow> 'a list \<Rightarrow> 'a list" where
  "memcpy dst off src = take off dst @ src @ drop (off + length src) dst"

lemma memcpy_length [simp]:
  "off + length src \<le> length dst \<Longrightarrow> length (memcpy dst off src) = length dst"
  by (simp add: memcpy_def)

lemma memcpy_nth:
  assumes "off + length src \<le> length dst" and "i < length dst"
  shows "memcpy dst off src ! i = (if off \<le> i \<and> i < off + length src then src ! (i - off) else dst ! i)"
  using assms by (auto simp: memcpy_def nth_append min_def)

lemma memcpy_empty [simp]: "memcpy dst off [] = dst"
  by (simp add: memcpy_def)

text \<open>
  A block copied into a ring in two pieces, up to the end of the array and then from its start;
  and the same for copying out.
\<close>

definition ring_write :: "'a list \<Rightarrow> nat \<Rightarrow> 'a list \<Rightarrow> 'a list" where
  "ring_write buf off src =
     (let first = min (length buf - off) (length src);
          b = memcpy buf off (take first src)
      in if length src > first then memcpy b 0 (drop first src) else b)"

definition ring_read :: "'a list \<Rightarrow> nat \<Rightarrow> nat \<Rightarrow> 'a list" where
  "ring_read buf off n =
     (let first = min (length buf - off) n
      in take first (drop off buf) @ (if n > first then take (n - first) buf else []))"

lemma ring_write_length [simp]:
  "off < length buf \<Longrightarrow> length src \<le> length buf \<Longrightarrow> length (ring_write buf off src) = length buf"
  by (auto simp: ring_write_def Let_def min_def)

lemma ring_write_nth:
  assumes "off < length buf" and "length src \<le> length buf" and "k < length buf"
  shows "ring_write buf off src ! ((off + k) mod length buf) =
         (if k < length src then src ! k else buf ! ((off + k) mod length buf))"
proof (cases "off + k < length buf")
  case True
  then show ?thesis
    using assms by (auto simp: ring_write_def Let_def memcpy_nth min_def nth_append)
next
  case False
  then have "(off + k) mod length buf = off + k - length buf"
    using assms by (simp add: mod_if)
  then show ?thesis
    using assms False by (auto simp: ring_write_def Let_def memcpy_nth min_def nth_append)
qed

lemma ring_list_write:
  assumes "len + length src \<le> length buf" and "0 < length buf"
  shows "ring_list (ring_write buf ((start + len) mod length buf) src) start (len + length src) =
         ring_list buf start len @ src"
proof (rule nth_equalityI)
  define n where "n = length buf"
  define off where "off = (start + len) mod n"
  have off: "off < length buf" using assms(2) by (simp add: off_def n_def)
  have L: "length (ring_write buf off src) = n" using off assms(1) by (simp add: n_def)
  fix i assume "i < length (ring_list (ring_write buf ((start + len) mod length buf) src) start (len + length src))"
  then have i: "i < len + length src" by simp
  show "ring_list (ring_write buf ((start + len) mod length buf) src) start (len + length src) ! i =
        (ring_list buf start len @ src) ! i"
  proof (cases "i < len")
    case True
    define k where "k = n - (len - i)"
    have k: "length src \<le> k" "k < n" using True assms by (auto simp: k_def n_def)
    have "(off + k) mod n = (start + len + k) mod n" by (simp add: off_def mod_add_left_eq)
    also have "start + len + k = start + i + n" using True assms by (simp add: k_def n_def)
    finally have "(off + k) mod n = (start + i) mod n" by simp
    then show ?thesis
      using True i L k ring_write_nth [OF off, of src k] assms(1)
      by (simp add: ring_list_nth nth_append n_def [symmetric] off_def [symmetric])
  next
    case False
    define k where "k = i - len"
    have k: "k < length src" "k < n" using False i assms(1) by (auto simp: k_def n_def)
    have "(off + k) mod n = (start + len + k) mod n" by (simp add: off_def mod_add_left_eq)
    also have "start + len + k = start + i" using False by (simp add: k_def)
    finally have "(off + k) mod n = (start + i) mod n" .
    then show ?thesis
      using False i L k ring_write_nth [OF off, of src k] assms(1)
      by (simp add: ring_list_nth nth_append n_def [symmetric] off_def [symmetric] k_def)
  qed
qed simp

lemma ring_read_list:
  assumes "n \<le> length buf" and "0 < length buf"
  shows "ring_read buf (start mod length buf) n = ring_list buf start n"
proof (rule nth_equalityI)
  define off where "off = start mod length buf"
  have off: "off < length buf" using assms(2) by (simp add: off_def)
  then show "length (ring_read buf (start mod length buf) n) = length (ring_list buf start n)"
    using assms by (auto simp: ring_read_def Let_def off_def [symmetric])
  fix i assume "i < length (ring_read buf (start mod length buf) n)"
  then have i: "i < n" using off assms(1) by (auto simp: ring_read_def Let_def off_def [symmetric] split: if_splits)
  have e: "(start + i) mod length buf = (off + i) mod length buf" by (simp add: off_def mod_add_left_eq)
  show "ring_read buf (start mod length buf) n ! i = ring_list buf start n ! i"
  proof (cases "off + i < length buf")
    case True
    then show ?thesis
      using i off assms by (auto simp: ring_list_nth e ring_read_def Let_def off_def [symmetric] nth_append)
  next
    case False
    then have "off + i = length buf + (i - (length buf - off))" and "i - (length buf - off) < length buf"
      using off i assms(1) by auto
    then have "(off + i) mod length buf = i - (length buf - off)"
      by (metis mod_add_self1 mod_less)
    then show ?thesis
      using i off assms False by (auto simp: ring_list_nth e ring_read_def Let_def off_def [symmetric] nth_append)
  qed
qed

subsection \<open>The contract of a bounded queue\<close>

text \<open>
  A history of operations on a queue, \<open>Inl\<close> a \<open>put\<close> and \<open>Inr\<close> a \<open>get\<close>: what the
  \<open>put\<close> operations accepted, what the \<open>get\<close> operations returned, and the final state.
\<close>

fun fifo_run :: "('a list \<Rightarrow> 's \<Rightarrow> nat \<times> 's) \<Rightarrow> (nat \<Rightarrow> 's \<Rightarrow> 'a list \<times> 's) \<Rightarrow>
    ('a list + nat) list \<Rightarrow> 's \<Rightarrow> 'a list \<times> 'a list \<times> 's" where
  "fifo_run put get [] s = ([], [], s)"
| "fifo_run put get (Inl xs # ops) s =
     (let (n, s1) = put xs s; (i, out, s2) = fifo_run put get ops s1 in (take n xs @ i, out, s2))"
| "fifo_run put get (Inr k # ops) s =
     (let (ys, s1) = get k s; (i, out, s2) = fifo_run put get ops s1 in (i, ys @ out, s2))"

text \<open>
  \<open>put\<close> accepts a prefix of what it is given, as long as there is room, and returns its
  length; \<open>get\<close> returns what it removed.
\<close>

locale fifo =
  fixes good :: "'s \<Rightarrow> bool" and contents :: "'s \<Rightarrow> 'a list" and cap :: nat
    and put :: "'a list \<Rightarrow> 's \<Rightarrow> nat \<times> 's" and get :: "nat \<Rightarrow> 's \<Rightarrow> 'a list \<times> 's"
  assumes bounded: "good s \<Longrightarrow> length (contents s) \<le> cap"
    and put_law: "good s \<Longrightarrow> put xs s = (n, s') \<Longrightarrow>
      good s' \<and> n = min (length xs) (cap - length (contents s)) \<and> contents s' = contents s @ take n xs"
    and get_law: "good s \<Longrightarrow> get k s = (ys, s') \<Longrightarrow>
      good s' \<and> ys = take k (contents s) \<and> contents s' = drop k (contents s)"
begin

lemma conservation:
  "good s \<Longrightarrow> fifo_run put get ops s = (i, out, s') \<Longrightarrow> good s' \<and> contents s @ i = out @ contents s'"
proof (induction ops arbitrary: s i out)
  case (Cons op ops)
  show ?case
  proof (cases op)
    case (Inl xs)
    obtain n s1 where p: "put xs s = (n, s1)" by fastforce
    obtain i' where r: "fifo_run put get ops s1 = (i', out, s')" and i: "i = take n xs @ i'"
      using Cons.prems(2) p Inl by (auto split: prod.splits)
    have "good s1" "contents s1 = contents s @ take n xs" using put_law [OF Cons.prems(1) p] by auto
    then show ?thesis using Cons.IH [OF _ r] i by simp
  next
    case (Inr k)
    obtain ys s1 where p: "get k s = (ys, s1)" by fastforce
    obtain out' where r: "fifo_run put get ops s1 = (i, out', s')" and o: "out = ys @ out'"
      using Cons.prems(2) p Inr by (auto split: prod.splits)
    have "good s1" "ys = take k (contents s)" "contents s1 = drop k (contents s)"
      using get_law [OF Cons.prems(1) p] by auto
    then show ?thesis
      using Cons.IH [OF _ r] o append_take_drop_id [of k "contents s"] by (metis append.assoc)
  qed
qed simp

lemma put_all: "good s \<Longrightarrow> length xs + length (contents s) \<le> cap \<Longrightarrow> fst (put xs s) = length xs"
  using put_law [of s xs "fst (put xs s)" "snd (put xs s)"] by simp

lemma put_some: "good s \<Longrightarrow> xs \<noteq> [] \<Longrightarrow> length (contents s) < cap \<Longrightarrow> 0 < fst (put xs s)"
  using put_law [of s xs "fst (put xs s)" "snd (put xs s)"] by simp

lemma get_some: "good s \<Longrightarrow> 0 < k \<Longrightarrow> contents s \<noteq> [] \<Longrightarrow> fst (get k s) \<noteq> []"
  using get_law [of s k "fst (get k s)" "snd (get k s)"] by simp

end

end
