(* ===== verification/Pipe.thy ===== *)
theory Pipe
  imports Ring
begin

text \<open>
  Anonymous pipes, \<^verbatim>\<open>kernel/fs/pipe.c\<close>. A read or write call is a loop: one critical section
  under \<^verbatim>\<open>p->lock\<close> and then, when there is nothing to do yet, a sleep in
  \<^verbatim>\<open>wait_event_interruptible\<close>. The critical section is one function on the pipe
  (\<open>pipe_read_iter\<close>, \<open>pipe_write_iter\<close>) whose result says where the call goes next; the
  interleavings of any number of readers and writers are the steps \<open>pipe_step\<close>.
\<close>

subsection \<open>The state\<close>

definition PIPE_SIZE :: nat where "PIPE_SIZE = 64 * 1024"

record pipe =
  pbuf :: "u8 list"
  head :: nat                          \<comment> \<open>write index\<close>
  tail :: nat                          \<comment> \<open>read index\<close>
  pcount :: nat
  readers :: int
  writers :: int

text \<open>Where a call of \<^verbatim>\<open>pipe_read\<close> is: at the top of its loop, asleep, or returned.\<close>

datatype rd = RdLoop | RdSleep | RdRet int "u8 list"

text \<open>
  The same for \<^verbatim>\<open>pipe_write\<close>, with the bytes done so far; the flag of \<open>WrRet\<close> says that
  SIGPIPE was sent to the caller.
\<close>

datatype wr = WrLoop nat | WrSleep nat | WrRet int bool

definition nonblocking :: "u32 \<Rightarrow> bool" where
  "nonblocking flags \<longleftrightarrow> flags AND O_NONBLOCK \<noteq> 0"

definition read_end :: "u32 \<Rightarrow> bool" where
  "read_end flags \<longleftrightarrow> flags AND 3 = O_RDONLY"

subsection \<open>Operations\<close>

text \<open>The copy loops of the two directions.\<close>

fun pipe_drain :: "nat \<Rightarrow> pipe \<Rightarrow> u8 list \<times> pipe" where
  "pipe_drain 0 p = ([], p)"
| "pipe_drain (Suc n) p =
     (let b = pbuf p ! tail p;
          (bs, p1) = pipe_drain n (p\<lparr>tail := (tail p + 1) mod PIPE_SIZE\<rparr>)
      in (b # bs, p1))"

fun pipe_fill :: "u8 list \<Rightarrow> pipe \<Rightarrow> pipe" where
  "pipe_fill [] p = p"
| "pipe_fill (b # bs) p =
     pipe_fill bs (p\<lparr>pbuf := (pbuf p)[head p := b], head := (head p + 1) mod PIPE_SIZE\<rparr>)"

definition pipe_read_enter :: "nat \<Rightarrow> rd" where
  "pipe_read_enter len = (if len = 0 then RdRet 0 [] else RdLoop)"

definition pipe_read_iter :: "u32 \<Rightarrow> nat \<Rightarrow> pipe \<Rightarrow> rd \<times> pipe" where
  "pipe_read_iter flags len p =
     (if pcount p > 0 then
        let n = (if len < pcount p then len else pcount p);
            (bs, p1) = pipe_drain n p
        in (RdRet (int n) bs, p1\<lparr>pcount := pcount p1 - n\<rparr>)
      else if writers p = 0 then (RdRet 0 [], p)
      else if nonblocking flags then (RdRet (- EAGAIN) [], p)
      else (RdSleep, p))"

text \<open>A sleeping call looks at its condition again; \<open>sig\<close> says that a signal is pending.\<close>

definition pipe_read_wake :: "bool \<Rightarrow> pipe \<Rightarrow> rd" where
  "pipe_read_wake sig p =
     (if pcount p > 0 \<or> writers p = 0 then RdLoop else if sig then RdRet (- EINTR) [] else RdSleep)"

definition pipe_write_iter :: "u32 \<Rightarrow> u8 list \<Rightarrow> nat \<Rightarrow> pipe \<Rightarrow> wr \<times> pipe" where
  "pipe_write_iter flags buf done p =
     (if \<not> done < length buf then (WrRet (int done) False, p)
      else if readers p = 0 then (WrRet (if done \<noteq> 0 then int done else - EPIPE) True, p)
      else let space = PIPE_SIZE - pcount p
           in if space > 0 then
                let n = (if length buf - done < space then length buf - done else space);
                    p1 = pipe_fill (take n (drop done buf)) p
                in (WrLoop (done + n), p1\<lparr>pcount := pcount p1 + n\<rparr>)
              else if nonblocking flags then (WrRet (if done \<noteq> 0 then int done else - EAGAIN) False, p)
              else (WrSleep done, p))"

definition pipe_write_wake :: "bool \<Rightarrow> nat \<Rightarrow> pipe \<Rightarrow> wr" where
  "pipe_write_wake sig done p =
     (if pcount p < PIPE_SIZE \<or> readers p = 0 then WrLoop done
      else if sig then WrRet (if done \<noteq> 0 then int done else - EINTR) False else WrSleep done)"

text \<open>The flag says that both ends are gone and the pipe's memory is given back.\<close>

definition pipe_release :: "u32 \<Rightarrow> pipe \<Rightarrow> bool \<times> pipe" where
  "pipe_release flags p =
     (let p1 = (if read_end flags then p\<lparr>readers := readers p - 1\<rparr> else p\<lparr>writers := writers p - 1\<rparr>)
      in (readers p1 = 0 \<and> writers p1 = 0, p1))"

definition pipe_poll :: "u32 \<Rightarrow> pipe \<Rightarrow> u32" where
  "pipe_poll flags p =
     (if read_end flags then
        (if pcount p > 0 then POLLIN else 0) OR (if writers p = 0 then POLLHUP else 0)
      else
        (if pcount p < PIPE_SIZE then POLLOUT else 0) OR (if readers p = 0 then POLLERR else 0))"

text \<open>
  \<open>p_ok\<close>, \<open>n_ok\<close>, \<open>r_ok\<close>, \<open>w_ok\<close> and \<open>buf\<close> are the outcomes of the five allocations,
  \<open>buf\<close> with the bytes the heap hands out; \<open>Inl\<close> is the negative return value.
\<close>

definition pipe_create :: "bool \<Rightarrow> bool \<Rightarrow> bool \<Rightarrow> bool \<Rightarrow> u8 list option \<Rightarrow> int + pipe" where
  "pipe_create p_ok n_ok r_ok w_ok buf =
     (if \<not> p_ok \<or> \<not> n_ok \<or> \<not> r_ok \<or> \<not> w_ok \<or> buf = None then Inl (- ENOMEM)
      else Inr \<lparr>pbuf = the buf, head = 0, tail = 0, pcount = 0, readers = 1, writers = 1\<rparr>)"

subsection \<open>The ring\<close>

definition pipe_ok :: "pipe \<Rightarrow> bool" where
  "pipe_ok p \<longleftrightarrow> length (pbuf p) = PIPE_SIZE \<and> tail p < PIPE_SIZE \<and> pcount p \<le> PIPE_SIZE \<and>
     head p = (tail p + pcount p) mod PIPE_SIZE"

definition pipe_contents :: "pipe \<Rightarrow> u8 list" where
  "pipe_contents p = ring_list (pbuf p) (tail p) (pcount p)"

lemma PIPE_SIZE_pos [simp]: "0 < PIPE_SIZE"
  by (simp add: PIPE_SIZE_def)

lemma pipe_contents_length [simp]: "length (pipe_contents p) = pcount p"
  by (simp add: pipe_contents_def)

lemma pipe_drain_effect:
  assumes "length (pbuf p) = PIPE_SIZE" and "tail p < PIPE_SIZE"
  shows "pipe_drain n p = (ring_list (pbuf p) (tail p) n, p\<lparr>tail := (tail p + n) mod PIPE_SIZE\<rparr>)"
  using assms
proof (induction n arbitrary: p)
  case 0
  then show ?case by simp
next
  case (Suc n)
  have "ring_list (pbuf p) ((tail p + 1) mod PIPE_SIZE) n = ring_list (pbuf p) (Suc (tail p)) n"
    using ring_list_mod [of "pbuf p" "Suc (tail p)" n] Suc.prems by simp
  then show ?case
    using Suc.IH [of "p\<lparr>tail := (tail p + 1) mod PIPE_SIZE\<rparr>"] Suc.prems
    by (simp add: ring_list_Suc mod_Suc_eq mod_add_left_eq)
qed

lemma pipe_fill_effect:
  assumes "length (pbuf p) = PIPE_SIZE" and "head p = (t + n) mod PIPE_SIZE" and "n + length bs \<le> PIPE_SIZE"
  shows "ring_list (pbuf (pipe_fill bs p)) t (n + length bs) = ring_list (pbuf p) t n @ bs \<and>
         length (pbuf (pipe_fill bs p)) = PIPE_SIZE \<and> head (pipe_fill bs p) = (t + n + length bs) mod PIPE_SIZE \<and>
         tail (pipe_fill bs p) = tail p \<and> pcount (pipe_fill bs p) = pcount p \<and>
         readers (pipe_fill bs p) = readers p \<and> writers (pipe_fill bs p) = writers p"
  using assms
proof (induction bs arbitrary: p n)
  case Nil
  then show ?case by simp
next
  case (Cons b bs)
  define q where "q = p\<lparr>pbuf := (pbuf p)[head p := b], head := (head p + 1) mod PIPE_SIZE\<rparr>"
  have q: "length (pbuf q) = PIPE_SIZE" "head q = (t + Suc n) mod PIPE_SIZE"
    using Cons.prems by (simp_all add: q_def mod_Suc_eq)
  have "ring_list (pbuf q) t (Suc n) = ring_list (pbuf p) t n @ [b]"
    using ring_list_push [of n "pbuf p" t b] Cons.prems by (simp add: q_def)
  then show ?case
    using Cons.IH [OF q] Cons.prems by (simp add: q_def [symmetric]) (simp add: q_def)
qed

subsection \<open>The pipe is a bounded queue\<close>

text \<open>What the critical sections do to the ring.\<close>

definition pipe_put :: "u8 list \<Rightarrow> pipe \<Rightarrow> nat \<times> pipe" where
  "pipe_put bs p =
     (let n = min (length bs) (PIPE_SIZE - pcount p); p1 = pipe_fill (take n bs) p
      in (n, p1\<lparr>pcount := pcount p1 + n\<rparr>))"

definition pipe_get :: "nat \<Rightarrow> pipe \<Rightarrow> u8 list \<times> pipe" where
  "pipe_get k p =
     (let n = min k (pcount p); (bs, p1) = pipe_drain n p in (bs, p1\<lparr>pcount := pcount p1 - n\<rparr>))"

lemma pipe_put_effect:
  assumes "pipe_ok p" and "pipe_put bs p = (n, p')"
  shows "pipe_ok p' \<and> n = min (length bs) (PIPE_SIZE - pcount p) \<and> pcount p' = pcount p + n \<and>
         pipe_contents p' = pipe_contents p @ take n bs \<and> readers p' = readers p \<and> writers p' = writers p"
proof -
  have n: "n = min (length bs) (PIPE_SIZE - pcount p)" using assms(2) by (auto simp: pipe_put_def Let_def)
  have "length (take n bs) = n" using n by simp
  then show ?thesis
    using pipe_fill_effect [of p "tail p" "pcount p" "take n bs"] assms n
    by (auto simp: pipe_put_def Let_def pipe_ok_def pipe_contents_def add.assoc)
qed

lemma pipe_get_effect:
  assumes "pipe_ok p" and "pipe_get k p = (bs, p')"
  shows "pipe_ok p' \<and> bs = take k (pipe_contents p) \<and> pipe_contents p' = drop k (pipe_contents p) \<and>
         pcount p' = pcount p - k \<and> readers p' = readers p \<and> writers p' = writers p"
proof -
  have ok: "length (pbuf p) = PIPE_SIZE" "tail p < PIPE_SIZE" "pcount p \<le> PIPE_SIZE"
    "head p = (tail p + pcount p) mod PIPE_SIZE"
    using assms(1) by (simp_all add: pipe_ok_def)
  define n where "n = min k (pcount p)"
  have e: "bs = ring_list (pbuf p) (tail p) n" "p' = p\<lparr>tail := (tail p + n) mod PIPE_SIZE, pcount := pcount p - n\<rparr>"
    using assms(2) pipe_drain_effect [OF ok(1,2), of n] by (auto simp: pipe_get_def Let_def n_def)
  have d: "drop k (pipe_contents p) = drop n (pipe_contents p)" by (simp add: n_def min_def)
  define m where "m = pcount p - n"
  have m: "pcount p = n + m" by (simp add: m_def n_def)
  have r: "ring_list (pbuf p) ((tail p + n) mod PIPE_SIZE) m = ring_list (pbuf p) (tail p + n) m"
    using ring_list_mod [of "pbuf p" "tail p + n" m] ok(1) by simp
  have "pipe_ok p'"
    using ok m by (simp add: pipe_ok_def e(2) mod_add_left_eq add.assoc)
  moreover have "bs = take k (pipe_contents p)"
    by (simp add: e(1) pipe_contents_def ring_list_take n_def)
  moreover have "pipe_contents p' = drop k (pipe_contents p)"
    unfolding d using r m by (simp add: pipe_contents_def e(2) ring_list_drop)
  ultimately show ?thesis by (auto simp: e(2) n_def)
qed

interpretation pipe_fifo: fifo pipe_ok pipe_contents PIPE_SIZE pipe_put pipe_get
proof
  show "length (pipe_contents s) \<le> PIPE_SIZE" if "pipe_ok s" for s
    using that by (simp add: pipe_ok_def)
next
  show "pipe_ok s' \<and> n = min (length xs) (PIPE_SIZE - length (pipe_contents s)) \<and>
        pipe_contents s' = pipe_contents s @ take n xs"
    if "pipe_ok s" and "pipe_put xs s = (n, s')" for s xs n s'
    using pipe_put_effect [OF that] by simp
next
  show "pipe_ok s' \<and> ys = take k (pipe_contents s) \<and> pipe_contents s' = drop k (pipe_contents s)"
    if "pipe_ok s" and "pipe_get k s = (ys, s')" for s k ys s'
    using pipe_get_effect [OF that] by blast
qed

lemma pipe_write_iter_put:
  assumes "done < length buf" and "readers p \<noteq> 0" and "pcount p < PIPE_SIZE"
  shows "pipe_write_iter flags buf done p =
         (WrLoop (done + fst (pipe_put (drop done buf) p)), snd (pipe_put (drop done buf) p))"
  using assms by (simp add: pipe_write_iter_def pipe_put_def Let_def min_def not_less)

lemma pipe_read_iter_get:
  assumes "pcount p > 0"
  shows "pipe_read_iter flags len p =
         (RdRet (int (length (fst (pipe_get len p)))) (fst (pipe_get len p)), snd (pipe_get len p))"
proof -
  have "length (fst (pipe_drain n p)) = n" for n
    by (induction n arbitrary: p) (auto split: prod.splits, metis fst_conv)
  then show ?thesis
    using assms by (auto simp: pipe_read_iter_def pipe_get_def Let_def min_def split: prod.splits) (metis fst_conv)+
qed

subsection \<open>One call, uninterrupted\<close>

text \<open>
  The write loop run until it returns or goes to sleep. Every iteration that loops makes
  progress, so the loop ends.
\<close>

function pipe_write_run :: "u32 \<Rightarrow> u8 list \<Rightarrow> nat \<Rightarrow> pipe \<Rightarrow> wr \<times> pipe" where
  "pipe_write_run flags buf done p =
     (case pipe_write_iter flags buf done p of
        (WrLoop d, p1) \<Rightarrow> pipe_write_run flags buf d p1
      | r \<Rightarrow> r)"
  by pat_completeness auto
termination
  by (relation "measure (\<lambda>(flags, buf, d, p). length buf - d)")
    (auto simp: pipe_write_iter_def Let_def split: if_splits)

declare pipe_write_run.simps [simp del]

lemma pipe_write_run_stop:
  assumes "pipe_write_iter flags buf d p = (w, p1)" and "\<forall>k. w \<noteq> WrLoop k"
  shows "pipe_write_run flags buf d p = (w, p1)"
  using assms by (subst pipe_write_run.simps) (cases w; auto)

lemma pipe_write_run_end:
  assumes "readers p \<noteq> 0" and "d < length buf \<Longrightarrow> pcount p = PIPE_SIZE"
  shows "pipe_write_run flags buf d p =
    (if \<not> d < length buf then WrRet (int d) False
     else if nonblocking flags then WrRet (if d \<noteq> 0 then int d else - EAGAIN) False
     else WrSleep d, p)"
  using assms by (intro pipe_write_run_stop) (auto simp: pipe_write_iter_def)

lemma pipe_write_run_spec:
  assumes ok: "pipe_ok p" and rd: "readers p \<noteq> 0" and n: "n = min (length buf) (PIPE_SIZE - pcount p)"
  shows "fst (pipe_write_run flags buf 0 p) =
           (if n = length buf then WrRet (int n) False
            else if nonblocking flags then WrRet (if n \<noteq> 0 then int n else - EAGAIN) False
            else WrSleep n) \<and>
         pipe_ok (snd (pipe_write_run flags buf 0 p)) \<and>
         pipe_contents (snd (pipe_write_run flags buf 0 p)) = pipe_contents p @ take n buf"
proof (cases "buf \<noteq> [] \<and> pcount p < PIPE_SIZE")
  case True
  obtain p1 where p1: "pipe_put buf p = (n, p1)"
    by (auto simp: pipe_put_def Let_def n)
  from pipe_put_effect [OF ok p1] have e: "pipe_ok p1" "pcount p1 = pcount p + n"
    "pipe_contents p1 = pipe_contents p @ take n buf" "readers p1 \<noteq> 0"
    using rd by auto
  have "pipe_write_run flags buf 0 p = pipe_write_run flags buf n p1"
    using pipe_write_iter_put [of 0 buf p flags] rd True p1
    by (subst pipe_write_run.simps) simp
  moreover have "n < length buf \<Longrightarrow> pcount p1 = PIPE_SIZE"
    using n e(2) True by auto
  ultimately show ?thesis
    using pipe_write_run_end [OF e(4), of n buf flags] e n by auto
next
  case False
  moreover have "pcount p \<le> PIPE_SIZE" using ok by (simp add: pipe_ok_def)
  ultimately show ?thesis
    using pipe_write_run_end [OF rd, of 0 buf flags] ok n by auto
qed

subsection \<open>Any number of callers\<close>

datatype pthread = Idle | Reader u32 nat rd | Writer u32 "u8 list" wr

record pipe_sys =
  the_pipe :: pipe
  threads :: "nat \<Rightarrow> pthread"
  sent :: "u8 list"                    \<comment> \<open>every byte a writer put into the ring, in order\<close>
  got :: "u8 list"                     \<comment> \<open>every byte a reader returned, in order\<close>

fun finished :: "pthread \<Rightarrow> bool" where
  "finished Idle = True"
| "finished (Reader _ _ r) = (case r of RdRet _ _ \<Rightarrow> True | _ \<Rightarrow> False)"
| "finished (Writer _ _ w) = (case w of WrRet _ _ \<Rightarrow> True | _ \<Rightarrow> False)"

definition rd_bytes :: "rd \<Rightarrow> u8 list" where
  "rd_bytes r = (case r of RdRet _ bs \<Rightarrow> bs | _ \<Rightarrow> [])"

definition wr_bytes :: "u8 list \<Rightarrow> nat \<Rightarrow> wr \<Rightarrow> u8 list" where
  "wr_bytes buf d w = (case w of WrLoop d' \<Rightarrow> take (d' - d) (drop d buf) | _ \<Rightarrow> [])"

inductive pipe_step :: "pipe_sys \<Rightarrow> pipe_sys \<Rightarrow> bool" where
  call_read: "finished (threads s i) \<Longrightarrow>
    pipe_step s (s\<lparr>threads := (threads s)(i := Reader flags len (pipe_read_enter len))\<rparr>)"
| call_write: "finished (threads s i) \<Longrightarrow>
    pipe_step s (s\<lparr>threads := (threads s)(i := Writer flags buf (WrLoop 0))\<rparr>)"
| iter_read: "threads s i = Reader flags len RdLoop \<Longrightarrow> pipe_read_iter flags len (the_pipe s) = (r, p) \<Longrightarrow>
    pipe_step s (s\<lparr>the_pipe := p, threads := (threads s)(i := Reader flags len r), got := got s @ rd_bytes r\<rparr>)"
| read_wake: "threads s i = Reader flags len RdSleep \<Longrightarrow>
    pipe_step s (s\<lparr>threads := (threads s)(i := Reader flags len (pipe_read_wake sig (the_pipe s)))\<rparr>)"
| iter_write: "threads s i = Writer flags buf (WrLoop d) \<Longrightarrow> pipe_write_iter flags buf d (the_pipe s) = (w, p) \<Longrightarrow>
    pipe_step s (s\<lparr>the_pipe := p, threads := (threads s)(i := Writer flags buf w), sent := sent s @ wr_bytes buf d w\<rparr>)"
| write_wake: "threads s i = Writer flags buf (WrSleep d) \<Longrightarrow>
    pipe_step s (s\<lparr>threads := (threads s)(i := Writer flags buf (pipe_write_wake sig d (the_pipe s)))\<rparr>)"
| release: "pipe_release flags (the_pipe s) = (g, p) \<Longrightarrow> pipe_step s (s\<lparr>the_pipe := p\<rparr>)"

definition pipe_start :: "u8 list \<Rightarrow> pipe_sys \<Rightarrow> bool" where
  "pipe_start buf s \<longleftrightarrow> length buf = PIPE_SIZE \<and>
     pipe_create True True True True (Some buf) = Inr (the_pipe s) \<and>
     threads s = (\<lambda>_. Idle) \<and> sent s = [] \<and> got s = []"

definition stream_inv :: "pipe_sys \<Rightarrow> bool" where
  "stream_inv s \<longleftrightarrow> pipe_ok (the_pipe s) \<and> sent s = got s @ pipe_contents (the_pipe s)"

lemma pipe_read_iter_effect:
  assumes "pipe_ok p" and "pipe_read_iter flags len p = (r, p')"
  shows "pipe_ok p' \<and> pipe_contents p = rd_bytes r @ pipe_contents p'"
proof (cases "pcount p > 0")
  case True
  obtain bs q where g: "pipe_get len p = (bs, q)" by fastforce
  then show ?thesis
    using pipe_read_iter_get [OF True, of flags len] pipe_get_effect [OF assms(1) g] assms(2)
    by (auto simp: rd_bytes_def)
next
  case False
  then show ?thesis
    using assms by (auto simp: pipe_read_iter_def rd_bytes_def split: if_splits)
qed

lemma pipe_write_iter_effect:
  assumes "pipe_ok p" and "pipe_write_iter flags buf d p = (w, p')"
  shows "pipe_ok p' \<and> pipe_contents p' = pipe_contents p @ wr_bytes buf d w"
proof (cases "d < length buf \<and> readers p \<noteq> 0 \<and> pcount p < PIPE_SIZE")
  case True
  obtain n q where g: "pipe_put (drop d buf) p = (n, q)" by fastforce
  then show ?thesis
    using pipe_write_iter_put [of d buf p flags] pipe_put_effect [OF assms(1) g] assms(2) True
    by (auto simp: wr_bytes_def)
next
  case False
  then show ?thesis
    using assms by (auto simp: pipe_write_iter_def wr_bytes_def split: if_splits)
qed

lemma pipe_release_contents:
  assumes "pipe_release flags p = (g, p')"
  shows "pipe_ok p' = pipe_ok p \<and> pipe_contents p' = pipe_contents p"
  using assms by (auto simp: pipe_release_def Let_def pipe_ok_def pipe_contents_def split: if_splits)

lemma pipe_step_stream: "pipe_step s t \<Longrightarrow> stream_inv s \<Longrightarrow> stream_inv t"
proof (induction rule: pipe_step.induct)
  case (iter_read s i flags len r p)
  then show ?case using pipe_read_iter_effect [of "the_pipe s" flags len r p] by (auto simp: stream_inv_def)
next
  case (iter_write s i flags buf d w p)
  then show ?case using pipe_write_iter_effect [of "the_pipe s" flags buf d w p] by (auto simp: stream_inv_def)
next
  case (release flags s g p)
  then show ?case using pipe_release_contents [of flags "the_pipe s" g p] by (auto simp: stream_inv_def)
qed (simp_all add: stream_inv_def)

subsection \<open>Properties\<close>

text \<open>
  C5: a pipe is a reliable first-in first-out byte stream under every interleaving of any number of
  readers, writers, wake-ups, signals and closes: the bytes the writers put in are the bytes
  the readers returned followed by the bytes still in the ring, in order, none lost and none
  twice, and the ring never holds more than its size.
\<close>

theorem pipe_stream:
  assumes "pipe_start buf s0" and "pipe_step\<^sup>*\<^sup>* s0 s"
  shows "sent s = got s @ pipe_contents (the_pipe s) \<and> pcount (the_pipe s) \<le> PIPE_SIZE"
proof -
  from assms(1) have "the_pipe s0 = \<lparr>pbuf = buf, head = 0, tail = 0, pcount = 0, readers = 1, writers = 1\<rparr>"
    by (simp add: pipe_start_def pipe_create_def eq_commute)
  with assms(1) have "stream_inv s0"
    by (simp add: pipe_start_def stream_inv_def pipe_ok_def pipe_contents_def)
  with assms(2) have "stream_inv s"
    by (induction rule: rtranclp_induct) (auto intro: pipe_step_stream)
  then show ?thesis by (simp add: stream_inv_def pipe_ok_def)
qed

text \<open>
  C33: what a write call does when nobody interferes, on every branch. With no reader a call with data puts nothing
  in, fails with EPIPE and sends SIGPIPE (the flag of the result). Otherwise it puts in as much as fits, in
  order, after what the ring holds; it returns the full length when everything fitted, and
  otherwise a non-blocking call returns what it put in (or EAGAIN for nothing) and a blocking call
  goes to sleep with exactly the rest left to do. In particular the loop ends.
\<close>

theorem pipe_write_uninterrupted:
  assumes "pipe_ok p"
  shows "let n = (if readers p = 0 then 0 else min (length buf) (PIPE_SIZE - pcount p)); (w, p') = pipe_write_run flags buf 0 p
         in w = (if n = length buf then WrRet (int n) False
                 else if readers p = 0 then WrRet (- EPIPE) True
                 else if nonblocking flags then WrRet (if n \<noteq> 0 then int n else - EAGAIN) False
                 else WrSleep n) \<and>
            pipe_ok p' \<and> pipe_contents p' = pipe_contents p @ take n buf"
proof (cases "readers p = 0")
  case True
  then have "pipe_write_run flags buf 0 p = (if buf = [] then WrRet 0 False else WrRet (- EPIPE) True, p)"
    by (intro pipe_write_run_stop) (auto simp: pipe_write_iter_def)
  then show ?thesis using True assms by simp
next
  case False
  then show ?thesis
    using pipe_write_run_spec [where buf = buf and flags = flags, OF assms False refl] by (auto simp: Let_def split: prod.splits)
qed

text \<open>
  \<^verbatim>\<open>pipe_poll\<close> tells the truth: it reports an event at the read end exactly when a read
  would return instead of sleeping, and at the write end exactly when a write of at least one
  byte would make progress or fail instead of sleeping.
\<close>

theorem pipe_poll_ready:
  assumes "pipe_ok p"
  shows "pipe_poll flags p \<noteq> 0 \<longleftrightarrow>
         (if read_end flags then fst (pipe_read_iter 0 len p) \<noteq> RdSleep
          else fst (pipe_write_iter 0 (b # bs) 0 p) \<noteq> WrSleep 0)"
  using assms
  by (auto simp: pipe_poll_def pipe_read_iter_def pipe_write_iter_def nonblocking_def pipe_ok_def Let_def
      split: prod.splits)

subsection \<open>A concrete pipe\<close>

definition sample_pipe :: pipe where
  "sample_pipe = \<lparr>pbuf = replicate PIPE_SIZE 0, head = 0, tail = 0, pcount = 0, readers = 1, writers = 1\<rparr>"

definition sample_sys :: pipe_sys where
  "sample_sys = \<lparr>the_pipe = sample_pipe, threads = \<lambda>_. Idle, sent = [], got = []\<rparr>"

lemma sample_pipe_simps [simp]:
  "pipe_ok sample_pipe" "pipe_contents sample_pipe = []" "pcount sample_pipe = 0" "readers sample_pipe = 1"
  by (simp_all add: pipe_ok_def pipe_contents_def sample_pipe_def)

theorem pipe_stream_witness:
  "\<exists>s. pipe_step\<^sup>*\<^sup>* sample_sys s \<and> sent s = [7, 8] \<and> got s = [] \<and> pipe_contents (the_pipe s) = [7, 8]"
proof -
  define s1 where "s1 = sample_sys\<lparr>threads := (threads sample_sys)(0 := Writer 0 [7, 8] (WrLoop 0))\<rparr>"
  have 1: "pipe_step sample_sys s1"
    unfolding s1_def by (rule pipe_step.call_write) (simp add: sample_sys_def)
  obtain w p where wp: "pipe_write_iter 0 [7, 8] 0 (the_pipe s1) = (w, p)" by fastforce
  then have w: "w = WrLoop 2"
    by (auto simp: pipe_write_iter_def s1_def sample_sys_def sample_pipe_def PIPE_SIZE_def)
  define s2 where "s2 = s1\<lparr>the_pipe := p, threads := (threads s1)(0 := Writer 0 [7, 8] w), sent := sent s1 @ wr_bytes [7, 8] 0 w\<rparr>"
  have "pipe_step s1 s2"
    unfolding s2_def using wp by (rule pipe_step.iter_write [rotated]) (simp add: s1_def)
  then have r: "pipe_step\<^sup>*\<^sup>* sample_sys s2" using 1 by auto
  have st: "pipe_start (replicate PIPE_SIZE 0) sample_sys"
    by (simp add: pipe_start_def pipe_create_def sample_sys_def sample_pipe_def)
  have "sent s2 = [7, 8]" "got s2 = []"
    by (simp_all add: s2_def s1_def sample_sys_def w wr_bytes_def)
  then show ?thesis using pipe_stream [OF st r] r by auto
qed

theorem pipe_write_uninterrupted_witness:
  "fst (pipe_write_run 0 [7, 8] 0 sample_pipe) = WrRet 2 False \<and>
   pipe_contents (snd (pipe_write_run 0 [7, 8] 0 sample_pipe)) = [7, 8] \<and>
   fst (pipe_write_run 0 [7, 8] 0 (sample_pipe\<lparr>readers := 0\<rparr>)) = WrRet (- EPIPE) True"
proof -
  have "pipe_ok (sample_pipe\<lparr>readers := 0\<rparr>)" by (simp add: pipe_ok_def sample_pipe_def)
  then show ?thesis
    using pipe_write_uninterrupted [of sample_pipe "[7, 8]" 0]
      pipe_write_uninterrupted [of "sample_pipe\<lparr>readers := 0\<rparr>" "[7, 8]" 0]
    by (simp add: PIPE_SIZE_def Let_def case_prod_beta)
qed

theorem pipe_poll_ready_witness:
  "pipe_poll 0 sample_pipe = 0 \<and> fst (pipe_read_iter 0 4 sample_pipe) = RdSleep \<and>
   pipe_poll 1 sample_pipe \<noteq> 0 \<and> fst (pipe_write_iter 0 [7] 0 sample_pipe) \<noteq> WrSleep 0"
proof -
  have "read_end 0" and "\<not> read_end 1" by (simp_all add: read_end_def)
  moreover have "pipe_poll 0 sample_pipe = 0" and "pipe_poll 1 sample_pipe \<noteq> 0"
    by (simp_all add: pipe_poll_def read_end_def sample_pipe_def)
  ultimately show ?thesis
    using pipe_poll_ready [of sample_pipe 0 4] pipe_poll_ready [of sample_pipe 1 _ 7 "[]"] by simp
qed

end
