(* ===== verification/Eventfd.thy ===== *)
theory Eventfd
  imports Sic_Prelude
begin

text \<open>
  Event counters, \<^verbatim>\<open>kernel/fs/eventfd.c\<close>: a 64-bit counter that \<^verbatim>\<open>write\<close> adds to and
  \<^verbatim>\<open>read\<close> takes from, all of it or one at a time (EFD_SEMAPHORE). The counter is a
  64-bit word; the critical section of each call is one function. A call that cannot proceed
  sleeps until its condition holds.
\<close>

record eventfd =
  ev_val :: u64
  ev_flags :: u32

definition EVENTFD_MAX :: u64 where "EVENTFD_MAX = 0xfffffffffffffffe"
abbreviation EFD_SEMAPHORE :: u32 where "EFD_SEMAPHORE \<equiv> 1"
abbreviation EFD_CLOEXEC :: u32 where "EFD_CLOEXEC \<equiv> 0x80000"
abbreviation EFD_NONBLOCK :: u32 where "EFD_NONBLOCK \<equiv> 0x800"

text \<open>
  A call has returned (with the value a read stores in the caller's buffer) or sleeps.
\<close>

datatype ev_call = EvRet int u64 | EvSleep

definition eventfd_read :: "u32 \<Rightarrow> nat \<Rightarrow> eventfd \<Rightarrow> ev_call \<times> eventfd" where
  "eventfd_read fflags len ev =
     (if len < 8 then (EvRet (- EINVAL) 0, ev)
      else if ev_val ev > 0 then
        if ev_flags ev AND EFD_SEMAPHORE \<noteq> 0 then (EvRet 8 1, ev\<lparr>ev_val := ev_val ev - 1\<rparr>)
        else (EvRet 8 (ev_val ev), ev\<lparr>ev_val := 0\<rparr>)
      else if fflags AND O_NONBLOCK \<noteq> 0 then (EvRet (- EAGAIN) 0, ev)
      else (EvSleep, ev))"

definition eventfd_read_ready :: "eventfd \<Rightarrow> bool" where
  "eventfd_read_ready ev \<longleftrightarrow> ev_val ev > 0"

definition eventfd_write :: "u32 \<Rightarrow> u64 \<Rightarrow> nat \<Rightarrow> eventfd \<Rightarrow> ev_call \<times> eventfd" where
  "eventfd_write fflags add len ev =
     (if len < 8 then (EvRet (- EINVAL) 0, ev)
      else if add = 0xffffffffffffffff then (EvRet (- EINVAL) 0, ev)
      else if EVENTFD_MAX - ev_val ev \<ge> add then (EvRet 8 0, ev\<lparr>ev_val := ev_val ev + add\<rparr>)
      else if fflags AND O_NONBLOCK \<noteq> 0 then (EvRet (- EAGAIN) 0, ev)
      else (EvSleep, ev))"

definition eventfd_write_ready :: "u64 \<Rightarrow> eventfd \<Rightarrow> bool" where
  "eventfd_write_ready add ev \<longleftrightarrow> EVENTFD_MAX - ev_val ev \<ge> add"

definition eventfd_poll :: "eventfd \<Rightarrow> u32" where
  "eventfd_poll ev =
     (if ev_val ev > 0 then POLLIN else 0) OR (if ev_val ev < EVENTFD_MAX then POLLOUT else 0)"

text \<open>
  \<open>mem_ok\<close> says that the three allocations succeeded; the result is the counter and the flags of
  the new open file.
\<close>

definition eventfd_create :: "u32 \<Rightarrow> u32 \<Rightarrow> bool \<Rightarrow> int + eventfd \<times> u32" where
  "eventfd_create initval flags mem_ok =
     (if flags AND NOT (EFD_SEMAPHORE OR EFD_CLOEXEC OR EFD_NONBLOCK) \<noteq> 0 then Inl (- EINVAL)
      else if \<not> mem_ok then Inl (- ENOMEM)
      else Inr (\<lparr>ev_val = ucast initval, ev_flags = flags\<rparr>,
                2 OR (if flags AND EFD_NONBLOCK \<noteq> 0 then O_NONBLOCK else 0)))"

subsection \<open>Histories\<close>

text \<open>
  A sequence of critical sections, \<open>Inl\<close> a write of a value and \<open>Inr\<close> a read, by any
  callers: the values accepted and the values returned.
\<close>

fun ev_run :: "(u64 + unit) list \<Rightarrow> eventfd \<Rightarrow> u64 list \<times> u64 list \<times> eventfd" where
  "ev_run [] ev = ([], [], ev)"
| "ev_run (Inl a # ops) ev =
     (let (r, ev1) = eventfd_write 0 a 8 ev; (i, out, ev2) = ev_run ops ev1
      in ((if r = EvRet 8 0 then [a] else []) @ i, out, ev2))"
| "ev_run (Inr u # ops) ev =
     (let (r, ev1) = eventfd_read 0 8 ev; (i, out, ev2) = ev_run ops ev1
      in (i, (case r of EvRet n v \<Rightarrow> [v] | EvSleep \<Rightarrow> []) @ out, ev2))"

definition ev_ok :: "eventfd \<Rightarrow> bool" where
  "ev_ok ev \<longleftrightarrow> ev_val ev \<le> EVENTFD_MAX"

lemma ev_add_nat:
  assumes "v \<le> EVENTFD_MAX" and "a \<le> EVENTFD_MAX - v"
  shows "unat (v + a) = unat v + unat a" and "v + a \<le> EVENTFD_MAX"
proof -
  have m: "unat EVENTFD_MAX = 0xfffffffffffffffe" by (simp add: EVENTFD_MAX_def)
  have "unat (EVENTFD_MAX - v) = unat EVENTFD_MAX - unat v"
    using assms(1) by (simp add: unat_sub)
  with assms(2) have "unat a + unat v \<le> unat EVENTFD_MAX"
    using assms(1) by (simp add: word_le_nat_alt)
  with m have "unat v + unat a < 2 ^ LENGTH(64)" by simp
  then show "unat (v + a) = unat v + unat a"
    by (simp only: unat_add_lem)
  then show "v + a \<le> EVENTFD_MAX"
    using \<open>unat a + unat v \<le> unat EVENTFD_MAX\<close> by (simp add: word_le_nat_alt)
qed

lemma ev_write_effect:
  assumes "ev_ok ev" and "eventfd_write fl a len ev = (r, ev')"
  shows "ev_ok ev' \<and> unat (ev_val ev') = unat (ev_val ev) + (if r = EvRet 8 0 then unat a else 0)"
  using assms ev_add_nat [of "ev_val ev" a]
  by (auto simp: eventfd_write_def ev_ok_def split: if_splits)

lemma ev_read_effect:
  assumes "ev_ok ev" and "eventfd_read fl len ev = (r, ev')"
  shows "ev_ok ev' \<and> unat (ev_val ev) = unat (ev_val ev') + (case r of EvRet n v \<Rightarrow> unat v | EvSleep \<Rightarrow> 0)"
proof -
  have "unat (ev_val ev - 1) = unat (ev_val ev) - 1" "ev_val ev - 1 \<le> ev_val ev" "0 < unat (ev_val ev)"
    if "ev_val ev > 0"
    using that by (auto simp: unat_minus_one word_neq_0_conv unat_gt_0 word_le_nat_alt)
  then show ?thesis
    using assms by (auto simp: eventfd_read_def ev_ok_def split: if_splits)
qed

text \<open>
  C36: an event counter never overflows and never loses an event: in every history of reads and writes
  the initial value plus everything the writes added is everything the reads returned plus the
  value left, as natural numbers, and the counter stays at most EVENTFD_MAX.
\<close>

theorem eventfd_conservation:
  assumes "eventfd_create initval flags True = Inr (ev, fl)" and "ev_run ops ev = (i, out, ev')"
  shows "unat initval + sum_list (map unat i) = sum_list (map unat out) + unat (ev_val ev') \<and>
         ev_val ev' \<le> EVENTFD_MAX"
proof -
  have step: "ev_ok e' \<and> unat (ev_val e) + sum_list (map unat i) = sum_list (map unat out) + unat (ev_val e')"
    if "ev_ok e" "ev_run ops e = (i, out, e')" for e e' i out
    using that
  proof (induction ops arbitrary: e i out)
    case (Cons op ops)
    show ?case
    proof (cases op)
      case (Inl a)
      obtain r e1 i1 where w: "eventfd_write 0 a 8 e = (r, e1)" and q: "ev_run ops e1 = (i1, out, e')"
        and i: "i = (if r = EvRet 8 0 then [a] else []) @ i1"
        using Cons.prems(2) Inl by (auto split: prod.splits)
      show ?thesis
        using ev_write_effect [OF Cons.prems(1) w] Cons.IH [OF _ q] i by (auto split: if_splits)
    next
      case (Inr u)
      obtain r e1 o1 where w: "eventfd_read 0 8 e = (r, e1)" and q: "ev_run ops e1 = (i, o1, e')"
        and o: "out = (case r of EvRet n v \<Rightarrow> [v] | EvSleep \<Rightarrow> []) @ o1"
        using Cons.prems(2) Inr by (auto split: prod.splits)
      show ?thesis
        using ev_read_effect [OF Cons.prems(1) w] Cons.IH [OF _ q] o by (auto split: ev_call.splits)
    qed
  qed simp
  have ev: "ev_val ev = ucast initval"
    using assms(1) by (auto simp: eventfd_create_def split: if_splits)
  have b: "unat initval < 2 ^ 32" using unsigned_less [of initval, where ?'a = nat] by simp
  moreover from b have "unat (ucast initval :: u64) = unat initval"
    by (simp add: unsigned_ucast_eq take_bit_nat_eq_self)
  ultimately have "ev_ok ev"
    using ev by (simp add: ev_ok_def word_le_nat_alt EVENTFD_MAX_def)
  from step [OF this assms(2)] show ?thesis
    using ev \<open>unat (ucast initval :: u64) = unat initval\<close> by (simp add: ev_ok_def)
qed

theorem eventfd_conservation_witness:
  "eventfd_create 3 EFD_SEMAPHORE True = Inr (\<lparr>ev_val = 3, ev_flags = 1\<rparr>, 2) \<and>
   ev_run [Inr (), Inl 5, Inr ()] \<lparr>ev_val = 3, ev_flags = 1\<rparr> = ([5], [1, 1], \<lparr>ev_val = 6, ev_flags = 1\<rparr>) \<and>
   unat (3 :: u32) + sum_list (map unat [5 :: u64]) = sum_list (map unat [1, 1 :: u64]) + unat (6 :: u64)"
proof -
  have c: "eventfd_create 3 EFD_SEMAPHORE True = Inr (\<lparr>ev_val = 3, ev_flags = 1\<rparr>, 2)"
    by (simp add: eventfd_create_def)
  have r: "ev_run [Inr (), Inl 5, Inr ()] \<lparr>ev_val = 3, ev_flags = 1\<rparr> = ([5], [1, 1], \<lparr>ev_val = 6, ev_flags = 1\<rparr>)"
    by (simp add: eventfd_read_def eventfd_write_def EVENTFD_MAX_def)
  show ?thesis using eventfd_conservation [OF c r] c r by simp
qed

end
