(* ===== verification/Pty.thy ===== *)
theory Pty
  imports Ring
begin

text \<open>
  Pseudo-terminals, \<^verbatim>\<open>kernel/drivers/pty.c\<close>: the table of 32 terminals, the two rings between a
  master and its slave, the canonical-mode line editor, the output translation of newlines, and the
  life cycle of a terminal. The termios bits are those of x86-64 and AArch64 (the PowerPC values
  of the \<^verbatim>\<open>#ifdef\<close> differ only in their position). Signals for the foreground process
  group are recorded as pairs of the group and the signal number in the order they are sent; wake-ups
  of the two wait queues as flags. User-memory checks of the ioctl handlers are not modelled: the
  handlers are the updates they make.
\<close>

subsection \<open>The state\<close>

definition PTY_BUF_SIZE :: nat where "PTY_BUF_SIZE = 4096"
abbreviation MAX_PTYS :: nat where "MAX_PTYS \<equiv> 32"
abbreviation CANON_BUF :: nat where "CANON_BUF \<equiv> 512"

record pty_ring =
  rbuf :: "u8 list"
  rhead :: nat
  rtail :: nat
  rcount :: nat

record termios =
  c_iflag :: u32
  c_oflag :: u32
  c_cflag :: u32
  c_lflag :: u32
  c_line :: u8
  c_cc :: "u8 list"
  c_ispeed :: u32
  c_ospeed :: u32

record winsize =
  ws_row :: u16
  ws_col :: u16
  ws_xpixel :: u16
  ws_ypixel :: u16

record pty =
  index :: nat
  active :: bool
  locked :: bool
  master_open :: bool
  slave_open :: nat
  eof_pending :: bool
  fg_pgid :: u32
  ws :: winsize
  tio :: termios
  canon_buf :: "u8 list"
  canon_len :: nat
  to_slave :: pty_ring
  to_master :: pty_ring

abbreviation SIGHUP :: nat where "SIGHUP \<equiv> 1"
abbreviation SIGINT :: nat where "SIGINT \<equiv> 2"
abbreviation SIGQUIT :: nat where "SIGQUIT \<equiv> 3"
abbreviation SIGTSTP :: nat where "SIGTSTP \<equiv> 20"
abbreviation SIGWINCH :: nat where "SIGWINCH \<equiv> 28"

subsection \<open>Rings\<close>

definition ring_space :: "pty_ring \<Rightarrow> nat" where
  "ring_space r = PTY_BUF_SIZE - rcount r"

definition ring_push :: "u8 \<Rightarrow> pty_ring \<Rightarrow> pty_ring" where
  "ring_push ch r =
     (if rcount r < PTY_BUF_SIZE then
        r\<lparr>rbuf := (rbuf r)[rhead r := ch], rhead := (rhead r + 1) mod PTY_BUF_SIZE, rcount := rcount r + 1\<rparr>
      else r)"

definition ring_pop :: "pty_ring \<Rightarrow> u8 \<times> pty_ring" where
  "ring_pop r =
     (rbuf r ! rtail r, r\<lparr>rtail := (rtail r + 1) mod PTY_BUF_SIZE, rcount := rcount r - 1\<rparr>)"

text \<open>The loops that push a block or pop \<open>n\<close> bytes.\<close>

definition ring_pushes :: "u8 list \<Rightarrow> pty_ring \<Rightarrow> pty_ring" where
  "ring_pushes bs r = fold ring_push bs r"

fun ring_pops :: "nat \<Rightarrow> pty_ring \<Rightarrow> u8 list \<times> pty_ring" where
  "ring_pops 0 r = ([], r)"
| "ring_pops (Suc n) r =
     (let (b, r1) = ring_pop r; (bs, r2) = ring_pops n r1 in (b # bs, r2))"

definition empty_ring :: pty_ring where
  "empty_ring = \<lparr>rbuf = replicate PTY_BUF_SIZE 0, rhead = 0, rtail = 0, rcount = 0\<rparr>"

subsection \<open>Modes\<close>

definition is_canon :: "pty \<Rightarrow> bool" where "is_canon p \<longleftrightarrow> c_lflag (tio p) AND 2 \<noteq> 0"
definition is_echo :: "pty \<Rightarrow> bool" where "is_echo p \<longleftrightarrow> c_lflag (tio p) AND 8 \<noteq> 0"
definition is_sig :: "pty \<Rightarrow> bool" where "is_sig p \<longleftrightarrow> c_lflag (tio p) AND 1 \<noteq> 0"
definition is_icrnl :: "pty \<Rightarrow> bool" where "is_icrnl p \<longleftrightarrow> c_iflag (tio p) AND 0x100 \<noteq> 0"
definition is_onlcr :: "pty \<Rightarrow> bool" where "is_onlcr p \<longleftrightarrow> c_oflag (tio p) AND 4 \<noteq> 0"

subsection \<open>The master side\<close>

definition fresh_pty :: "nat \<Rightarrow> pty" where
  "fresh_pty idx =
     \<lparr>index = idx, active = True, locked = True, master_open = True, slave_open = 0, eof_pending = False,
      fg_pgid = 0, ws = \<lparr>ws_row = 24, ws_col = 80, ws_xpixel = 0, ws_ypixel = 0\<rparr>,
      tio = \<lparr>c_iflag = 0x100, c_oflag = 0x5, c_cflag = 0xbf, c_lflag = 0x01 OR 0x02 OR 0x08, c_line = 0,
             c_cc = (replicate 32 0)[10 := 26, 0 := 3, 1 := 28, 2 := 127, 3 := 21, 4 := 4],
             c_ispeed = 0, c_ospeed = 0\<rparr>,
      canon_buf = replicate CANON_BUF 0, canon_len = 0, to_slave = empty_ring, to_master = empty_ring\<rparr>"

definition ptmx_open :: "pty list \<Rightarrow> int + nat \<times> pty list" where
  "ptmx_open ptys =
     (case find (\<lambda>i. \<not> active (ptys ! i)) [0 ..< MAX_PTYS] of
        None \<Rightarrow> Inl (- ENOSPC)
      | Some idx \<Rightarrow> Inr (idx, ptys[idx := fresh_pty idx]))"

definition ptmx_release :: "pty \<Rightarrow> (u32 \<times> nat) list \<times> pty" where
  "ptmx_release p =
     (let p1 = p\<lparr>master_open := False\<rparr>;
          p2 = (if slave_open p1 = 0 then p1\<lparr>active := False\<rparr> else p1)
      in (if fg_pgid p > 0 then [(fg_pgid p, SIGHUP)] else [], p2))"

text \<open>
  One pass through the loop of a read: the bytes it returns, or the (possibly zero or negative) value
  it returns without bytes, or a sleep.
\<close>

datatype io = IoData "u8 list" | IoRet int | IoSleep

definition ptmx_read :: "bool \<Rightarrow> nat \<Rightarrow> pty \<Rightarrow> io \<times> pty" where
  "ptmx_read nonblock len p =
     (if len = 0 then (IoRet 0, p)
      else if rcount (to_master p) > 0 then
        let n = (if len < rcount (to_master p) then len else rcount (to_master p));
            (bs, r) = ring_pops n (to_master p)
        in (IoData bs, p\<lparr>to_master := r\<rparr>)
      else if slave_open p = 0 then (IoRet 0, p)
      else if nonblock then (IoRet (- EAGAIN), p)
      else (IoSleep, p))"

text \<open>
  Raw mode: one pass through the write loop with \<open>d\<close> bytes done; the flag says whether to go round again.
\<close>

datatype wio = WLoop nat | WSleep nat | WRet int

definition raw_push :: "bool \<Rightarrow> u8 \<Rightarrow> pty \<Rightarrow> pty" where
  "raw_push echo c p =
     (let p1 = (if echo then p\<lparr>to_master := ring_push c (to_master p)\<rparr> else p)
      in p1\<lparr>to_slave := ring_push c (to_slave p1)\<rparr>)"

definition ptmx_write_raw :: "bool \<Rightarrow> bool \<Rightarrow> u8 list \<Rightarrow> nat \<Rightarrow> pty \<Rightarrow> wio \<times> pty" where
  "ptmx_write_raw nonblock echo buf d p =
     (if \<not> d < length buf then (WRet (int d), p)
      else if slave_open p = 0 then (WRet (if d \<noteq> 0 then int d else - EIO), p)
      else let sp = ring_space (to_slave p)
           in if sp > 0 then
                let n = (if length buf - d < sp then length buf - d else sp)
                in (WLoop (d + n), fold (raw_push echo) (take n (drop d buf)) p)
              else if nonblock then (WRet (if d \<noteq> 0 then int d else - EAGAIN), p)
              else (WSleep d, p))"

text \<open>The state of the canonical loop: the terminal, its two wake-up flags and the signals sent.\<close>

record canon =
  cpty :: pty
  echoed :: bool
  flushed :: bool
  csigs :: "(u32 \<times> nat) list"

definition echo_out :: "bool \<Rightarrow> u8 list \<Rightarrow> canon \<Rightarrow> canon" where
  "echo_out echo bs s =
     (if echo then s\<lparr>cpty := (cpty s)\<lparr>to_master := ring_pushes bs (to_master (cpty s))\<rparr>, echoed := True\<rparr>
      else s)"

definition send_fg :: "nat \<Rightarrow> canon \<Rightarrow> canon" where
  "send_fg sig s = (if fg_pgid (cpty s) > 0 then s\<lparr>csigs := csigs s @ [(fg_pgid (cpty s), sig)]\<rparr> else s)"

definition canon_flush :: "canon \<Rightarrow> canon" where
  "canon_flush s =
     (let p = cpty s
      in s\<lparr>cpty := p\<lparr>to_slave := ring_pushes (take (canon_len p) (canon_buf p)) (to_slave p), canon_len := 0\<rparr>,
           flushed := True\<rparr>)"

definition canon_kill :: "bool \<Rightarrow> u8 \<Rightarrow> nat \<Rightarrow> canon \<Rightarrow> canon" where
  "canon_kill echo ch sig s =
     (let s1 = echo_out echo [94, ch, 10] s
      in send_fg sig (s1\<lparr>cpty := (cpty s1)\<lparr>canon_len := 0\<rparr>\<rparr>))"

definition canon_char :: "bool \<Rightarrow> bool \<Rightarrow> u8 \<Rightarrow> canon \<Rightarrow> canon" where
  "canon_char echo sig c0 s =
     (if sig \<and> c0 = 3 then canon_kill echo 67 SIGINT s
      else if sig \<and> c0 = 26 then canon_kill echo 90 SIGTSTP s
      else if sig \<and> c0 = 28 then canon_kill echo 92 SIGQUIT s
      else let c = (if c0 = 13 \<and> is_icrnl (cpty s) then 10 else c0)
      in if c = 8 \<or> c = 127 then
           if canon_len (cpty s) > 0
           then echo_out echo [8, 32, 8] (s\<lparr>cpty := (cpty s)\<lparr>canon_len := canon_len (cpty s) - 1\<rparr>\<rparr>)
           else s
         else if c = 4 then
           if canon_len (cpty s) > 0 then canon_flush s
           else s\<lparr>cpty := (cpty s)\<lparr>eof_pending := True\<rparr>, flushed := True\<rparr>
         else
           let s1 = echo_out echo (if c = 10 then [13, 10] else [c]) s;
               p = cpty s1;
               s2 = (if canon_len p < CANON_BUF - 1
                     then s1\<lparr>cpty := p\<lparr>canon_buf := (canon_buf p)[canon_len p := c], canon_len := canon_len p + 1\<rparr>\<rparr>
                     else s1)
           in if c = 10 \<or> canon_len (cpty s2) \<ge> CANON_BUF - 1 then canon_flush s2 else s2)"

definition ptmx_write_canon :: "bool \<Rightarrow> bool \<Rightarrow> u8 list \<Rightarrow> pty \<Rightarrow> int \<times> canon" where
  "ptmx_write_canon echo sig buf p =
     (let s0 = \<lparr>cpty = p, echoed = False, flushed = False, csigs = []\<rparr>
      in if slave_open p = 0 then (- EIO, s0)
         else (int (length buf), fold (canon_char echo sig) buf s0))"

definition ptmx_poll :: "pty \<Rightarrow> u32" where
  "ptmx_poll p =
     (if rcount (to_master p) > 0 then POLLIN else 0) OR (if slave_open p = 0 then POLLHUP else 0) OR
     (if slave_open p > 0 \<and> ring_space (to_slave p) > 0 then POLLOUT else 0)"

text \<open>TIOCSPTLCK and TIOCSWINSZ of \<^verbatim>\<open>ptmx_ioctl\<close> (the latter also of \<^verbatim>\<open>pts_ioctl\<close>).\<close>

definition ptmx_lock :: "bool \<Rightarrow> pty \<Rightarrow> pty" where
  "ptmx_lock l p = p\<lparr>locked := l\<rparr>"

definition set_winsize :: "winsize \<Rightarrow> pty \<Rightarrow> (u32 \<times> nat) list \<times> pty" where
  "set_winsize w p = (if fg_pgid p > 0 then [(fg_pgid p, SIGWINCH)] else [], p\<lparr>ws := w\<rparr>)"

subsection \<open>The slave side\<close>

definition pts_open :: "nat \<Rightarrow> pty list \<Rightarrow> int + pty list" where
  "pts_open idx ptys =
     (if idx \<ge> MAX_PTYS then Inl (- ENODEV)
      else let p = ptys ! idx
           in if \<not> active p \<or> locked p then Inl (- EIO)
              else Inr (ptys[idx := p\<lparr>slave_open := slave_open p + 1\<rparr>]))"

definition pts_release :: "pty \<Rightarrow> pty" where
  "pts_release p =
     (let p1 = (if slave_open p > 0 then p\<lparr>slave_open := slave_open p - 1\<rparr> else p)
      in if \<not> master_open p1 \<and> slave_open p1 = 0 then p1\<lparr>active := False\<rparr> else p1)"

definition pts_read :: "bool \<Rightarrow> nat \<Rightarrow> pty \<Rightarrow> io \<times> pty" where
  "pts_read nonblock len p =
     (if len = 0 then (IoRet 0, p)
      else if rcount (to_slave p) > 0 then
        let n = (if len < rcount (to_slave p) then len else rcount (to_slave p));
            (bs, r) = ring_pops n (to_slave p)
        in (IoData bs, p\<lparr>to_slave := r\<rparr>)
      else if eof_pending p then (IoRet 0, p\<lparr>eof_pending := False\<rparr>)
      else if \<not> master_open p then (IoRet 0, p)
      else if nonblock then (IoRet (- EAGAIN), p)
      else (IoSleep, p))"

definition onlcr_push :: "bool \<Rightarrow> u8 \<Rightarrow> pty_ring \<Rightarrow> pty_ring" where
  "onlcr_push onlcr c r =
     (if c = 10 \<and> onlcr then
        if ring_space r \<ge> 2 then ring_push 10 (ring_push 13 r) else ring_push 10 r
      else ring_push c r)"

definition pts_write :: "bool \<Rightarrow> u8 list \<Rightarrow> nat \<Rightarrow> pty \<Rightarrow> wio \<times> pty" where
  "pts_write nonblock buf d p =
     (if \<not> d < length buf then (WRet (int d), p)
      else if \<not> master_open p then (WRet (if d \<noteq> 0 then int d else - EIO), p)
      else let sp = ring_space (to_master p)
           in if sp > 0 then
                let n = (if length buf - d < sp then length buf - d else sp)
                in (WLoop (d + n),
                    p\<lparr>to_master := fold (onlcr_push (is_onlcr p)) (take n (drop d buf)) (to_master p)\<rparr>)
              else if nonblock then (WRet (if d \<noteq> 0 then int d else - EAGAIN), p)
              else (WSleep d, p))"

definition pts_poll :: "pty \<Rightarrow> u32" where
  "pts_poll p =
     (if rcount (to_slave p) > 0 \<or> eof_pending p then POLLIN else 0) OR
     (if \<not> master_open p then POLLHUP else 0) OR
     (if master_open p \<and> ring_space (to_master p) > 0 then POLLOUT else 0)"

text \<open>TCSETS and TIOCSPGRP of \<^verbatim>\<open>pts_ioctl\<close>.\<close>

definition pts_set_termios :: "termios \<Rightarrow> pty \<Rightarrow> pty" where
  "pts_set_termios t p = p\<lparr>tio := t\<rparr>"

definition pts_set_pgrp :: "u32 \<Rightarrow> pty \<Rightarrow> pty" where
  "pts_set_pgrp fg p = p\<lparr>fg_pgid := fg\<rparr>"

subsection \<open>The rings are bounded queues\<close>

definition ring_ok :: "pty_ring \<Rightarrow> bool" where
  "ring_ok r \<longleftrightarrow> length (rbuf r) = PTY_BUF_SIZE \<and> rtail r < PTY_BUF_SIZE \<and> rcount r \<le> PTY_BUF_SIZE \<and>
     rhead r = (rtail r + rcount r) mod PTY_BUF_SIZE"

definition ring_contents :: "pty_ring \<Rightarrow> u8 list" where
  "ring_contents r = ring_list (rbuf r) (rtail r) (rcount r)"

lemma ring_contents_length [simp]: "length (ring_contents r) = rcount r"
  by (simp add: ring_contents_def)

lemma PTY_BUF_SIZE_pos [simp]: "0 < PTY_BUF_SIZE"
  by (simp add: PTY_BUF_SIZE_def)

lemma ring_push_effect:
  assumes "ring_ok r"
  shows "ring_ok (ring_push c r) \<and> ring_contents (ring_push c r) = take PTY_BUF_SIZE (ring_contents r @ [c])"
  using assms ring_list_push [of "rcount r" "rbuf r" "rtail r" c]
  by (auto simp: ring_push_def ring_ok_def ring_contents_def mod_Suc_eq)

lemma take_take_append [simp]: "take n (take n xs @ ys) = take n (xs @ ys)"
  by (cases "length xs \<le> n") auto

lemma ring_pushes_effect:
  assumes "ring_ok r"
  shows "ring_ok (ring_pushes bs r) \<and> ring_contents (ring_pushes bs r) = take PTY_BUF_SIZE (ring_contents r @ bs)"
  using assms
proof (induction bs arbitrary: r)
  case Nil
  then show ?case by (simp add: ring_pushes_def ring_ok_def)
next
  case (Cons b bs)
  then show ?case
    using ring_push_effect [OF Cons.prems, of b] by (simp add: ring_pushes_def del: take_append)
qed

lemma ring_pops_effect:
  assumes "ring_ok r" and "n \<le> rcount r" and "ring_pops n r = (bs, r')"
  shows "ring_ok r' \<and> bs = take n (ring_contents r) \<and> ring_contents r' = drop n (ring_contents r)"
  using assms
proof (induction n arbitrary: r bs)
  case 0
  then show ?case by simp
next
  case (Suc n)
  obtain m where m: "rcount r = Suc m" using Suc.prems(2) by (cases "rcount r") auto
  define r1 where "r1 = r\<lparr>rtail := (rtail r + 1) mod PTY_BUF_SIZE, rcount := rcount r - 1\<rparr>"
  have ok: "ring_ok r1"
    using Suc.prems(1) m by (simp add: ring_ok_def r1_def mod_add_left_eq)
  have c: "ring_contents r = rbuf r ! rtail r # ring_contents r1"
    using Suc.prems(1) m ring_list_mod [of "rbuf r" "Suc (rtail r)" m]
    by (simp add: ring_contents_def r1_def ring_list_Suc ring_ok_def)
  obtain cs where cs: "ring_pops n r1 = (cs, r')" and bs: "bs = rbuf r ! rtail r # cs"
    using Suc.prems(3) by (auto simp: ring_pop_def r1_def split: prod.splits)
  have "n \<le> rcount r1" using Suc.prems(2) by (simp add: r1_def)
  from Suc.IH [OF ok this cs] show ?case using c bs by simp
qed

definition pty_put :: "u8 list \<Rightarrow> pty_ring \<Rightarrow> nat \<times> pty_ring" where
  "pty_put bs r = (let n = min (length bs) (ring_space r) in (n, ring_pushes (take n bs) r))"

definition pty_get :: "nat \<Rightarrow> pty_ring \<Rightarrow> u8 list \<times> pty_ring" where
  "pty_get k r = ring_pops (min k (rcount r)) r"

interpretation pty_fifo: fifo ring_ok ring_contents PTY_BUF_SIZE pty_put pty_get
proof
  show "length (ring_contents r) \<le> PTY_BUF_SIZE" if "ring_ok r" for r
    using that by (simp add: ring_ok_def)
next
  show "ring_ok r' \<and> n = min (length xs) (PTY_BUF_SIZE - length (ring_contents r)) \<and>
        ring_contents r' = ring_contents r @ take n xs"
    if "ring_ok r" and "pty_put xs r = (n, r')" for r xs n r'
    using that ring_pushes_effect [OF that(1), of "take n xs"]
    by (auto simp: pty_put_def Let_def ring_space_def ring_ok_def)
next
  show "ring_ok r' \<and> ys = take k (ring_contents r) \<and> ring_contents r' = drop k (ring_contents r)"
    if "ring_ok r" and "pty_get k r = (ys, r')" for r k ys r'
    using ring_pops_effect [OF that(1), of "min k (rcount r)" ys r'] that
    by (simp add: pty_get_def min_def split: if_splits)
qed

subsection \<open>The line editor\<close>

text \<open>
  The specification of canonical mode: the line being edited, the bytes delivered to the reader
  and the end-of-file mark, as plain lists.
\<close>

record editor =
  line :: "u8 list"
  out :: "u8 list"
  eof :: bool

definition edit_char :: "bool \<Rightarrow> bool \<Rightarrow> u8 \<Rightarrow> editor \<Rightarrow> editor" where
  "edit_char sig icrnl c0 e =
     (if sig \<and> c0 \<in> {3, 26, 28} then e\<lparr>line := []\<rparr>
      else let c = (if c0 = 13 \<and> icrnl then 10 else c0)
      in if c \<in> {8, 127} then e\<lparr>line := butlast (line e)\<rparr>
         else if c = 4 then
           if line e \<noteq> [] then e\<lparr>line := [], out := out e @ line e\<rparr> else e\<lparr>eof := True\<rparr>
         else let l = line e @ [c]
              in if c = 10 \<or> length l = 511 then e\<lparr>line := [], out := out e @ l\<rparr> else e\<lparr>line := l\<rparr>)"

text \<open>What the reader of \<open>p0\<close>'s slave gets is a prefix of the specification's output: what fits in the ring.\<close>

definition edits :: "u8 list \<Rightarrow> canon \<Rightarrow> editor \<Rightarrow> bool" where
  "edits old s e \<longleftrightarrow> ring_ok (to_slave (cpty s)) \<and> length (canon_buf (cpty s)) = CANON_BUF \<and>
     canon_len (cpty s) < 511 \<and> line e = take (canon_len (cpty s)) (canon_buf (cpty s)) \<and>
     ring_contents (to_slave (cpty s)) = take PTY_BUF_SIZE (old @ out e) \<and> eof e = eof_pending (cpty s)"

lemma editor_frame [simp]:
  "to_slave (cpty (echo_out b bs s)) = to_slave (cpty s)"
  "canon_buf (cpty (echo_out b bs s)) = canon_buf (cpty s)"
  "canon_len (cpty (echo_out b bs s)) = canon_len (cpty s)"
  "eof_pending (cpty (echo_out b bs s)) = eof_pending (cpty s)"
  "tio (cpty (echo_out b bs s)) = tio (cpty s)"
  "cpty (send_fg sg s) = cpty s"
  by (auto simp: echo_out_def send_fg_def)

lemma edits_flush:
  assumes "ring_ok (to_slave (cpty s))" and "length (canon_buf (cpty s)) = CANON_BUF"
    and "ring_contents (to_slave (cpty s)) = take PTY_BUF_SIZE (old @ out e)" and "eof e = eof_pending (cpty s)"
    and "l = take (canon_len (cpty s)) (canon_buf (cpty s))"
  shows "edits old (canon_flush s) (e\<lparr>line := [], out := out e @ l\<rparr>)"
proof -
  have "ring_contents (ring_pushes l (to_slave (cpty s))) = take PTY_BUF_SIZE (old @ out e @ l)"
    using ring_pushes_effect [OF assms(1), of l] assms(3) by (simp del: take_append)
  then show ?thesis
    using assms ring_pushes_effect [OF assms(1), of l]
    by (simp add: edits_def canon_flush_def Let_def del: take_append)
qed

lemma edits_kill: "edits old s e \<Longrightarrow> edits old (canon_kill echo ch sg s) (e\<lparr>line := []\<rparr>)"
  by (simp add: edits_def canon_kill_def Let_def)

lemma canon_char_edits:
  assumes "edits old s e" and "icrnl = is_icrnl (cpty s)"
  shows "edits old (canon_char echo sig c s) (edit_char sig icrnl c e)"
proof -
  define ch where "ch = (if c = 13 \<and> icrnl then 10 else c)"
  have e: "ring_ok (to_slave (cpty s))" "length (canon_buf (cpty s)) = CANON_BUF" "canon_len (cpty s) < 511"
    "line e = take (canon_len (cpty s)) (canon_buf (cpty s))"
    "ring_contents (to_slave (cpty s)) = take PTY_BUF_SIZE (old @ out e)" "eof e = eof_pending (cpty s)"
    using assms(1) by (auto simp: edits_def)
  note defs = canon_char_def edit_char_def Let_def assms(2) [symmetric] ch_def [symmetric]
  consider (kill) "sig \<and> c \<in> {3, 26, 28}" | (erase) "\<not> (sig \<and> c \<in> {3, 26, 28})" "ch \<in> {8, 127}"
    | (eof) "\<not> (sig \<and> c \<in> {3, 26, 28})" "ch = 4"
    | (other) "\<not> (sig \<and> c \<in> {3, 26, 28})" "ch \<notin> {8, 127, 4}"
    by blast
  then show ?thesis
  proof cases
    case kill
    then have "edit_char sig icrnl c e = e\<lparr>line := []\<rparr>"
      by (simp add: edit_char_def)
    moreover from kill obtain k sg where "canon_char echo sig c s = canon_kill echo k sg s"
      by (auto simp: canon_char_def)
    ultimately show ?thesis
      using edits_kill [OF assms(1)] by simp
  next
    case erase
    have "butlast (line e) = take (canon_len (cpty s) - 1) (canon_buf (cpty s))"
      using e by (simp add: butlast_take)
    moreover have "canon_char echo sig c s =
        (if canon_len (cpty s) > 0
         then echo_out echo [8, 32, 8] (s\<lparr>cpty := (cpty s)\<lparr>canon_len := canon_len (cpty s) - 1\<rparr>\<rparr>) else s)"
      unfolding defs using erase by auto
    moreover have "edit_char sig icrnl c e = e\<lparr>line := butlast (line e)\<rparr>"
      unfolding defs using erase by auto
    ultimately show ?thesis
      using e by (auto simp: edits_def simp del: take_append)
  next
    case eof
    have "canon_char echo sig c s =
        (if canon_len (cpty s) > 0 then canon_flush s
         else s\<lparr>cpty := (cpty s)\<lparr>eof_pending := True\<rparr>, flushed := True\<rparr>)"
      unfolding defs using eof by auto
    moreover have "edit_char sig icrnl c e =
        (if canon_len (cpty s) > 0 then e\<lparr>line := [], out := out e @ line e\<rparr> else e\<lparr>eof := True\<rparr>)"
      unfolding defs using eof e by auto
    ultimately show ?thesis
      using e edits_flush [OF e(1,2,5,6,4)] by (simp add: edits_def del: take_append)
  next
    case other
    define s1 where "s1 = echo_out echo (if ch = 10 then [13, 10] else [ch]) s"
    define s2 where "s2 = s1\<lparr>cpty := (cpty s1)\<lparr>canon_buf := (canon_buf (cpty s1))[canon_len (cpty s1) := ch],
                              canon_len := canon_len (cpty s1) + 1\<rparr>\<rparr>"
    have c: "canon_char echo sig c s = (if ch = 10 \<or> canon_len (cpty s2) \<ge> 511 then canon_flush s2 else s2)"
      unfolding defs s1_def [symmetric] using other e by (auto simp: s2_def s1_def)
    have l: "line e @ [ch] = take (canon_len (cpty s2)) (canon_buf (cpty s2))"
      using e by (simp add: s2_def s1_def take_Suc_conv_app_nth)
    have d: "edit_char sig icrnl c e =
        (if ch = 10 \<or> length (line e @ [ch]) = 511 then e\<lparr>line := [], out := out e @ (line e @ [ch])\<rparr>
         else e\<lparr>line := line e @ [ch]\<rparr>)"
      unfolding defs using other by auto
    have n: "length (line e @ [ch]) = canon_len (cpty s2)" "canon_len (cpty s2) \<le> 511"
      using e by (simp_all add: s2_def s1_def)
    have f: "ring_ok (to_slave (cpty s2))" "length (canon_buf (cpty s2)) = CANON_BUF"
      "ring_contents (to_slave (cpty s2)) = take PTY_BUF_SIZE (old @ out e)" "eof e = eof_pending (cpty s2)"
      using e by (simp_all add: s2_def s1_def)
    show ?thesis
    proof (cases "ch = 10 \<or> canon_len (cpty s2) \<ge> 511")
      case True
      then show ?thesis using c d n edits_flush [OF f l] by auto
    next
      case False
      then show ?thesis using c d n f l by (simp add: edits_def del: take_append)
    qed
  qed
qed

lemma icrnl_stable [simp]: "is_icrnl (cpty (canon_char echo sig c s)) = is_icrnl (cpty s)"
  by (simp add: canon_char_def canon_kill_def canon_flush_def is_icrnl_def Let_def)

lemma canon_edits:
  "edits old s e \<Longrightarrow> edits old (fold (canon_char echo sig) cs s) (fold (edit_char sig (is_icrnl (cpty s))) cs e)"
proof (induction cs arbitrary: s e)
  case (Cons c cs)
  then show ?case
    using Cons.IH [OF canon_char_edits [OF Cons.prems refl, of echo sig c]] by simp
qed simp

subsection \<open>Output\<close>

lemma raw_push_fold:
  "to_slave (fold (raw_push echo) bs p) = ring_pushes bs (to_slave p)"
  by (induction bs arbitrary: p) (simp_all add: raw_push_def ring_pushes_def Let_def)

text \<open>Newlines as carriage return and newline.\<close>

definition cook :: "bool \<Rightarrow> u8 list \<Rightarrow> u8 list" where
  "cook onlcr bs = concat (map (\<lambda>c. if c = 10 \<and> onlcr then [13, 10] else [c]) bs)"

lemma onlcr_push_effect:
  assumes "ring_ok r" and "rcount r + length (cook onlcr [c]) \<le> PTY_BUF_SIZE"
  shows "ring_ok (onlcr_push onlcr c r) \<and> ring_contents (onlcr_push onlcr c r) = ring_contents r @ cook onlcr [c]"
proof (cases "c = 10 \<and> onlcr")
  case True
  have "onlcr_push onlcr c r = ring_pushes [13, 10] r"
    using assms True by (simp add: onlcr_push_def ring_pushes_def ring_space_def cook_def)
  then show ?thesis
    using ring_pushes_effect [OF assms(1), of "[13, 10]"] assms True by (simp add: cook_def)
next
  case False
  then have "onlcr_push onlcr c r = ring_push c r"
    by (auto simp: onlcr_push_def)
  then show ?thesis
    using ring_push_effect [OF assms(1), of c] assms False by (auto simp: cook_def)
qed

lemma onlcr_fold_effect:
  assumes "ring_ok r" and "rcount r + length (cook onlcr bs) \<le> PTY_BUF_SIZE"
  shows "ring_ok (fold (onlcr_push onlcr) bs r) \<and>
         ring_contents (fold (onlcr_push onlcr) bs r) = ring_contents r @ cook onlcr bs"
  using assms
proof (induction bs arbitrary: r)
  case Nil
  then show ?case by (simp add: cook_def)
next
  case (Cons b bs)
  have e: "cook onlcr (b # bs) = cook onlcr [b] @ cook onlcr bs" by (simp add: cook_def)
  have b: "ring_ok (onlcr_push onlcr b r)" "ring_contents (onlcr_push onlcr b r) = ring_contents r @ cook onlcr [b]"
    using onlcr_push_effect [OF Cons.prems(1), of onlcr b] Cons.prems(2) by (auto simp: e)
  have "rcount (onlcr_push onlcr b r) = rcount r + length (cook onlcr [b])"
    using arg_cong [OF b(2), of length] by simp
  then show ?case
    using Cons.IH [OF b(1)] Cons.prems(2) b(2) by (simp add: e)
qed

subsection \<open>The life cycle\<close>

text \<open>
  Opening and closing. A file that is open on a terminal is closed once: the guards say that
  only an open side is released.
\<close>

inductive pty_step :: "pty list \<Rightarrow> pty list \<Rightarrow> bool" where
  open_master: "ptmx_open t = Inr (idx, t') \<Longrightarrow> pty_step t t'"
| close_master: "idx < MAX_PTYS \<Longrightarrow> master_open (t ! idx) \<Longrightarrow> ptmx_release (t ! idx) = (sg, p) \<Longrightarrow>
    pty_step t (t[idx := p])"
| open_slave: "pts_open idx t = Inr t' \<Longrightarrow> pty_step t t'"
| close_slave: "idx < MAX_PTYS \<Longrightarrow> slave_open (t ! idx) > 0 \<Longrightarrow> pty_step t (t[idx := pts_release (t ! idx)])"
| unlock: "idx < MAX_PTYS \<Longrightarrow> pty_step t (t[idx := ptmx_lock l (t ! idx)])"

definition table_ok :: "pty list \<Rightarrow> bool" where
  "table_ok t \<longleftrightarrow> length t = MAX_PTYS \<and>
     (\<forall>i < MAX_PTYS. active (t ! i) \<longleftrightarrow> master_open (t ! i) \<or> slave_open (t ! i) > 0)"

lemma ptmx_open_Some:
  assumes "ptmx_open t = Inr (idx, t')"
  shows "idx < MAX_PTYS \<and> \<not> active (t ! idx) \<and> t' = t[idx := fresh_pty idx]"
  using assms by (auto simp: ptmx_open_def find_Some_iff split: option.splits)

lemma pty_step_ok: "pty_step t t' \<Longrightarrow> table_ok t \<Longrightarrow> table_ok t'"
proof (induction rule: pty_step.induct)
  case (open_master t idx t')
  then show ?case
    using ptmx_open_Some [of t idx t'] by (auto simp: table_ok_def nth_list_update fresh_pty_def)
next
  case (close_master idx t sg p)
  then show ?case by (auto simp: table_ok_def nth_list_update ptmx_release_def Let_def split: if_splits)
next
  case (open_slave idx t t')
  then show ?case by (auto simp: table_ok_def nth_list_update pts_open_def Let_def split: if_splits)
next
  case (close_slave idx t)
  then show ?case by (auto simp: table_ok_def nth_list_update pts_release_def Let_def)
next
  case (unlock idx t l)
  then show ?case by (auto simp: table_ok_def nth_list_update ptmx_lock_def)
qed

subsection \<open>Properties\<close>

text \<open>
  C12: the canonical-mode loop of \<^verbatim>\<open>ptmx_write\<close>, with its edit buffer, its length counter and its
  ring, implements the line editor: after any input the edit buffer holds the line being edited,
  the slave's ring holds its old contents followed by the finished lines (as much of them as
  the ring has room for), the end-of-file mark is set exactly when the editor sets it, and the
  call reports the whole input as written.
\<close>

theorem pty_line_editor:
  assumes "slave_open p \<noteq> 0" and "ring_ok (to_slave p)" and "length (canon_buf p) = CANON_BUF" and "canon_len p < 511"
  shows "let (n, s) = ptmx_write_canon echo sig buf p; q = cpty s;
             e = fold (edit_char sig (is_icrnl p)) buf
                   \<lparr>line = take (canon_len p) (canon_buf p), out = [], eof = eof_pending p\<rparr>
         in n = int (length buf) \<and> ring_ok (to_slave q) \<and> canon_len q < 511 \<and>
            take (canon_len q) (canon_buf q) = line e \<and> eof_pending q = eof e \<and>
            ring_contents (to_slave q) = take PTY_BUF_SIZE (ring_contents (to_slave p) @ out e)"
proof -
  define s0 where "s0 = \<lparr>cpty = p, echoed = False, flushed = False, csigs = []\<rparr>"
  define e0 where "e0 = \<lparr>line = take (canon_len p) (canon_buf p), out = [], eof = eof_pending p\<rparr>"
  have "edits (ring_contents (to_slave p)) s0 e0"
    using assms by (simp add: edits_def s0_def e0_def ring_ok_def)
  from canon_edits [OF this, of echo sig buf]
  have "edits (ring_contents (to_slave p)) (fold (canon_char echo sig) buf s0) (fold (edit_char sig (is_icrnl p)) buf e0)"
    by (simp add: s0_def)
  moreover have "ptmx_write_canon echo sig buf p = (int (length buf), fold (canon_char echo sig) buf s0)"
    using assms(1) by (simp add: ptmx_write_canon_def s0_def)
  ultimately show ?thesis
    by (simp add: edits_def Let_def e0_def del: take_append)
qed

text \<open>
  A terminal slot is recycled only when nobody is on it: in every state the table can reach a
  slot is active exactly while its master or one of its slaves is open, so the slot that
  \<^verbatim>\<open>ptmx_open\<close> clears and hands out has no open file on either side.
\<close>

theorem pty_slot_unused:
  assumes "table_ok t0" and "pty_step\<^sup>*\<^sup>* t0 t" and "ptmx_open t = Inr (idx, t')"
  shows "idx < MAX_PTYS \<and> \<not> master_open (t ! idx) \<and> slave_open (t ! idx) = 0 \<and> t' ! idx = fresh_pty idx"
proof -
  have "table_ok t"
    using assms(2,1) by (induction rule: rtranclp_induct) (auto intro: pty_step_ok)
  then show ?thesis
    using ptmx_open_Some [OF assms(3)] by (auto simp: table_ok_def)
qed

text \<open>
  \<^verbatim>\<open>pts_write\<close> delivers a chunk of output, newlines translated, exactly and after what the
  ring held, when the translated bytes fit.
\<close>

theorem pts_write_delivers:
  assumes "ring_ok (to_master p)" and "master_open p" and "d < length buf"
    and "rcount (to_master p) + length (cook (is_onlcr p) (drop d buf)) \<le> PTY_BUF_SIZE"
  shows "\<exists>q. pts_write nonblock buf d p = (WLoop (length buf), q) \<and>
             ring_contents (to_master q) = ring_contents (to_master p) @ cook (is_onlcr p) (drop d buf)"
proof -
  have c: "length bs \<le> length (cook b bs)" for b bs
    by (induction bs) (auto simp: cook_def)
  have "length (drop d buf) \<le> ring_space (to_master p)"
    using c [of "drop d buf" "is_onlcr p"] assms(4) by (simp add: ring_space_def)
  then have "pts_write nonblock buf d p =
      (WLoop (length buf), p\<lparr>to_master := fold (onlcr_push (is_onlcr p)) (drop d buf) (to_master p)\<rparr>)"
    using assms(2,3) by (auto simp: pts_write_def Let_def not_less)
  then show ?thesis
    using onlcr_fold_effect [OF assms(1,4)] by simp
qed

text \<open>
  But \<^verbatim>\<open>pts_write\<close> takes as many input bytes as there is room for, not as many as their
  translation needs: with room for two bytes, writing a newline and a letter stores the two bytes of the
  newline, drops the letter, and reports both bytes as written.
\<close>

theorem pts_write_loses_byte:
  assumes "ring_ok (to_master p)" and "master_open p" and "is_onlcr p" and "rcount (to_master p) = PTY_BUF_SIZE - 2"
  shows "\<exists>q. pts_write nonblock [10, 65] 0 p = (WLoop 2, q) \<and>
             ring_contents (to_master q) = ring_contents (to_master p) @ [13, 10]"
proof -
  define r where "r = to_master p"
  have sp: "ring_space r = 2" using assms(4) by (simp add: ring_space_def r_def PTY_BUF_SIZE_def)
  have e: "ring_ok (onlcr_push True 10 r)" "ring_contents (onlcr_push True 10 r) = ring_contents r @ [13, 10]"
    using onlcr_push_effect [of r True 10] assms(1,4) by (auto simp: r_def cook_def PTY_BUF_SIZE_def)
  have "rcount (onlcr_push True 10 r) = PTY_BUF_SIZE"
    using arg_cong [OF e(2), of length] assms(4) by (simp add: r_def PTY_BUF_SIZE_def)
  then have "onlcr_push True 65 (onlcr_push True 10 r) = onlcr_push True 10 r"
    by (subst onlcr_push_def) (simp add: ring_push_def)
  then show ?thesis
    using sp assms(2,3) e(2) by (simp add: pts_write_def r_def [symmetric])
qed

subsection \<open>A concrete terminal\<close>

definition sample_pty :: pty where
  "sample_pty = (fresh_pty 0)\<lparr>locked := False, slave_open := 1\<rparr>"

definition full_ring :: pty_ring where
  "full_ring = empty_ring\<lparr>rhead := PTY_BUF_SIZE - 2, rcount := PTY_BUF_SIZE - 2\<rparr>"

lemma sample_pty_simps [simp]:
  "ring_ok empty_ring" "ring_contents empty_ring = []" "rcount empty_ring = 0" "slave_open sample_pty = 1" "master_open sample_pty"
  "to_slave sample_pty = empty_ring" "to_master sample_pty = empty_ring" "canon_len sample_pty = 0"
  "length (canon_buf sample_pty) = CANON_BUF" "is_icrnl sample_pty" "is_onlcr sample_pty" "\<not> eof_pending sample_pty"
  by (simp_all add: sample_pty_def fresh_pty_def empty_ring_def ring_ok_def ring_contents_def is_icrnl_def is_onlcr_def)

text \<open>The input \<^verbatim>\<open>ab<backspace>c<return>\<close> reaches the reader as \<^verbatim>\<open>ac<newline>\<close>.\<close>

theorem pty_line_editor_witness:
  "ring_contents (to_slave (cpty (snd (ptmx_write_canon True True [97, 98, 127, 99, 13] sample_pty)))) = [97, 99, 10]"
  using pty_line_editor [of sample_pty True True "[97, 98, 127, 99, 13]"]
  by (simp add: edit_char_def Let_def case_prod_beta PTY_BUF_SIZE_def)

theorem pty_slot_unused_witness:
  "ptmx_open (replicate 32 ((fresh_pty 0)\<lparr>active := False, master_open := False\<rparr>)) =
     Inr (0, (replicate 32 ((fresh_pty 0)\<lparr>active := False, master_open := False\<rparr>))[0 := fresh_pty 0]) \<and>
   \<not> master_open (replicate 32 ((fresh_pty 0)\<lparr>active := False, master_open := False\<rparr>) ! 0)"
proof -
  define t where "t = replicate 32 ((fresh_pty 0)\<lparr>active := False, master_open := False\<rparr>)"
  have ok: "table_ok t" by (simp add: table_ok_def t_def fresh_pty_def)
  have o: "ptmx_open t = Inr (0, t[0 := fresh_pty 0])"
    by (simp add: ptmx_open_def t_def upt_rec [of 0])
  show ?thesis
    using pty_slot_unused [OF ok rtranclp.rtrancl_refl o] o by (simp add: t_def)
qed

theorem pts_write_delivers_witness:
  "\<exists>q. pts_write False [104, 10] 0 sample_pty = (WLoop (Suc (Suc 0)), q) \<and> ring_contents (to_master q) = [104, 13, 10]"
  using pts_write_delivers [of sample_pty 0 "[104, 10]" False]
  by (simp add: cook_def PTY_BUF_SIZE_def)

theorem pts_write_loses_byte_witness:
  "\<exists>q. pts_write False [10, 65] 0 (sample_pty\<lparr>to_master := full_ring\<rparr>) = (WLoop 2, q) \<and>
       ring_contents (to_master q) = ring_contents full_ring @ [13, 10]"
proof -
  have "ring_ok full_ring" "rcount full_ring = PTY_BUF_SIZE - 2" "is_onlcr (sample_pty\<lparr>to_master := full_ring\<rparr>)"
    using sample_pty_simps(11)
    by (simp_all add: full_ring_def empty_ring_def ring_ok_def PTY_BUF_SIZE_def is_onlcr_def)
  then show ?thesis
    using pts_write_loses_byte [of "sample_pty\<lparr>to_master := full_ring\<rparr>" False] by simp
qed

end
