(* ===== verification/Unix_Socket.thy ===== *)
theory Unix_Socket
  imports Ring
begin

text \<open>
  AF_UNIX sockets, \<^verbatim>\<open>kernel/net/unix.c\<close>: the two rings of a connection, names, listening and
  connecting, streams and message-preserving pairs, closing. The sockets of the system are a function of
  an address; the list of named sockets and the queue of connections waiting for \<^verbatim>\<open>accept\<close> are lists of
  addresses. Everything happens under \<^verbatim>\<open>net_lock\<close>; a blocking call is one function per pass of its loop.
  Memory allocation is an argument: what \<^verbatim>\<open>kmalloc\<close> returned (\<open>None\<close> when it failed), and the address of
  a new socket.
\<close>

definition UNIX_BUF_SIZE :: nat where
  "UNIX_BUF_SIZE = 256 * 1024"

abbreviation EPROTONOSUPPORT :: int where "EPROTONOSUPPORT \<equiv> 93"

record unix_pcb =
  u_path :: string
  u_peer :: "nat option"
  u_rx :: "u8 list option"
  u_head :: nat                   \<comment> \<open>32 bits\<close>
  u_tail :: nat                   \<comment> \<open>32 bits\<close>
  u_eof :: bool
  u_seqpacket :: bool

record usock =
  s_bound :: bool
  s_connected :: bool
  s_listening :: bool
  s_shut_rd :: bool
  s_shut_wr :: bool
  s_backlog :: int
  s_accept :: "nat list"          \<comment> \<open>from \<open>accept_head\<close> along \<open>accept_next\<close>\<close>
  s_accept_count :: int
  s_listener :: "nat option"
  s_un :: "unix_pcb option"

record unet =
  socks :: "nat \<Rightarrow> usock"
  bound :: "nat list"             \<comment> \<open>the named sockets, along \<open>next_bound\<close>\<close>

definition wrap32 :: "nat \<Rightarrow> nat" where
  "wrap32 x = x mod 2 ^ 32"

subsection \<open>The ring of a direction\<close>

definition rx_count :: "unix_pcb \<Rightarrow> nat" where
  "rx_count u = wrap32 (u_tail u + (2 ^ 32 - u_head u))"

definition rx_space :: "unix_pcb \<Rightarrow> nat" where
  "rx_space u = wrap32 (UNIX_BUF_SIZE + (2 ^ 32 - rx_count u))"

definition ring_put :: "unix_pcb \<Rightarrow> u8 list \<Rightarrow> unix_pcb" where
  "ring_put d src =
     d\<lparr>u_rx := map_option (\<lambda>b. ring_write b (u_tail d mod UNIX_BUF_SIZE) src) (u_rx d),
       u_tail := wrap32 (u_tail d + length src)\<rparr>"

definition ring_peek :: "unix_pcb \<Rightarrow> nat \<Rightarrow> nat \<Rightarrow> u8 list" where
  "ring_peek u skip n =
     (case u_rx u of None \<Rightarrow> [] | Some b \<Rightarrow> ring_read b (wrap32 (u_head u + skip) mod UNIX_BUF_SIZE) n)"

definition new_pcb :: unix_pcb where
  "new_pcb = \<lparr>u_path = '''', u_peer = None, u_rx = None, u_head = 0, u_tail = 0, u_eof = False, u_seqpacket = False\<rparr>"

definition new_sock :: usock where
  "new_sock = \<lparr>s_bound = False, s_connected = False, s_listening = False, s_shut_rd = False, s_shut_wr = False,
               s_backlog = 0, s_accept = [], s_accept_count = 0, s_listener = None, s_un = None\<rparr>"

definition pcb_new :: "bool \<Rightarrow> usock \<Rightarrow> usock option" where
  "pcb_new ok s = (if \<not> ok then None else Some (s\<lparr>s_un := Some new_pcb\<rparr>))"

definition pcb_rx_alloc :: "u8 list option \<Rightarrow> unix_pcb \<Rightarrow> unix_pcb option" where
  "pcb_rx_alloc mem u =
     (case u_rx u of Some _ \<Rightarrow> Some u | None \<Rightarrow> map_option (\<lambda>b. u\<lparr>u_rx := Some b\<rparr>) mem)"

definition pcb :: "unet \<Rightarrow> nat \<Rightarrow> unix_pcb" where
  "pcb st i = (case s_un (socks st i) of Some u \<Rightarrow> u | None \<Rightarrow> new_pcb)"

definition set_sock :: "nat \<Rightarrow> usock \<Rightarrow> unet \<Rightarrow> unet" where
  "set_sock i s st = st\<lparr>socks := (socks st)(i := s)\<rparr>"

definition set_pcb :: "nat \<Rightarrow> unix_pcb \<Rightarrow> unet \<Rightarrow> unet" where
  "set_pcb i u st = set_sock i ((socks st i)\<lparr>s_un := Some u\<rparr>) st"

subsection \<open>Making sockets\<close>

text \<open>
  \<^verbatim>\<open>unix_socket\<close> after \<^verbatim>\<open>sock_create\<close> returned \<open>i\<close>: the connection block is allocated or not; the file and the
  descriptor are made by the socket layer.
\<close>

definition unix_socket :: "unet \<Rightarrow> nat \<Rightarrow> nat option \<Rightarrow> bool \<Rightarrow> int \<times> unet" where
  "unix_socket st kind i ok =
     (if kind \<noteq> 1 then (- EPROTONOSUPPORT, st)
      else case i of None \<Rightarrow> (- ENOMEM, st)
           | Some i \<Rightarrow> (case pcb_new ok new_sock of None \<Rightarrow> (- ENOMEM, st) | Some s \<Rightarrow> (0, set_sock i s st)))"

text \<open>One end of a pair; \<open>None\<close> takes the code to its failure label.\<close>

definition pair_end :: "bool \<Rightarrow> nat option \<Rightarrow> bool \<Rightarrow> u8 list option \<Rightarrow> usock option" where
  "pair_end seq i ok mem =
     (case i of None \<Rightarrow> None
      | Some _ \<Rightarrow> (case pcb_new ok new_sock of None \<Rightarrow> None
         | Some s \<Rightarrow> (case pcb_rx_alloc mem new_pcb of None \<Rightarrow> None
            | Some u \<Rightarrow> Some (s\<lparr>s_connected := True, s_un := Some (u\<lparr>u_seqpacket := seq\<rparr>)\<rparr>))))"

definition unix_socketpair ::
    "unet \<Rightarrow> nat \<Rightarrow> nat option \<times> bool \<times> u8 list option \<Rightarrow> nat option \<times> bool \<times> u8 list option \<Rightarrow> int \<times> unet" where
  "unix_socketpair st kind a b =
     (if kind \<noteq> 1 \<and> kind \<noteq> 5 then (- EPROTONOSUPPORT, st)
      else case (a, b) of ((i, iok, imem), (j, jok, jmem)) \<Rightarrow>
        (case (pair_end (kind = 5) i iok imem, pair_end (kind = 5) j jok jmem, i, j) of
           (Some s, Some t, Some i, Some j) \<Rightarrow>
             let st = set_sock i s st; st = set_sock j t st;
                 st = set_pcb i ((pcb st i)\<lparr>u_peer := Some j\<rparr>) st;
                 st = set_pcb j ((pcb st j)\<lparr>u_peer := Some i\<rparr>) st
             in (0, st)
         | _ \<Rightarrow> (- ENOMEM, st)))"

subsection \<open>Names and connections\<close>

definition find_bound :: "unet \<Rightarrow> string \<Rightarrow> nat option" where
  "find_bound st path = find (\<lambda>i. u_path (pcb st i) = path) (bound st)"

definition unix_bind :: "unet \<Rightarrow> nat \<Rightarrow> string \<Rightarrow> int \<times> unet" where
  "unix_bind st i path =
     (if path = '''' then (- EINVAL, st)
      else if s_bound (socks st i) then (- EINVAL, st)
      else if find_bound st path \<noteq> None then (- EADDRINUSE, st)
      else let st = set_pcb i ((pcb st i)\<lparr>u_path := path\<rparr>) st;
               st = st\<lparr>bound := i # bound st\<rparr>;
               st = set_sock i ((socks st i)\<lparr>s_bound := True\<rparr>) st
           in (0, st))"

definition unix_listen :: "unet \<Rightarrow> nat \<Rightarrow> int \<Rightarrow> int \<times> unet" where
  "unix_listen st i backlog =
     (if \<not> s_bound (socks st i) then (- EINVAL, st)
      else (0, set_sock i ((socks st i)\<lparr>s_listening := True,
              s_backlog := (if backlog < 1 then 1 else if backlog > 64 then 64 else backlog)\<rparr>) st))"

text \<open>
  The server side of a connection: \<open>c\<close> is the new socket, \<open>cu\<close> its connection block and \<open>su\<close> the block of
  the client \<open>i\<close>, both with their ring. \<open>cmem\<close> and \<open>smem\<close> are what the allocator returns for the two rings.
\<close>

definition link_accept :: "nat \<Rightarrow> nat \<Rightarrow> nat \<Rightarrow> usock \<Rightarrow> unix_pcb \<Rightarrow> unix_pcb \<Rightarrow> unet \<Rightarrow> unet" where
  "link_accept l i c cs cu su st =
     (let st = set_pcb i su (set_sock c (cs\<lparr>s_un := Some cu\<rparr>) st);
          st = set_sock c ((socks st c)\<lparr>s_connected := True\<rparr>) st;
          st = set_pcb c ((pcb st c)\<lparr>u_peer := Some i\<rparr>) st;
          st = set_pcb i ((pcb st i)\<lparr>u_peer := Some c\<rparr>) st;
          st = set_sock i ((socks st i)\<lparr>s_connected := True\<rparr>) st;
          st = set_sock c ((socks st c)\<lparr>s_listener := Some l\<rparr>) st
      in set_sock l ((socks st l)\<lparr>s_accept := s_accept (socks st l) @ [c],
                                  s_accept_count := s_accept_count (socks st l) + 1\<rparr>) st)"

definition unix_connect :: "unet \<Rightarrow> nat \<Rightarrow> string \<Rightarrow> nat option \<Rightarrow> bool \<Rightarrow> u8 list option \<Rightarrow> u8 list option \<Rightarrow> int \<times> unet" where
  "unix_connect st i path c ok cmem smem =
     (let s = socks st i in
      if u_peer (pcb st i) \<noteq> None \<or> s_connected s then (- EISCONN, st)
      else case find_bound st path of None \<Rightarrow> (- ENOENT, st)
      | Some l \<Rightarrow>
          if \<not> s_listening (socks st l) then (- ECONNREFUSED, st)
          else if s_accept_count (socks st l) \<ge> s_backlog (socks st l) then (- EAGAIN, st)
          else case (c, pcb_new ok new_sock, pcb_rx_alloc cmem new_pcb, pcb_rx_alloc smem (pcb st i)) of
            (Some c, Some cs, Some cu, Some su) \<Rightarrow> (0, link_accept l i c cs cu su st)
          | _ \<Rightarrow> (- ENOMEM, st))"

datatype accept_out = AcceptGot nat | AcceptRet int | AcceptSleep

text \<open>One pass of \<^verbatim>\<open>unix_accept\<close> up to the point where it has a connection.\<close>

definition unix_accept_iter :: "bool \<Rightarrow> nat \<Rightarrow> unet \<Rightarrow> accept_out \<times> unet" where
  "unix_accept_iter nonblock l st =
     (case s_accept (socks st l) of
        c # cs \<Rightarrow>
          let st = set_sock l ((socks st l)\<lparr>s_accept := cs, s_accept_count := s_accept_count (socks st l) - 1\<rparr>) st;
              st = set_sock c ((socks st c)\<lparr>s_listener := None\<rparr>) st
          in (AcceptGot c, st)
      | [] \<Rightarrow> (if nonblock then (AcceptRet (- EAGAIN), st) else (AcceptSleep, st)))"

subsection \<open>Polling and waiting\<close>

definition unix_poll :: "unet \<Rightarrow> nat \<Rightarrow> u32" where
  "unix_poll st i =
     (let s = socks st i; u = pcb st i
      in if s_listening s then (if s_accept s \<noteq> [] then POLLIN else 0)
         else (if rx_count u \<noteq> 0 \<or> u_eof u \<or> s_shut_rd s then POLLIN else 0) OR
              (case u_peer u of
                 None \<Rightarrow> (if s_connected s then POLLHUP else 0)
               | Some p \<Rightarrow> (if rx_space (pcb st p) > 0 \<and> \<not> s_shut_wr s then POLLOUT else 0)))"

definition poll_has :: "unet \<Rightarrow> nat \<Rightarrow> u32 \<Rightarrow> u32" where
  "poll_has st i want = unix_poll st i AND want"

definition accept_ready :: "unet \<Rightarrow> nat \<Rightarrow> bool" where
  "accept_ready st l \<longleftrightarrow> s_accept (socks st l) \<noteq> []"

definition unix_nonblocking :: "u32 \<Rightarrow> u32 \<Rightarrow> bool" where
  "unix_nonblocking fflags flags \<longleftrightarrow> fflags AND O_NONBLOCK \<noteq> 0 \<or> flags AND 0x40 \<noteq> 0"

text \<open>\<open>r\<close> is what the wait returned: positive for the event, 0 for the timeout, negative for a signal.\<close>

definition wait_for :: "int \<Rightarrow> int \<Rightarrow> int" where
  "wait_for timeo_ms r =
     (if timeo_ms > 0 then (if r > 0 then 0 else if r = 0 then - EAGAIN else - EINTR)
      else if r \<noteq> 0 then - EINTR else 0)"

subsection \<open>Sending and receiving\<close>

text \<open>
  The copies of \<^verbatim>\<open>unix_send\<close> and of a stream \<^verbatim>\<open>unix_recv\<close> under the lock: as much as there is room
  for, as much as there is.
\<close>

definition unix_put :: "u8 list \<Rightarrow> unix_pcb \<Rightarrow> nat \<times> unix_pcb" where
  "unix_put src d =
     (let space = rx_space d; n = (if length src < space then length src else space)
      in (n, if n \<noteq> 0 then ring_put d (take n src) else d))"

definition unix_get :: "nat \<Rightarrow> unix_pcb \<Rightarrow> u8 list \<times> unix_pcb" where
  "unix_get len u =
     (let avail = rx_count u; n = (if len < avail then len else avail)
      in if n \<noteq> 0 then (ring_peek u 0 n, u\<lparr>u_head := wrap32 (u_head u + n)\<rparr>) else ([], u))"

text \<open>\<open>SRet r sig\<close> returns \<open>r\<close>, after sending the signal SIGPIPE when \<open>sig\<close>; \<open>SSleep d\<close> waits with \<open>d\<close> bytes sent.\<close>

datatype send_out = SRet int bool | SSleep nat

definition unix_send_iter :: "bool \<Rightarrow> bool \<Rightarrow> u8 list \<Rightarrow> nat \<Rightarrow> nat \<Rightarrow> unet \<Rightarrow> send_out \<times> unet" where
  "unix_send_iter nonblock nosignal buf done1 i st =
     (if done1 \<ge> length buf then (SRet (int done1) False, st)
      else case (if s_shut_wr (socks st i) then None else u_peer (pcb st i)) of
        None \<Rightarrow> (if done1 \<noteq> 0 then SRet (int done1) False else SRet (- EPIPE) (\<not> nosignal), st)
      | Some p \<Rightarrow>
          let (n, d) = unix_put (drop done1 buf) (pcb st p);
              st = set_pcb p d st;
              d1 = done1 + n
          in if d1 = length buf then (SRet (int d1) False, st)
             else if nonblock then (SRet (if d1 \<noteq> 0 then int d1 else - EAGAIN) False, st)
             else (SSleep d1, st))"

definition le32_bytes :: "nat \<Rightarrow> u8 list" where
  "le32_bytes n = [of_nat n, of_nat (n div 2 ^ 8), of_nat (n div 2 ^ 16), of_nat (n div 2 ^ 24)]"

definition le32_val :: "u8 list \<Rightarrow> nat" where
  "le32_val b = unat (b ! 0) + unat (b ! 1) * 2 ^ 8 + unat (b ! 2) * 2 ^ 16 + unat (b ! 3) * 2 ^ 24"

definition unix_send_msg_iter :: "bool \<Rightarrow> bool \<Rightarrow> u8 list \<Rightarrow> nat \<Rightarrow> unet \<Rightarrow> send_out \<times> unet" where
  "unix_send_msg_iter nonblock nosignal buf i st =
     (if length buf > UNIX_BUF_SIZE - 4 then (SRet (- EMSGSIZE) False, st)
      else case (if s_shut_wr (socks st i) then None else u_peer (pcb st i)) of
        None \<Rightarrow> (SRet (- EPIPE) (\<not> nosignal), st)
      | Some p \<Rightarrow>
          let d = pcb st p
          in if rx_space d \<ge> length buf + 4 then
               (SRet (int (length buf)) False, set_pcb p (ring_put (ring_put d (le32_bytes (length buf))) buf) st)
             else if nonblock then (SRet (- EAGAIN) False, st)
             else (SSleep 0, st))"

datatype recv_out = RRet int "u8 list" | RSleep

definition unix_recv_iter :: "bool \<Rightarrow> bool \<Rightarrow> nat \<Rightarrow> nat \<Rightarrow> unet \<Rightarrow> recv_out \<times> unet" where
  "unix_recv_iter nonblock peek len i st =
     (let s = socks st i; u = pcb st i; avail = rx_count u; n = (if len < avail then len else avail)
      in if u_seqpacket u \<and> avail \<ge> 4 then
           let mlen = le32_val (ring_peek u 0 4);
               n = (if len < mlen then len else mlen);
               data = (if n \<noteq> 0 then ring_peek u 4 n else []);
               st = (if \<not> peek then set_pcb i (u\<lparr>u_head := wrap32 (u_head u + (4 + mlen))\<rparr>) st else st)
           in (RRet (int n) data, st)
         else if n \<noteq> 0 \<and> \<not> u_seqpacket u then
           let (data, u1) = unix_get len u;
               st = (if \<not> peek then set_pcb i u1 st else st)
           in (RRet (int n) data, st)
         else if u_eof u \<or> s_shut_rd s \<or> \<not> s_connected s then
           (RRet (if s_connected s then 0 else - ENOTCONN) [], st)
         else if nonblock then (RRet (- EAGAIN) [], st)
         else (RSleep, st))"

text \<open>\<^verbatim>\<open>unix_send\<close> chooses by the kind of the socket; a woken sender that may not go on returns what it has sent.\<close>

definition unix_send_pass :: "bool \<Rightarrow> bool \<Rightarrow> u8 list \<Rightarrow> nat \<Rightarrow> nat \<Rightarrow> unet \<Rightarrow> send_out \<times> unet" where
  "unix_send_pass nonblock nosignal buf done1 i st =
     (if u_seqpacket (pcb st i) then unix_send_msg_iter nonblock nosignal buf i st
      else unix_send_iter nonblock nosignal buf done1 i st)"

definition unix_send_woken :: "nat \<Rightarrow> int \<Rightarrow> int option" where
  "unix_send_woken done1 w = (if w = 0 then None else Some (if done1 \<noteq> 0 then int done1 else w))"

subsection \<open>Closing\<close>

definition unix_shutdown :: "nat \<Rightarrow> int \<Rightarrow> unet \<Rightarrow> unet" where
  "unix_shutdown i how st =
     (case u_peer (pcb st i) of
        Some p \<Rightarrow> if how = 1 \<or> how = 2 then set_pcb p ((pcb st p)\<lparr>u_eof := True\<rparr>) st else st
      | None \<Rightarrow> st)"

definition sys_shutdown :: "nat \<Rightarrow> int \<Rightarrow> unet \<Rightarrow> int \<times> unet" where
  "sys_shutdown i how st =
     (if how < 0 \<or> how > 2 then (- EINVAL, st)
      else let st = (if how = 0 \<or> how = 2 then set_sock i ((socks st i)\<lparr>s_shut_rd := True\<rparr>) st else st);
               st = (if how = 1 \<or> how = 2
                     then unix_shutdown i how (set_sock i ((socks st i)\<lparr>s_shut_wr := True\<rparr>) st) else st)
           in (0, st))"

text \<open>The other end sees a hangup, and the connection block goes away.\<close>

definition close_pcb :: "nat \<Rightarrow> unet \<Rightarrow> unet" where
  "close_pcb i st =
     (let st = (case u_peer (pcb st i) of
                  Some p \<Rightarrow> set_pcb p ((pcb st p)\<lparr>u_peer := None, u_eof := True\<rparr>) st
                | None \<Rightarrow> st)
      in set_sock i ((socks st i)\<lparr>s_un := None\<rparr>) st)"

text \<open>
  The connections nobody accepted. \<^verbatim>\<open>sock_put\<close> drops their only reference and so closes them; they have no name and
  no queue of their own, so that closing one is \<open>close_pcb\<close> (lemma \<open>unix_close_queued\<close>).
\<close>

fun close_accepts :: "nat \<Rightarrow> nat list \<Rightarrow> unet \<Rightarrow> unet" where
  "close_accepts i [] st = st"
| "close_accepts i (c # cs) st =
     close_accepts i cs (close_pcb c (set_sock i ((socks st i)\<lparr>s_accept := cs\<rparr>) st))"

definition unix_close :: "nat \<Rightarrow> unet \<Rightarrow> unet" where
  "unix_close i st =
     (if s_un (socks st i) = None then st
      else let st = (if s_bound (socks st i) then st\<lparr>bound := remove1 i (bound st)\<rparr> else st);
               st = close_accepts i (s_accept (socks st i)) st
           in close_pcb i st)"

definition unix_name :: "unet \<Rightarrow> nat \<Rightarrow> string" where
  "unix_name st i = (case s_un (socks st i) of Some u \<Rightarrow> u_path u | None \<Rightarrow> '''')"

subsection \<open>The rings are bounded queues\<close>

definition rx_ok :: "unix_pcb \<Rightarrow> bool" where
  "rx_ok u \<longleftrightarrow> u_head u < 2 ^ 32 \<and> u_tail u < 2 ^ 32 \<and> rx_count u \<le> UNIX_BUF_SIZE \<and>
     (case u_rx u of None \<Rightarrow> rx_count u = 0 | Some b \<Rightarrow> length b = UNIX_BUF_SIZE)"

definition contents :: "unix_pcb \<Rightarrow> u8 list" where
  "contents u = (case u_rx u of None \<Rightarrow> [] | Some b \<Rightarrow> ring_list b (u_head u) (rx_count u))"

lemma wrap32_simps [simp]:
  "wrap32 x < 2 ^ 32" "wrap32 x < 4294967296" "wrap32 x mod UNIX_BUF_SIZE = x mod UNIX_BUF_SIZE"
  "wrap32 (wrap32 x + y) = wrap32 (x + y)" "wrap32 (y + wrap32 x) = wrap32 (y + x)"
  "wrap32 (x + 4294967296) = wrap32 x"
proof -
  have "UNIX_BUF_SIZE dvd 2 ^ 32" unfolding UNIX_BUF_SIZE_def dvd_def by (rule exI [of _ 16384]) simp
  then show "wrap32 x mod UNIX_BUF_SIZE = x mod UNIX_BUF_SIZE" by (simp add: wrap32_def mod_mod_cancel)
qed (simp_all add: wrap32_def mod_simps)

lemma wrap32_small: "x < 2 ^ 32 \<Longrightarrow> wrap32 x = x"
  by (simp add: wrap32_def)

lemma rx_count_diff:
  assumes "h < 2 ^ 32" and "c < 2 ^ 32"
  shows "wrap32 (wrap32 (h + c) + (2 ^ 32 - h)) = c"
proof -
  have "h + c + (2 ^ 32 - h) = c + 2 ^ 32" using assms by simp
  then have "wrap32 (h + c + (2 ^ 32 - h)) = wrap32 c" by (simp add: wrap32_def)
  then show ?thesis using wrap32_small [OF assms(2)] by simp
qed

lemma tail_eq:
  assumes "u_head u < 2 ^ 32" and "u_tail u < 2 ^ 32"
  shows "u_tail u = wrap32 (u_head u + rx_count u)"
proof -
  have "u_head u + (u_tail u + (2 ^ 32 - u_head u)) = u_tail u + 2 ^ 32" using assms(1) by simp
  then have "wrap32 (u_head u + (u_tail u + (2 ^ 32 - u_head u))) = wrap32 (u_tail u)"
    by (simp add: wrap32_def)
  then show ?thesis using wrap32_small [OF assms(2)] by (simp add: rx_count_def)
qed

lemma rx_okD:
  assumes "rx_ok u"
  shows "u_head u < 2 ^ 32" "u_tail u < 2 ^ 32" "rx_count u \<le> UNIX_BUF_SIZE" "rx_count u < 2 ^ 32"
    "rx_space u = UNIX_BUF_SIZE - rx_count u" "length (contents u) = rx_count u"
proof -
  show *: "u_head u < 2 ^ 32" "u_tail u < 2 ^ 32" "rx_count u \<le> UNIX_BUF_SIZE" "length (contents u) = rx_count u"
    using assms by (auto simp: rx_ok_def contents_def split: option.splits)
  then show "rx_count u < 2 ^ 32" by (simp add: UNIX_BUF_SIZE_def)
  have "UNIX_BUF_SIZE + (2 ^ 32 - rx_count u) = (UNIX_BUF_SIZE - rx_count u) + 2 ^ 32"
    using * by (simp add: UNIX_BUF_SIZE_def)
  moreover have "UNIX_BUF_SIZE - rx_count u < 2 ^ 32" by (simp add: UNIX_BUF_SIZE_def)
  ultimately show "rx_space u = UNIX_BUF_SIZE - rx_count u"
    by (simp add: rx_space_def wrap32_def)
qed

lemma UNIX_BUF_SIZE_bounds: "4 < UNIX_BUF_SIZE" "UNIX_BUF_SIZE < 2 ^ 32"
  by (simp_all add: UNIX_BUF_SIZE_def)

lemma ring_put_effect:
  assumes ok: "rx_ok d" and b: "u_rx d \<noteq> None" and n: "rx_count d + length xs \<le> UNIX_BUF_SIZE"
  shows "rx_ok (ring_put d xs)" "contents (ring_put d xs) = contents d @ xs"
    "rx_count (ring_put d xs) = rx_count d + length xs"
proof -
  obtain buf where buf: "u_rx d = Some buf" "length buf = UNIX_BUF_SIZE"
    using ok b by (auto simp: rx_ok_def)
  note D = rx_okD [OF ok]
  have t: "u_tail d mod UNIX_BUF_SIZE = (u_head d + rx_count d) mod UNIX_BUF_SIZE"
    by (subst tail_eq [OF D(1,2)]) simp
  have t2: "wrap32 (u_tail d + length xs) = wrap32 (u_head d + (rx_count d + length xs))"
    by (subst tail_eq [OF D(1,2)]) (simp add: add.assoc)
  have "rx_count d + length xs < 2 ^ 32" using n UNIX_BUF_SIZE_bounds(2) by linarith
  note e = rx_count_diff [OF D(1) this]
  have "u_tail (ring_put d xs) = wrap32 (u_head d + (rx_count d + length xs))" "u_head (ring_put d xs) = u_head d"
    by (simp_all add: ring_put_def t2)
  then show c: "rx_count (ring_put d xs) = rx_count d + length xs"
    unfolding rx_count_def [of "ring_put d xs"] by (simp only: e)
  have pos: "0 < UNIX_BUF_SIZE" by (simp add: UNIX_BUF_SIZE_def)
  show "rx_ok (ring_put d xs)"
    using c n D(1) buf pos by (simp add: rx_ok_def) (simp add: ring_put_def)
  have "contents (ring_put d xs) =
        ring_list (ring_write buf ((u_head d + rx_count d) mod length buf) xs) (u_head d) (rx_count d + length xs)"
    using c by (simp add: contents_def) (simp add: ring_put_def buf t)
  also have "\<dots> = contents d @ xs"
    using ring_list_write [of "rx_count d" xs buf "u_head d"] n pos by (simp add: contents_def buf)
  finally show "contents (ring_put d xs) = contents d @ xs" .
qed

lemma ring_consume_effect:
  assumes ok: "rx_ok u" and k: "k \<le> rx_count u"
  shows "rx_ok (u\<lparr>u_head := wrap32 (u_head u + k)\<rparr>)"
    "contents (u\<lparr>u_head := wrap32 (u_head u + k)\<rparr>) = drop k (contents u)"
    "rx_count (u\<lparr>u_head := wrap32 (u_head u + k)\<rparr>) = rx_count u - k"
proof -
  note D = rx_okD [OF ok]
  let ?u = "u\<lparr>u_head := wrap32 (u_head u + k)\<rparr>"
  have h: "wrap32 (u_head u + k) < 2 ^ 32" by simp
  have "u_tail u = wrap32 (wrap32 (u_head u + k) + (rx_count u - k))"
  proof -
    have "u_head u + k + (rx_count u - k) = u_head u + rx_count u" using k by simp
    then show ?thesis unfolding wrap32_simps(4) using tail_eq [OF D(1,2)] by simp
  qed
  moreover have "rx_count u - k < 2 ^ 32" using D(4) by linarith
  ultimately show c: "rx_count ?u = rx_count u - k"
    unfolding rx_count_def [of ?u] using rx_count_diff [OF h, of "rx_count u - k"] by simp
  show "rx_ok ?u"
    using ok c k by (auto simp: rx_ok_def split: option.splits)
  show "contents ?u = drop k (contents u)"
  proof (cases "u_rx u")
    case (Some b)
    then have "length b = UNIX_BUF_SIZE" using ok by (simp add: rx_ok_def)
    then have "ring_list b (wrap32 (u_head u + k)) n = ring_list b (u_head u + k) n" for n
      by (metis ring_list_mod wrap32_simps(3))
    then show ?thesis using Some by (simp add: contents_def c ring_list_drop)
  qed (simp add: contents_def)
qed

lemma ring_peek_contents:
  assumes ok: "rx_ok u" and k: "k + n \<le> rx_count u"
  shows "ring_peek u k n = take n (drop k (contents u))"
proof (cases "u_rx u")
  case (Some b)
  then have l: "length b = UNIX_BUF_SIZE" using ok by (simp add: rx_ok_def)
  have "n \<le> length b" using k l rx_okD(3) [OF ok] by simp
  then show ?thesis
    using k ring_read_list [of n b "u_head u + k"] l UNIX_BUF_SIZE_bounds
    by (simp add: ring_peek_def contents_def Some ring_list_drop ring_list_take)
next
  case None
  then have "n = 0" using ok k by (simp add: rx_ok_def)
  then show ?thesis using None by (simp add: ring_peek_def)
qed

interpretation unix_fifo: fifo "\<lambda>u. rx_ok u \<and> u_rx u \<noteq> None" contents UNIX_BUF_SIZE unix_put unix_get
proof (unfold_locales, goal_cases)
  case (1 s)
  then show ?case using rx_okD by simp
next
  case (2 s xs n s')
  note D = rx_okD [OF conjunct1 [OF 2(1)]]
  have n: "n = min (length xs) (UNIX_BUF_SIZE - rx_count s)"
    using 2(2) by (auto simp: unix_put_def Let_def D(5))
  then have s': "s' = (if n \<noteq> 0 then ring_put s (take n xs) else s)"
    using 2(2) by (auto simp: unix_put_def Let_def D(5))
  have "rx_count s + length (take n xs) \<le> UNIX_BUF_SIZE" using n D(3) by simp
  from ring_put_effect [OF _ _ this] 2(1) show ?case
    using n s' D(6) by (cases "n = 0") (simp_all, simp add: ring_put_def)
next
  case (3 s k ys s')
  note D = rx_okD [OF conjunct1 [OF 3(1)]]
  define n where "n = min k (rx_count s)"
  have e: "(ys, s') = (if n \<noteq> 0 then (ring_peek s 0 n, s\<lparr>u_head := wrap32 (u_head s + n)\<rparr>) else ([], s))"
  proof -
    have m: "(if k < rx_count s then k else rx_count s) = n" by (simp add: n_def min_def)
    show ?thesis using 3(2) [symmetric] unfolding unix_get_def Let_def m .
  qed
  have "take n (contents s) = take k (contents s)" "drop n (contents s) = drop k (contents s)"
    using D(6) by (auto simp: n_def min_def)
  moreover have "n \<le> rx_count s" by (simp add: n_def)
  ultimately show ?case
    using e 3(1) ring_consume_effect [of s n] ring_peek_contents [of s 0 n] by (cases "n = 0") auto
qed

subsection \<open>The state of the connections\<close>

definition live :: "unet \<Rightarrow> nat \<Rightarrow> bool" where
  "live st i \<longleftrightarrow> s_un (socks st i) \<noteq> None"

text \<open>A socket a process can name: it has a file. One that waits for \<^verbatim>\<open>accept\<close> has none.\<close>

definition has_file :: "unet \<Rightarrow> nat \<Rightarrow> bool" where
  "has_file st i \<longleftrightarrow> live st i \<and> s_listener (socks st i) = None"

text \<open>
  What holds between any two critical sections: a ring is never overfull; the two ends of a connection
  name each other, are of the same kind and both have their ring; a queued connection belongs to exactly
  the queue of its listener and has neither a name nor a queue; the queue is at most 64 long.
\<close>

definition ends_ok :: "unet \<Rightarrow> nat \<Rightarrow> nat \<Rightarrow> bool" where
  "ends_ok st i p \<longleftrightarrow> p \<noteq> i \<and> live st p \<and> u_peer (pcb st p) = Some i \<and> u_rx (pcb st i) \<noteq> None \<and>
     u_seqpacket (pcb st p) = u_seqpacket (pcb st i)"

definition queued_ok :: "unet \<Rightarrow> nat \<Rightarrow> nat \<Rightarrow> bool" where
  "queued_ok st l c \<longleftrightarrow> live st c \<and> s_listener (socks st c) = Some l \<and> \<not> s_bound (socks st c) \<and> s_accept (socks st c) = []"

definition sock_ok :: "unet \<Rightarrow> nat \<Rightarrow> bool" where
  "sock_ok st i \<longleftrightarrow> rx_ok (pcb st i) \<and> (\<forall>p. u_peer (pcb st i) = Some p \<longrightarrow> ends_ok st i p) \<and>
     (\<forall>c\<in>set (s_accept (socks st i)). queued_ok st i c) \<and> distinct (s_accept (socks st i)) \<and>
     int (length (s_accept (socks st i))) \<le> s_accept_count (socks st i) \<and>
     s_accept_count (socks st i) \<le> 64 \<and> s_backlog (socks st i) \<le> 64 \<and>
     (u_seqpacket (pcb st i) \<longrightarrow> s_connected (socks st i))"

definition names_ok :: "unet \<Rightarrow> bool" where
  "names_ok st \<longleftrightarrow> distinct (bound st) \<and> (\<forall>i\<in>set (bound st). live st i \<and> s_bound (socks st i)) \<and>
     inj_on (\<lambda>i. u_path (pcb st i)) (set (bound st))"

definition net_ok :: "unet \<Rightarrow> bool" where
  "net_ok st \<longleftrightarrow> (\<forall>i. live st i \<longrightarrow> sock_ok st i) \<and> names_ok st"

lemma set_sock_simps [simp]:
  "socks (set_sock i s st) = (socks st)(i := s)" "bound (set_sock i s st) = bound st"
  "live (set_sock i s st) j = (if j = i then s_un s \<noteq> None else live st j)"
  "pcb (set_sock i s st) j = (if j = i then case s_un s of Some u \<Rightarrow> u | None \<Rightarrow> new_pcb else pcb st j)"
  by (simp_all add: set_sock_def live_def pcb_def)

lemma set_pcb_simps [simp]:
  "socks (set_pcb i u st) = (socks st)(i := (socks st i)\<lparr>s_un := Some u\<rparr>)" "bound (set_pcb i u st) = bound st"
  "live (set_pcb i u st) j = (j = i \<or> live st j)"
  "pcb (set_pcb i u st) j = (if j = i then u else pcb st j)"
  by (simp_all add: set_pcb_def)

lemma s_un_pcb: "live st i \<Longrightarrow> s_un (socks st i) = Some (pcb st i)"
  by (auto simp: live_def pcb_def)

lemma net_okD:
  assumes "net_ok st" and "live st i"
  shows "rx_ok (pcb st i)" "u_peer (pcb st i) = Some p \<Longrightarrow> ends_ok st i p"
    "c \<in> set (s_accept (socks st i)) \<Longrightarrow> queued_ok st i c"
  using assms by (auto simp: net_ok_def sock_ok_def)

text \<open>Changes that touch neither the links between sockets nor the names.\<close>

lemma net_ok_cong:
  assumes ok: "net_ok st" and same: "bound st' = bound st" "\<And>j. live st' j = live st j"
    "\<And>j. u_peer (pcb st' j) = u_peer (pcb st j)" "\<And>j. u_seqpacket (pcb st' j) = u_seqpacket (pcb st j)"
    "\<And>j. u_path (pcb st' j) = u_path (pcb st j)" "\<And>j. s_bound (socks st' j) = s_bound (socks st j)"
    "\<And>j. s_accept (socks st' j) = s_accept (socks st j)" "\<And>j. s_listener (socks st' j) = s_listener (socks st j)"
    "\<And>j. s_accept_count (socks st' j) = s_accept_count (socks st j)"
    and new: "\<And>j. live st j \<Longrightarrow> rx_ok (pcb st' j)" "\<And>j. u_rx (pcb st j) \<noteq> None \<Longrightarrow> u_rx (pcb st' j) \<noteq> None"
    "\<And>j. live st j \<Longrightarrow> s_backlog (socks st' j) \<le> 64"
    "\<And>j. live st j \<Longrightarrow> s_connected (socks st j) \<Longrightarrow> s_connected (socks st' j)"
  shows "net_ok st'"
proof -
  have "ends_ok st' j p" if "ends_ok st j p" for j p using that new(2) by (simp add: ends_ok_def same)
  moreover have "queued_ok st' j c = queued_ok st j c" for j c by (simp add: queued_ok_def same)
  ultimately have "sock_ok st' j" if "sock_ok st j" "live st j" for j
    using that new(1,3,4) unfolding sock_ok_def same by blast
  then show ?thesis using ok by (simp add: net_ok_def names_ok_def same)
qed

lemma net_ok_set_pcb:
  assumes ok: "net_ok st" and i: "live st i" and "rx_ok u" and same: "u_peer u = u_peer (pcb st i)"
    "u_seqpacket u = u_seqpacket (pcb st i)" "u_path u = u_path (pcb st i)" "u_rx (pcb st i) \<noteq> None \<Longrightarrow> u_rx u \<noteq> None"
  shows "net_ok (set_pcb i u st)"
  by (rule net_ok_cong [OF ok]) (use assms in \<open>auto simp: net_ok_def sock_ok_def\<close>)

lemma net_ok_set_flags:
  assumes ok: "net_ok st" and same: "s_un s = s_un (socks st i)" "s_bound s = s_bound (socks st i)"
    "s_accept s = s_accept (socks st i)" "s_accept_count s = s_accept_count (socks st i)"
    "s_listener s = s_listener (socks st i)" and b: "s_backlog s \<le> 64" "s_connected (socks st i) \<Longrightarrow> s_connected s"
  shows "net_ok (set_sock i s st)"
proof -
  have l: "live (set_sock i s st) j = live st j" and p: "pcb (set_sock i s st) j = pcb st j" for j
    using same by (simp_all add: live_def pcb_def)
  have r: "rx_ok (pcb st j)" "s_backlog (socks st j) \<le> 64" if "live st j" for j
    using ok that by (simp_all add: net_ok_def sock_ok_def)
  show ?thesis by (rule net_ok_cong [OF ok]) (use same b r in \<open>auto simp: l p simp del: set_sock_simps(3,4)\<close>)
qed

text \<open>Closing one end: nobody refers to it any more.\<close>

lemma close_pcb_simps:
  assumes "net_ok st" and "live st i"
  shows "live (close_pcb i st) j = (j \<noteq> i \<and> live st j)" "bound (close_pcb i st) = bound st"
    "s_accept (socks (close_pcb i st) j) = s_accept (socks st j)"
    "s_listener (socks (close_pcb i st) j) = s_listener (socks st j)"
    "s_bound (socks (close_pcb i st) j) = s_bound (socks st j)"
    "s_accept_count (socks (close_pcb i st) j) = s_accept_count (socks st j)"
    "s_backlog (socks (close_pcb i st) j) = s_backlog (socks st j)"
    "s_connected (socks (close_pcb i st) j) = s_connected (socks st j)"
    "j \<noteq> i \<Longrightarrow> pcb (close_pcb i st) j =
       (if u_peer (pcb st i) = Some j then (pcb st j)\<lparr>u_peer := None, u_eof := True\<rparr> else pcb st j)"
  using net_okD(2) [OF assms] by (auto simp: close_pcb_def Let_def ends_ok_def split: option.splits)

lemma ring_other_fields [simp]:
  "rx_count (u\<lparr>u_peer := a\<rparr>) = rx_count u" "rx_count (u\<lparr>u_eof := e\<rparr>) = rx_count u"
  "rx_count (u\<lparr>u_path := p\<rparr>) = rx_count u" "rx_count (u\<lparr>u_seqpacket := q\<rparr>) = rx_count u"
  "rx_ok (u\<lparr>u_peer := a\<rparr>) = rx_ok u" "rx_ok (u\<lparr>u_eof := e\<rparr>) = rx_ok u"
  "rx_ok (u\<lparr>u_path := p\<rparr>) = rx_ok u" "rx_ok (u\<lparr>u_seqpacket := q\<rparr>) = rx_ok u"
  "contents (u\<lparr>u_peer := a\<rparr>) = contents u" "contents (u\<lparr>u_eof := e\<rparr>) = contents u"
  "contents (u\<lparr>u_path := p\<rparr>) = contents u" "contents (u\<lparr>u_seqpacket := q\<rparr>) = contents u"
  by (simp_all add: rx_ok_def contents_def rx_count_def cong: option.case_cong)

lemma net_ok_close_pcb:
  assumes ok: "net_ok st" and i: "live st i" and b: "i \<notin> set (bound st)"
    and q: "\<And>l. live st l \<Longrightarrow> i \<notin> set (s_accept (socks st l))"
  shows "net_ok (close_pcb i st)"
  unfolding net_ok_def
proof (intro conjI allI impI)
  note S = close_pcb_simps [OF ok i]
  fix j assume "live (close_pcb i st) j"
  then have j: "j \<noteq> i" "live st j" by (simp_all add: S)
  then have "sock_ok st j" using ok by (simp add: net_ok_def)
  moreover have "rx_ok (pcb (close_pcb i st) j) = rx_ok (pcb st j)" "u_seqpacket (pcb (close_pcb i st) j) = u_seqpacket (pcb st j)"
    using j by (simp_all add: S)
  moreover have "ends_ok (close_pcb i st) j p"
    if p: "u_peer (pcb (close_pcb i st) j) = Some p" and "\<And>p. u_peer (pcb st j) = Some p \<Longrightarrow> ends_ok st j p" for p
  proof -
    have e: "u_peer (pcb st i) \<noteq> Some j" "u_peer (pcb st j) = Some p" using p j by (auto simp: S split: if_splits)
    then have "ends_ok st j p" using that by blast
    moreover from this have "p \<noteq> i" using e by (auto simp: ends_ok_def)
    moreover have "u_peer (pcb st i) \<noteq> Some p"
      using net_okD(2) [OF ok i] calculation j e by (auto simp: ends_ok_def)
    ultimately show ?thesis using j e by (simp add: ends_ok_def S)
  qed
  moreover have "queued_ok (close_pcb i st) j c" if "queued_ok st j c" "c \<in> set (s_accept (socks st j))" for c
    using that q [OF j(2)] by (auto simp: queued_ok_def S)
  ultimately show "sock_ok (close_pcb i st) j"
    unfolding sock_ok_def S by auto
next
  note S = close_pcb_simps [OF ok i]
  have "u_path (pcb (close_pcb i st) j) = u_path (pcb st j)" if "j \<in> set (bound st)" for j
    using that b by (subst S(9)) auto
  then have "inj_on (\<lambda>j. u_path (pcb (close_pcb i st) j)) (set (bound st))"
    using ok by (auto simp: net_ok_def names_ok_def inj_on_def)
  then show "names_ok (close_pcb i st)"
    using ok b by (auto simp: net_ok_def names_ok_def S)
qed

lemma not_queued: "net_ok st \<Longrightarrow> s_listener (socks st i) = None \<Longrightarrow> live st l \<Longrightarrow> i \<notin> set (s_accept (socks st l))"
  using net_okD(3) [of st l i] unfolding queued_ok_def by auto

text \<open>A connection that leaves its queue is in no queue.\<close>

lemma net_ok_pop:
  assumes ok: "net_ok st" and i: "live st i" and q: "s_accept (socks st i) = c # cs"
    and k: "int (length cs) \<le> k" "k \<le> 64"
    and st': "st' = set_sock i ((socks st i)\<lparr>s_accept := cs, s_accept_count := k\<rparr>) st"
  shows "net_ok st'" and "live st' j = live st j" "pcb st' j = pcb st j"
    and "c \<noteq> i" "live st c" "\<not> s_bound (socks st c)" "s_accept (socks st c) = []" "s_listener (socks st c) = Some i"
    and "live st' l \<Longrightarrow> c \<notin> set (s_accept (socks st' l))"
proof -
  have c: "queued_ok st i c" using net_okD(3) [OF ok i] q by simp
  then show "c \<noteq> i" "live st c" "\<not> s_bound (socks st c)" "s_accept (socks st c) = []" "s_listener (socks st c) = Some i"
    using q by (auto simp: queued_ok_def)
  have d: "distinct (c # cs)" using ok i q by (auto simp: net_ok_def sock_ok_def)
  have l: "live st' j = live st j" and p: "pcb st' j = pcb st j" for j
    using i by (auto simp: live_def pcb_def st')
  then show "live st' j = live st j" "pcb st' j = pcb st j" by simp_all
  have b: "s_backlog (socks st i) \<le> 64" using ok i by (auto simp: net_ok_def sock_ok_def)
  have "i \<notin> set cs" using net_okD(3) [OF ok i, of i] q by (auto simp: queued_ok_def)
  then have Q: "queued_ok st' j c'" if "queued_ok st j c'" "j = i \<longrightarrow> c' \<in> set cs" for j c'
  proof -
    have "c' \<noteq> i" using that q by (auto simp: queued_ok_def)
    then show ?thesis using that by (simp add: queued_ok_def l) (simp add: st')
  qed
  have E: "ends_ok st' j p = ends_ok st j p" for j p by (simp add: ends_ok_def l p)
  have "sock_ok st' j" if "live st j" for j
  proof (cases "j = i")
    case True
    have "sock_ok st i" using ok i by (simp add: net_ok_def)
    then show ?thesis using Q [of i] d k b q unfolding True sock_ok_def E p by (simp add: st')
  next
    case False
    have "sock_ok st j" using ok that by (simp add: net_ok_def)
    then show ?thesis using Q [of j] False unfolding sock_ok_def E p by (simp add: st')
  qed
  moreover have "names_ok st'" using ok unfolding net_ok_def names_ok_def l p by (auto simp: st')
  ultimately show "net_ok st'" by (simp add: net_ok_def l)
  show "c \<notin> set (s_accept (socks st' l))" if "live st' l"
    using that d c net_okD(3) [OF ok, of l c] unfolding l by (auto simp: queued_ok_def st' split: if_splits)
qed

text \<open>New sockets, links between two ends, and the queue of a listener.\<close>

lemma net_ok_fresh:
  assumes ok: "net_ok st" and c: "\<not> live st c" and s: "s_un s = Some u" "rx_ok u" "u_peer u = None"
    "s_accept s = []" "s_accept_count s = 0" "s_backlog s = 0" "u_seqpacket u \<longrightarrow> s_connected s"
  shows "net_ok (set_sock c s st)"
proof -
  have E: "ends_ok (set_sock c s st) j p" if "ends_ok st j p" "live st j" for j p
    using that c by (auto simp: ends_ok_def)
  have Q: "queued_ok (set_sock c s st) j d" if "queued_ok st j d" for j d
    using that c by (auto simp: queued_ok_def)
  have "sock_ok (set_sock c s st) j" if "j \<noteq> c" "live st j" for j
  proof -
    have "sock_ok st j" using ok that(2) by (simp add: net_ok_def)
    then show ?thesis using that E [of j] Q [of j] unfolding sock_ok_def by simp
  qed
  moreover have "sock_ok (set_sock c s st) c" using s by (simp add: sock_ok_def)
  moreover have "inj_on (\<lambda>j. u_path (pcb (set_sock c s st) j)) (set (bound st))"
  proof -
    have "c \<notin> set (bound st)" using ok c by (auto simp: net_ok_def names_ok_def)
    then have "inj_on (\<lambda>j. u_path (pcb (set_sock c s st) j)) (set (bound st)) = inj_on (\<lambda>j. u_path (pcb st j)) (set (bound st))"
      by (intro inj_on_cong) auto
    then show ?thesis using ok by (simp add: net_ok_def names_ok_def)
  qed
  ultimately show ?thesis
    using ok c by (simp add: net_ok_def names_ok_def) (metis set_sock_simps(3))
qed

lemma net_ok_link:
  assumes ok: "net_ok st" and i: "live st i" "u_peer (pcb st i) = None" "u_rx (pcb st i) \<noteq> None"
    and c: "live st c" "u_peer (pcb st c) = None" "u_rx (pcb st c) \<noteq> None" and "i \<noteq> c"
    and k: "u_seqpacket (pcb st i) = u_seqpacket (pcb st c)"
    and st': "st' = set_pcb i ((pcb st i)\<lparr>u_peer := Some c\<rparr>) (set_pcb c ((pcb st c)\<lparr>u_peer := Some i\<rparr>) st)"
  shows "net_ok st'"
proof -
  have l: "live st' j = live st j" for j using i c by (auto simp: st')
  have p: "pcb st' j = (if j = i then (pcb st i)\<lparr>u_peer := Some c\<rparr> else if j = c then (pcb st c)\<lparr>u_peer := Some i\<rparr> else pcb st j)" for j
    by (simp add: st')
  have f: "s_accept (socks st' j) = s_accept (socks st j)" "s_accept_count (socks st' j) = s_accept_count (socks st j)"
    "s_backlog (socks st' j) = s_backlog (socks st j)" "s_bound (socks st' j) = s_bound (socks st j)" "bound st' = bound st"
    "s_listener (socks st' j) = s_listener (socks st j)" "s_connected (socks st' j) = s_connected (socks st j)" for j
    by (simp_all add: st')
  have Q: "queued_ok st' j d = queued_ok st j d" for j d by (simp add: queued_ok_def l f)
  have E: "ends_ok st' j d" if "u_peer (pcb st' j) = Some d" "live st j" for j d
  proof (cases "j = i \<or> j = c")
    case True
    then show ?thesis using that assms by (auto simp: ends_ok_def l p)
  next
    case False
    then have "ends_ok st j d" using net_okD(2) [OF ok that(2)] that(1) by (simp add: p)
    then show ?thesis using False i(2) c(2) by (auto simp: ends_ok_def l p)
  qed
  have "sock_ok st' j" if "live st j" for j
  proof -
    have "sock_ok st j" using ok that by (simp add: net_ok_def)
    moreover have "rx_ok (pcb st' j) = rx_ok (pcb st j)" "u_seqpacket (pcb st' j) = u_seqpacket (pcb st j)" by (simp_all add: p)
    ultimately show ?thesis using E [OF _ that] unfolding sock_ok_def Q f by simp
  qed
  moreover have "u_path (pcb st' j) = u_path (pcb st j)" for j by (simp add: p)
  ultimately show ?thesis using ok by (simp add: net_ok_def names_ok_def l f)
qed

lemma net_ok_set_listener:
  assumes ok: "net_ok st" and c: "live st c" and q: "\<And>l. live st l \<Longrightarrow> c \<notin> set (s_accept (socks st l))"
  shows "net_ok (set_sock c ((socks st c)\<lparr>s_listener := x\<rparr>) st)" (is "net_ok ?st")
proof -
  have l: "live ?st j = live st j" and p: "pcb ?st j = pcb st j" for j
    using c by (auto simp: live_def pcb_def)
  have f: "s_accept (socks ?st j) = s_accept (socks st j)" "s_accept_count (socks ?st j) = s_accept_count (socks st j)"
    "s_backlog (socks ?st j) = s_backlog (socks st j)" "s_bound (socks ?st j) = s_bound (socks st j)" "bound ?st = bound st"
    "s_connected (socks ?st j) = s_connected (socks st j)" for j
    by simp_all
  have E: "ends_ok ?st j d = ends_ok st j d" for j d unfolding ends_ok_def l p ..
  have Q: "queued_ok ?st j d" if "queued_ok st j d" "d \<noteq> c" for j d using that unfolding queued_ok_def l f by simp
  have "sock_ok ?st j" if "live st j" for j
  proof -
    have "sock_ok st j" using ok that by (simp add: net_ok_def)
    then show ?thesis using q [OF that] Q [of j] unfolding sock_ok_def E f p by metis
  qed
  then show ?thesis using ok unfolding net_ok_def names_ok_def l f p by simp
qed

lemma net_ok_push:
  assumes ok: "net_ok st" and l: "live st l" and c: "queued_ok st l c" "c \<notin> set (s_accept (socks st l))" "c \<noteq> l"
    and k: "s_accept_count (socks st l) < s_backlog (socks st l)"
    and st': "st' = set_sock l ((socks st l)\<lparr>s_accept := s_accept (socks st l) @ [c],
                                              s_accept_count := s_accept_count (socks st l) + 1\<rparr>) st"
    and b: "s_bound (socks st l)"
  shows "net_ok st'"
proof -
  have L: "live st' j = live st j" and p: "pcb st' j = pcb st j" for j
    using l by (auto simp: live_def pcb_def st')
  have E: "ends_ok st' j d = ends_ok st j d" for j d unfolding ends_ok_def L p ..
  have Q: "queued_ok st' j d" if "queued_ok st j d" for j d
  proof -
    have "d \<noteq> l" using that b by (auto simp: queued_ok_def)
    then show ?thesis using that unfolding queued_ok_def L by (simp add: st')
  qed
  have s: "sock_ok st j" if "live st j" for j using ok that by (simp add: net_ok_def)
  have "sock_ok st' j" if "live st j" for j
  proof (cases "j = l")
    case True
    then show ?thesis using s [OF l] Q [of l] c k unfolding True sock_ok_def E p by (auto simp: st')
  next
    case False
    then show ?thesis using s [OF that] Q [of j] unfolding sock_ok_def E p by (simp add: st')
  qed
  moreover have "names_ok st'" using ok unfolding net_ok_def names_ok_def L p by (auto simp: st')
  ultimately show ?thesis by (simp add: net_ok_def L)
qed

end
