(* ===== verification/Unix_Runs.thy ===== *)
theory Unix_Runs
  imports Unix_Socket
begin

text \<open>
  What AF_UNIX sockets promise under every interleaving of calls: the calls of \<^verbatim>\<open>Unix_Socket\<close> as the steps
  of a transition system, with the history of what each socket was sent and what was received from it.
\<close>

subsection \<open>Every operation keeps the state consistent\<close>

text \<open>An operation that moves no data: the sockets that remain hold what they held.\<close>

definition same_data :: "unet \<Rightarrow> unet \<Rightarrow> bool" where
  "same_data st st' \<longleftrightarrow> (\<forall>j. live st' j \<longrightarrow> live st j \<and> contents (pcb st' j) = contents (pcb st j) \<and>
     u_seqpacket (pcb st' j) = u_seqpacket (pcb st j))"

lemma same_data_refl [simp]: "same_data st st"
  by (simp add: same_data_def)

lemma same_data_trans: "same_data st st' \<Longrightarrow> same_data st' st'' \<Longrightarrow> same_data st st''"
  by (simp add: same_data_def)

lemma close_pcb_same_data: "net_ok st \<Longrightarrow> live st i \<Longrightarrow> same_data st (close_pcb i st)"
  by (simp add: same_data_def close_pcb_simps)

lemma close_accepts_ok:
  assumes "net_ok st" "live st i" "s_listener (socks st i) = None" "s_accept (socks st i) = cs"
  shows "net_ok (close_accepts i cs st) \<and> live (close_accepts i cs st) i \<and> same_data st (close_accepts i cs st) \<and>
    s_listener (socks (close_accepts i cs st) i) = None \<and> s_accept (socks (close_accepts i cs st) i) = [] \<and>
    bound (close_accepts i cs st) = bound st"
  using assms
proof (induction cs arbitrary: st)
  case (Cons c cs)
  let ?k = "s_accept_count (socks st i)"
  define st1 where "st1 = set_sock i ((socks st i)\<lparr>s_accept := cs\<rparr>) st"
  have e: "st1 = set_sock i ((socks st i)\<lparr>s_accept := cs, s_accept_count := ?k\<rparr>) st" by (simp add: st1_def)
  have k: "int (length cs) \<le> ?k" "?k \<le> 64"
    using Cons.prems by (auto simp: net_ok_def sock_ok_def)
  note P = net_ok_pop [OF Cons.prems(1,2,4) k e]
  have c: "live st1 c" using P(2,5) by simp
  have cb: "c \<notin> set (bound st1)"
    using P(6) Cons.prems(1) by (auto simp: st1_def net_ok_def names_ok_def)
  have ok: "net_ok (close_pcb c st1)" by (rule net_ok_close_pcb [OF P(1) c cb P(9)])
  note S = close_pcb_simps [OF P(1) c]
  have "same_data st st1" by (simp add: same_data_def P(2,3))
  then have sd: "same_data st (close_pcb c st1)" by (rule same_data_trans) (rule close_pcb_same_data [OF P(1) c])
  have i: "live (close_pcb c st1) i" "s_listener (socks (close_pcb c st1) i) = None"
    "s_accept (socks (close_pcb c st1) i) = cs" "bound (close_pcb c st1) = bound st"
    using Cons.prems P(2,4) by (simp_all add: S) (simp_all add: st1_def)
  show ?case
    using Cons.IH [OF ok i(1,2,3)] same_data_trans [OF sd] i(4) by (simp add: st1_def [symmetric])
qed simp

lemma unix_close_ok:
  assumes ok: "net_ok st" and f: "has_file st i"
  shows "net_ok (unix_close i st) \<and> same_data st (unix_close i st)"
proof -
  have i: "live st i" "s_listener (socks st i) = None" using f by (simp_all add: has_file_def)
  define st1 where "st1 = (if s_bound (socks st i) then st\<lparr>bound := remove1 i (bound st)\<rparr> else st)"
  have l: "live st1 j = live st j" "pcb st1 j = pcb st j" "socks st1 = socks st" for j
    by (simp_all add: st1_def live_def pcb_def)
  have b: "set (bound st1) \<subseteq> set (bound st)" "distinct (bound st1)" "i \<notin> set (bound st1)"
    using ok by (auto simp: st1_def net_ok_def names_ok_def dest: notin_set_remove1)
  have "inj_on (\<lambda>j. u_path (pcb st j)) (set (bound st1))"
    by (rule inj_on_subset [OF _ b(1)]) (use ok in \<open>simp add: net_ok_def names_ok_def\<close>)
  then have ok1: "net_ok st1"
    using ok b unfolding net_ok_def names_ok_def sock_ok_def ends_ok_def queued_ok_def l by blast
  define st2 where "st2 = close_accepts i (s_accept (socks st1 i)) st1"
  have 2: "net_ok st2" "live st2 i" "same_data st1 st2" "s_listener (socks st2 i) = None" "bound st2 = bound st1"
    using close_accepts_ok [OF ok1, of i "s_accept (socks st1 i)"] i by (simp_all add: st2_def l)
  have e: "unix_close i st = close_pcb i st2"
    using s_un_pcb [OF i(1)] by (simp add: unix_close_def Let_def st1_def [symmetric] st2_def)
  have "net_ok (close_pcb i st2)"
    by (rule net_ok_close_pcb [OF 2(1,2)]) (use 2 b in \<open>auto dest: not_queued [OF 2(1) 2(4)]\<close>)
  moreover have "same_data st st1" by (simp add: same_data_def l)
  ultimately show ?thesis
    using same_data_trans [OF _ same_data_trans [OF 2(3) close_pcb_same_data [OF 2(1,2)]]] e by simp
qed

text \<open>Closing a queued connection by \<^verbatim>\<open>unix_close\<close>, as \<^verbatim>\<open>sock_put\<close> does, is what the loop above does.\<close>

lemma unix_close_queued:
  assumes "net_ok st" "live st l" "c \<in> set (s_accept (socks st l))"
  shows "unix_close c st = close_pcb c st"
  using net_okD(3) [OF assms] s_un_pcb [of st c] by (simp add: queued_ok_def unix_close_def Let_def)

lemma find_boundD: "find_bound st path = Some l \<Longrightarrow> l \<in> set (bound st) \<and> u_path (pcb st l) = path"
  by (auto simp: find_bound_def find_Some_iff)

lemma unix_bind_ok:
  assumes ok: "net_ok st" and f: "has_file st i"
  shows "net_ok (snd (unix_bind st i path)) \<and> same_data st (snd (unix_bind st i path))"
proof (cases "path = '''' \<or> s_bound (socks st i) \<or> find_bound st path \<noteq> None")
  case False
  have i: "live st i" "s_listener (socks st i) = None" using f by (simp_all add: has_file_def)
  have new: "\<And>j. j \<in> set (bound st) \<Longrightarrow> u_path (pcb st j) \<noteq> path"
    using False by (auto simp: find_bound_def find_None_iff)
  have ib: "i \<notin> set (bound st)" using False ok by (auto simp: net_ok_def names_ok_def)
  define st' where "st' = snd (unix_bind st i path)"
  have p: "pcb st' j = (if j = i then (pcb st i)\<lparr>u_path := path\<rparr> else pcb st j)"
    and l: "live st' j = live st j" and b: "bound st' = i # bound st"
    and f: "s_accept (socks st' j) = s_accept (socks st j)" "s_accept_count (socks st' j) = s_accept_count (socks st j)"
      "s_backlog (socks st' j) = s_backlog (socks st j)" "s_listener (socks st' j) = s_listener (socks st j)"
      "s_bound (socks st' j) = (j = i \<or> s_bound (socks st j))" "s_connected (socks st' j) = s_connected (socks st j)" for j
    using False i(1) by (auto simp: st'_def unix_bind_def Let_def pcb_def live_def)
  have pe: "u_peer (pcb st' j) = u_peer (pcb st j)" "u_rx (pcb st' j) = u_rx (pcb st j)" "rx_ok (pcb st' j) = rx_ok (pcb st j)"
    "u_seqpacket (pcb st' j) = u_seqpacket (pcb st j)" "contents (pcb st' j) = contents (pcb st j)" for j
    by (simp_all add: p)
  have E: "ends_ok st' j d = ends_ok st j d" for j d by (simp add: ends_ok_def l pe)
  have "sock_ok st' j" if "live st j" for j
  proof -
    have "sock_ok st j" using ok that by (simp add: net_ok_def)
    moreover have "queued_ok st' j c" if "c \<in> set (s_accept (socks st j))" "queued_ok st j c" for c
      using that not_queued [OF ok i(2) \<open>live st j\<close>] by (auto simp: queued_ok_def l f)
    ultimately show ?thesis unfolding sock_ok_def E f pe by blast
  qed
  moreover have "inj_on (\<lambda>j. u_path (pcb st' j)) (set (bound st'))"
    using ok new ib by (auto simp: p b net_ok_def names_ok_def inj_on_def)
  ultimately show ?thesis
    using ok ib i unfolding st'_def [symmetric] by (auto simp: net_ok_def names_ok_def same_data_def l b f pe)
qed (use ok in \<open>auto simp: unix_bind_def\<close>)

lemma unix_listen_ok:
  assumes "net_ok st"
  shows "net_ok (snd (unix_listen st i n)) \<and> same_data st (snd (unix_listen st i n))"
proof -
  have "net_ok (set_sock i ((socks st i)\<lparr>s_listening := True, s_backlog := k\<rparr>) st)" if "k \<le> 64" for k
    by (rule net_ok_set_flags [OF assms]) (use that in simp_all)
  moreover have "pcb (set_sock i ((socks st i)\<lparr>s_listening := True, s_backlog := k\<rparr>) st) j = pcb st j"
    "live (set_sock i ((socks st i)\<lparr>s_listening := True, s_backlog := k\<rparr>) st) j = live st j" for j k
    by (auto simp: pcb_def live_def)
  ultimately show ?thesis
    using assms by (simp add: unix_listen_def same_data_def del: set_sock_simps(3,4))
qed

lemma pcb_rx_allocD:
  assumes "pcb_rx_alloc mem u = Some u'" and "rx_ok u" and "\<And>b. mem = Some b \<Longrightarrow> length b = UNIX_BUF_SIZE"
  shows "rx_ok u'" "u_rx u' \<noteq> None" "u_peer u' = u_peer u" "u_seqpacket u' = u_seqpacket u" "u_path u' = u_path u"
    "contents u' = contents u"
  using assms by (auto simp: pcb_rx_alloc_def rx_ok_def contents_def rx_count_def split: option.splits)

lemma new_pcb_simps [simp]:
  "rx_ok new_pcb" "contents new_pcb = []" "u_peer new_pcb = None" "u_seqpacket new_pcb = False"
  by (simp_all add: new_pcb_def rx_ok_def contents_def rx_count_def wrap32_def)

text \<open>A call that makes sockets: the new ones are empty.\<close>

definition new_data :: "nat set \<Rightarrow> unet \<Rightarrow> unet \<Rightarrow> bool" where
  "new_data N st st' \<longleftrightarrow> (\<forall>j. live st' j \<longrightarrow> (if j \<in> N then contents (pcb st' j) = []
     else live st j \<and> contents (pcb st' j) = contents (pcb st j) \<and> u_seqpacket (pcb st' j) = u_seqpacket (pcb st j)))"

lemma new_data_same: "same_data st st' \<Longrightarrow> \<forall>j\<in>N. \<not> live st j \<Longrightarrow> new_data N st st'"
  by (auto simp: same_data_def new_data_def)

lemma unix_socket_ok:
  assumes ok: "net_ok st" and i: "\<not> live st i"
  shows "net_ok (snd (unix_socket st kind (Some i) mem)) \<and> new_data {i} st (snd (unix_socket st kind (Some i) mem))"
proof -
  have "net_ok (set_sock i (new_sock\<lparr>s_un := Some new_pcb\<rparr>) st)"
    by (rule net_ok_fresh [OF ok i, where u = new_pcb]) (simp_all add: new_sock_def)
  then show ?thesis
    using ok i by (auto simp: unix_socket_def pcb_new_def new_data_def)
qed

lemma pair_endD:
  assumes "pair_end seq i ok mem = Some s" and "\<And>b. mem = Some b \<Longrightarrow> length b = UNIX_BUF_SIZE"
  shows "\<exists>u. s_un s = Some u \<and> rx_ok u \<and> u_peer u = None \<and> u_rx u \<noteq> None \<and> u_seqpacket u = seq \<and> contents u = []"
    "s_accept s = []" "s_accept_count s = 0" "s_backlog s = 0" "P \<longrightarrow> s_connected s"
proof -
  obtain u where u: "pcb_rx_alloc mem new_pcb = Some u" and s: "s_un s = Some (u\<lparr>u_seqpacket := seq\<rparr>)"
    "s_accept s = []" "s_accept_count s = 0" "s_backlog s = 0" "s_connected s"
    using assms(1) by (auto simp: pair_end_def pcb_new_def new_sock_def split: option.splits if_splits)
  note R = pcb_rx_allocD [OF u _ assms(2)]
  have "rx_ok u" "u_peer u = None" "u_rx u \<noteq> None" "contents u = []" using R by simp_all
  then show "\<exists>u. s_un s = Some u \<and> rx_ok u \<and> u_peer u = None \<and> u_rx u \<noteq> None \<and> u_seqpacket u = seq \<and> contents u = []"
    using s(1) by simp
  show "s_accept s = []" "s_accept_count s = 0" "s_backlog s = 0" "P \<longrightarrow> s_connected s" using s by simp_all
qed

lemma unix_socketpair_ok:
  assumes ok: "net_ok st" and ij: "\<not> live st i" "\<not> live st j" "i \<noteq> j"
    and mem: "\<And>b. imem = Some b \<Longrightarrow> length b = UNIX_BUF_SIZE" "\<And>b. jmem = Some b \<Longrightarrow> length b = UNIX_BUF_SIZE"
    and st': "st' = snd (unix_socketpair st kind (Some i, iok, imem) (Some j, jok, jmem))"
  shows "net_ok st' \<and> new_data {i, j} st st'"
proof (cases "st' = st")
  case True
  then show ?thesis using ok ij by (auto simp: new_data_def)
next
  case False
  obtain s t where st: "pair_end (kind = 5) (Some i) iok imem = Some s" "pair_end (kind = 5) (Some j) jok jmem = Some t"
    using False unfolding st' unix_socketpair_def by (auto split: option.splits if_splits)
  obtain u where u: "s_un s = Some u" "rx_ok u" "u_peer u = None" "u_rx u \<noteq> None" "u_seqpacket u = (kind = 5)" "contents u = []"
    using pair_endD(1) [OF st(1) mem(1)] by auto
  obtain v where v: "s_un t = Some v" "rx_ok v" "u_peer v = None" "u_rx v \<noteq> None" "u_seqpacket v = (kind = 5)" "contents v = []"
    using pair_endD(1) [OF st(2) mem(2)] by auto
  define st2 where "st2 = set_sock j t (set_sock i s st)"
  have "net_ok (set_sock i s st)" by (rule net_ok_fresh [OF ok ij(1) u(1-3) pair_endD(2-5) [OF st(1) mem(1)]])
  then have ok2: "net_ok st2"
    unfolding st2_def by (rule net_ok_fresh [OF _ _ v(1-3) pair_endD(2-5) [OF st(2) mem(2)]]) (use ij in simp)
  have p: "live st2 i" "live st2 j" "pcb st2 i = u" "pcb st2 j = v" using u v ij by (simp_all add: st2_def)
  have e: "st' = set_pcb j (v\<lparr>u_peer := Some i\<rparr>) (set_pcb i (u\<lparr>u_peer := Some j\<rparr>) st2)"
    using False st ij u(1) v(1) unfolding st' unix_socketpair_def by (auto simp: Let_def st2_def [symmetric] split: if_splits)
  have "net_ok st'"
    by (rule net_ok_link [OF ok2 p(2) _ _ p(1), where st' = st']) (use u v p ij e in simp_all)
  moreover have "new_data {i, j} st st'"
    using u v ij unfolding e by (auto simp: new_data_def st2_def)
  ultimately show ?thesis ..
qed

lemma unix_connect_ok:
  assumes ok: "net_ok st" and f: "has_file st i" and c: "\<not> live st c"
    and mem: "\<And>b. cmem = Some b \<Longrightarrow> length b = UNIX_BUF_SIZE" "\<And>b. smem = Some b \<Longrightarrow> length b = UNIX_BUF_SIZE"
    and st': "st' = snd (unix_connect st i path (Some c) mok cmem smem)"
  shows "net_ok st' \<and> new_data {c} st st'"
proof (cases "st' = st")
  case True
  then show ?thesis using ok c by (auto simp: new_data_def)
next
  case False
  have i: "live st i" "i \<noteq> c" using f c by (auto simp: has_file_def)
  obtain l cu su where l: "find_bound st path = Some l" and n: "u_peer (pcb st i) = None" "\<not> s_connected (socks st i)"
    and k: "s_accept_count (socks st l) < s_backlog (socks st l)"
    and u: "pcb_rx_alloc cmem new_pcb = Some cu" "pcb_rx_alloc smem (pcb st i) = Some su" "mok"
    using False unfolding st' unix_connect_def
    by (auto simp: Let_def pcb_new_def split: option.splits if_splits)
  have lb: "live st l" "s_bound (socks st l)" "l \<noteq> c"
    using find_boundD [OF l] ok c by (auto simp: net_ok_def names_ok_def)
  note C = pcb_rx_allocD [OF u(1) new_pcb_simps(1) mem(1), simplified]
  note S = pcb_rx_allocD [OF u(2) net_okD(1) [OF ok i(1)] mem(2)]
  have sq: "\<not> u_seqpacket (pcb st i)" using ok i(1) n(2) by (auto simp: net_ok_def sock_ok_def)
  define st1 where "st1 = set_pcb i su (set_sock c (new_sock\<lparr>s_un := Some cu\<rparr>) st)"
  have "net_ok (set_sock c (new_sock\<lparr>s_un := Some cu\<rparr>) st)"
    by (rule net_ok_fresh [OF ok c, where u = cu]) (use C in \<open>simp_all add: new_sock_def\<close>)
  then have 1: "net_ok st1"
    unfolding st1_def by (rule net_ok_set_pcb) (use i S in simp_all)
  define st2 where "st2 = set_sock c ((socks st1 c)\<lparr>s_connected := True\<rparr>) st1"
  have 2: "net_ok st2"
    unfolding st2_def by (rule net_ok_set_flags [OF 1]) (use i in \<open>simp_all add: st1_def new_sock_def\<close>)
  have p2: "pcb st2 c = cu" "pcb st2 i = su" "live st2 c" "live st2 i"
    using i by (simp_all add: st2_def st1_def)
  define st3 where "st3 = set_pcb i ((pcb st2 i)\<lparr>u_peer := Some c\<rparr>) (set_pcb c ((pcb st2 c)\<lparr>u_peer := Some i\<rparr>) st2)"
  have 3: "net_ok st3"
    by (rule net_ok_link [OF 2 p2(4) _ _ p2(3) _ _ i(2) _ st3_def]) (use C S n sq p2 in simp_all)
  have a3: "s_accept (socks st3 j) = (if j = c then [] else s_accept (socks st j))"
    "s_accept_count (socks st3 j) = (if j = c then 0 else s_accept_count (socks st j))"
    "s_backlog (socks st3 j) = (if j = c then 0 else s_backlog (socks st j))"
    "s_bound (socks st3 j) = (if j = c then False else s_bound (socks st j))" "live st3 j = (j = c \<or> live st j)" for j
    using i by (auto simp: st3_def st2_def st1_def new_sock_def)
  define st4 where "st4 = set_sock i ((socks st3 i)\<lparr>s_connected := True\<rparr>) st3"
  have "s_backlog (socks st i) \<le> 64" using ok i(1) by (simp add: net_ok_def sock_ok_def)
  then have 4: "net_ok st4"
    unfolding st4_def by (intro net_ok_set_flags [OF 3]) (use i a3 in simp_all)
  have a4: "s_accept (socks st4 j) = s_accept (socks st3 j)" "live st4 j = live st3 j"
    "s_accept_count (socks st4 j) = s_accept_count (socks st3 j)" "s_backlog (socks st4 j) = s_backlog (socks st3 j)"
    "s_bound (socks st4 j) = s_bound (socks st3 j)" "pcb st4 j = pcb st3 j" for j
    using s_un_pcb [of st3 i] a3(5) [of i] i by (simp_all add: st4_def)
  have nq: "c \<notin> set (s_accept (socks st4 j))" if "live st4 j" for j
    using that c net_okD(3) [OF ok, of j c] by (auto simp: a4 a3 queued_ok_def)
  define st5 where "st5 = set_sock c ((socks st4 c)\<lparr>s_listener := Some l\<rparr>) st4"
  have 5: "net_ok st5"
    unfolding st5_def by (rule net_ok_set_listener [OF 4 _ nq]) (simp add: a4 a3)
  have a5: "s_accept (socks st5 j) = s_accept (socks st4 j)" "live st5 j = live st4 j"
    "s_accept_count (socks st5 j) = s_accept_count (socks st4 j)" "s_backlog (socks st5 j) = s_backlog (socks st4 j)"
    "s_bound (socks st5 j) = s_bound (socks st4 j)" "pcb st5 j = pcb st4 j" for j
    using s_un_pcb [of st4 c] a3(5) [of c] a4(2) by (simp_all add: st5_def)
  have e: "st' = set_sock l ((socks st5 l)\<lparr>s_accept := s_accept (socks st5 l) @ [c],
                                              s_accept_count := s_accept_count (socks st5 l) + 1\<rparr>) st5"
  proof -
    have x: "pcb (set_pcb c ((pcb st2 c)\<lparr>u_peer := Some i\<rparr>) st2) i = pcb st2 i" using i by simp
    have "st' = link_accept l i c (new_sock\<lparr>s_un := Some new_pcb\<rparr>) cu su st"
      using False l u n k unfolding st' unix_connect_def by (simp add: pcb_new_def split: if_splits)
    then show ?thesis
      unfolding link_accept_def Let_def st5_def st4_def st3_def x [symmetric] unfolding st2_def st1_def by simp
  qed
  have qc: "queued_ok st5 l c"
    by (simp add: queued_ok_def a5 a4 a3) (simp add: st5_def)
  have "net_ok st'"
    by (rule net_ok_push [OF 5 _ qc _ _ _ e]) (use lb k nq [of l] in \<open>simp_all add: a5 a4 a3\<close>)
  moreover have "pcb st' j = pcb st3 j" "live st' j = live st3 j" for j
    using s_un_pcb [of st5 l] lb by (simp_all add: e a5 a4 a3)
  moreover have "pcb st3 j = (if j = i then su\<lparr>u_peer := Some c\<rparr> else if j = c then cu\<lparr>u_peer := Some i\<rparr> else pcb st j)" for j
    using i by (simp add: st3_def st2_def st1_def)
  ultimately have "net_ok st'" "new_data {c} st st'"
    using C S i by (simp_all add: new_data_def a3(5))
  then show ?thesis ..
qed

lemma unix_accept_ok:
  assumes ok: "net_ok st" and f: "has_file st l"
  shows "net_ok (snd (unix_accept_iter nb l st)) \<and> same_data st (snd (unix_accept_iter nb l st))"
proof (cases "s_accept (socks st l)")
  case (Cons c cs)
  have l: "live st l" using f by (simp add: has_file_def)
  let ?k = "s_accept_count (socks st l) - 1"
  define st1 where "st1 = set_sock l ((socks st l)\<lparr>s_accept := cs, s_accept_count := ?k\<rparr>) st"
  have k: "int (length cs) \<le> ?k" "?k \<le> 64" using ok l Cons by (auto simp: net_ok_def sock_ok_def)
  note P = net_ok_pop [OF ok l Cons k st1_def]
  have c: "live st1 c" using P(2,5) by simp
  define st2 where "st2 = set_sock c ((socks st1 c)\<lparr>s_listener := None\<rparr>) st1"
  have "net_ok st2" unfolding st2_def by (rule net_ok_set_listener [OF P(1) c P(9)])
  moreover have "pcb st2 j = pcb st1 j" "live st2 j = live st1 j" for j
    using s_un_pcb [OF c] c by (auto simp: st2_def)
  then have "same_data st st2" by (simp add: same_data_def P(2,3))
  moreover have "snd (unix_accept_iter nb l st) = st2"
    unfolding unix_accept_iter_def Cons list.case Let_def st2_def st1_def by (simp only: snd_conv)
  ultimately show ?thesis by simp
qed (use ok in \<open>simp add: unix_accept_iter_def\<close>)

lemma net_ok_set_eof:
  assumes ok: "net_ok st" and i: "live st i"
  shows "net_ok (set_pcb i ((pcb st i)\<lparr>u_eof := e\<rparr>) st) \<and> same_data st (set_pcb i ((pcb st i)\<lparr>u_eof := e\<rparr>) st)"
  using i net_ok_set_pcb [OF ok i, of "(pcb st i)\<lparr>u_eof := e\<rparr>"] net_okD(1) [OF assms] by (simp add: same_data_def)

lemma set_shut_ok:
  assumes ok: "net_ok st" and i: "live st i"
    and s: "s = (socks st i)\<lparr>s_shut_rd := a\<rparr> \<or> s = (socks st i)\<lparr>s_shut_wr := a\<rparr>"
  shows "net_ok (set_sock i s st) \<and> same_data st (set_sock i s st) \<and> live (set_sock i s st) i"
proof -
  have "s_backlog (socks st i) \<le> 64" using ok i by (simp add: net_ok_def sock_ok_def)
  then have "net_ok (set_sock i s st)" by (intro net_ok_set_flags [OF ok]) (use s in auto)
  moreover have "s_un s = Some (pcb st i)" using s s_un_pcb [OF i] by auto
  ultimately show ?thesis using i by (simp add: same_data_def)
qed

lemma unix_shutdown_ok:
  assumes ok: "net_ok st" and i: "live st i"
  shows "net_ok (unix_shutdown i how st) \<and> same_data st (unix_shutdown i how st)"
  using ok net_ok_set_eof [OF ok] net_okD(2) [OF assms] unfolding unix_shutdown_def
  by (auto simp: ends_ok_def split: option.splits)

lemma sys_shutdown_ok:
  assumes ok: "net_ok st" and f: "has_file st i"
  shows "net_ok (snd (sys_shutdown i how st)) \<and> same_data st (snd (sys_shutdown i how st))"
proof -
  have i: "live st i" using f by (simp add: has_file_def)
  define st1 where "st1 = (if how = 0 \<or> how = 2 then set_sock i ((socks st i)\<lparr>s_shut_rd := True\<rparr>) st else st)"
  have 1: "net_ok st1" "same_data st st1" "live st1 i" using set_shut_ok [OF ok i disjI1 [OF refl], of True] ok i by (auto simp: st1_def)
  define st2 where "st2 = set_sock i ((socks st1 i)\<lparr>s_shut_wr := True\<rparr>) st1"
  have 2: "net_ok st2" "same_data st1 st2" "live st2 i" using set_shut_ok [OF 1(1,3) disjI2 [OF refl], of True] by (simp_all only: st2_def)
  have "snd (sys_shutdown i how st) \<in> {st, st1, unix_shutdown i how st2}"
    unfolding sys_shutdown_def Let_def st1_def [symmetric] st2_def [symmetric] by simp
  then show ?thesis
    using ok 1 unix_shutdown_ok [OF 2(1,3), of how] same_data_trans [OF 1(2) same_data_trans [OF 2(2)]] by auto
qed

subsection \<open>Messages\<close>

definition frame :: "u8 list \<Rightarrow> u8 list" where
  "frame m = le32_bytes (length m) @ m"

lemma le32_roundtrip:
  assumes "n < 2 ^ 32"
  shows "le32_val (le32_bytes n) = n"
proof -
  define a b c where "a = n div 256" and "b = a div 256" and "c = b div 256"
  have d: "n div 256 = a" "n div 65536 = b" "n div 16777216 = c"
    by (simp_all add: a_def b_def c_def div_mult2_eq [symmetric])
  have "n = 256 * a + n mod 256" "a = 256 * b + a mod 256" "b = 256 * c + b mod 256"
    by (simp_all add: a_def b_def c_def)
  moreover have "c mod 256 = c" using assms by (simp add: d(3) [symmetric])
  ultimately have "n = n mod 256 + a mod 256 * 256 + b mod 256 * 65536 + c mod 256 * 16777216" by linarith
  then show ?thesis by (simp add: le32_val_def le32_bytes_def unat_of_nat take_bit_eq_mod d)
qed

lemma frame_length [simp]: "length (frame m) = 4 + length m"
  by (simp add: frame_def le32_bytes_def)

lemma le32_bytes_length [simp]: "length (le32_bytes n) = 4"
  by (simp add: le32_bytes_def)

lemma frame_val: "length m < 2 ^ 32 \<Longrightarrow> le32_val (take 4 (frame m @ rest)) = length m"
  by (simp add: frame_def le32_roundtrip)

subsection \<open>The transition system\<close>

text \<open>
  \<open>sent p\<close> is what calls reported as sent to \<open>p\<close>: the pieces of a stream, or the messages. \<open>got p\<close> is
  what calls returned from \<open>p\<close>, with the size of the buffer they had.
\<close>

record utrace =
  net :: unet
  sent :: "nat \<Rightarrow> u8 list list"
  got :: "nat \<Rightarrow> (nat \<times> u8 list) list"

definition reported :: "nat \<Rightarrow> send_out \<Rightarrow> nat" where
  "reported done1 r = (case r of SRet n _ \<Rightarrow> nat n - done1 | SSleep d \<Rightarrow> d - done1)"

definition note_sent :: "unet \<Rightarrow> nat \<Rightarrow> u8 list \<Rightarrow> nat \<Rightarrow> send_out \<Rightarrow> (nat \<Rightarrow> u8 list list) \<Rightarrow> nat \<Rightarrow> u8 list list" where
  "note_sent st i buf done1 r h =
     (case u_peer (pcb st i) of None \<Rightarrow> h
      | Some p \<Rightarrow>
          if u_seqpacket (pcb st i)
          then (case r of SRet n _ \<Rightarrow> if 0 \<le> n then h(p := h p @ [buf]) else h | SSleep _ \<Rightarrow> h)
          else h(p := h p @ [take (reported done1 r) (drop done1 buf)]))"

definition note_got :: "unet \<Rightarrow> nat \<Rightarrow> nat \<Rightarrow> bool \<Rightarrow> recv_out \<Rightarrow> (nat \<Rightarrow> (nat \<times> u8 list) list) \<Rightarrow> nat \<Rightarrow> (nat \<times> u8 list) list" where
  "note_got st i len peek r h =
     (if peek \<or> rx_count (pcb st i) = 0 then h
      else case r of RRet _ d \<Rightarrow> h(i := h i @ [(len, d)]) | RSleep \<Rightarrow> h)"

definition forget :: "nat set \<Rightarrow> (nat \<Rightarrow> 'a list) \<Rightarrow> nat \<Rightarrow> 'a list" where
  "forget N h j = (if j \<in> N then [] else h j)"

text \<open>One step per critical section. New sockets and rings are what the allocator returns: unused addresses, blocks of the size asked for.\<close>

inductive unix_step :: "utrace \<Rightarrow> utrace \<Rightarrow> bool" where
  socket: "\<not> live (net t) i \<Longrightarrow>
    unix_step t \<lparr>net = snd (unix_socket (net t) kind (Some i) ok), sent = forget {i} (sent t), got = forget {i} (got t)\<rparr>"
| socketpair: "\<not> live (net t) i \<Longrightarrow> \<not> live (net t) j \<Longrightarrow> i \<noteq> j \<Longrightarrow>
    (\<And>b. imem = Some b \<Longrightarrow> length b = UNIX_BUF_SIZE) \<Longrightarrow> (\<And>b. jmem = Some b \<Longrightarrow> length b = UNIX_BUF_SIZE) \<Longrightarrow>
    unix_step t \<lparr>net = snd (unix_socketpair (net t) kind (Some i, iok, imem) (Some j, jok, jmem)),
                 sent = forget {i, j} (sent t), got = forget {i, j} (got t)\<rparr>"
| bind: "has_file (net t) i \<Longrightarrow> unix_step t (t\<lparr>net := snd (unix_bind (net t) i path)\<rparr>)"
| listen: "has_file (net t) i \<Longrightarrow> unix_step t (t\<lparr>net := snd (unix_listen (net t) i n)\<rparr>)"
| connect: "has_file (net t) i \<Longrightarrow> \<not> live (net t) c \<Longrightarrow>
    (\<And>b. cmem = Some b \<Longrightarrow> length b = UNIX_BUF_SIZE) \<Longrightarrow> (\<And>b. smem = Some b \<Longrightarrow> length b = UNIX_BUF_SIZE) \<Longrightarrow>
    unix_step t \<lparr>net = snd (unix_connect (net t) i path (Some c) ok cmem smem),
                 sent = forget {c} (sent t), got = forget {c} (got t)\<rparr>"
| accept: "has_file (net t) l \<Longrightarrow> unix_step t (t\<lparr>net := snd (unix_accept_iter nb l (net t))\<rparr>)"
| send: "has_file (net t) i \<Longrightarrow> unix_send_pass nb ns buf done1 i (net t) = (r, st) \<Longrightarrow>
    unix_step t (t\<lparr>net := st, sent := note_sent (net t) i buf done1 r (sent t)\<rparr>)"
| recv: "has_file (net t) i \<Longrightarrow> unix_recv_iter nb peek len i (net t) = (r, st) \<Longrightarrow>
    unix_step t (t\<lparr>net := st, got := note_got (net t) i len peek r (got t)\<rparr>)"
| shutdown: "has_file (net t) i \<Longrightarrow> unix_step t (t\<lparr>net := snd (sys_shutdown i how (net t))\<rparr>)"
| close: "has_file (net t) i \<Longrightarrow> unix_step t (t\<lparr>net := unix_close i (net t)\<rparr>)"

definition unix_start :: utrace where
  "unix_start = \<lparr>net = \<lparr>socks = (\<lambda>_. new_sock), bound = []\<rparr>, sent = (\<lambda>_. []), got = (\<lambda>_. [])\<rparr>"

inductive unix_reachable :: "utrace \<Rightarrow> bool" where
  start: "unix_reachable unix_start"
| step: "unix_reachable t \<Longrightarrow> unix_step t t' \<Longrightarrow> unix_reachable t'"

text \<open>
  On a stream the bytes sent are the bytes received followed by those in the ring. On a message socket
  the messages received are the first of those sent, each cut to the receiver's buffer, and the ring holds
  the others whole.
\<close>

definition delivered :: "u8 list list \<Rightarrow> (nat \<times> u8 list) list \<Rightarrow> unix_pcb \<Rightarrow> bool" where
  "delivered snt rcv u \<longleftrightarrow>
     (if u_seqpacket u
      then length rcv \<le> length snt \<and> list_all2 (\<lambda>(n, d) m. d = take n m) rcv (take (length rcv) snt) \<and>
           contents u = concat (map frame (drop (length rcv) snt))
      else concat snt = concat (map snd rcv) @ contents u)"

definition run_ok :: "utrace \<Rightarrow> bool" where
  "run_ok t \<longleftrightarrow> net_ok (net t) \<and> (\<forall>p. live (net t) p \<longrightarrow> delivered (sent t p) (got t p) (pcb (net t) p))"

lemma delivered_cong:
  "contents u = contents v \<Longrightarrow> u_seqpacket u = u_seqpacket v \<Longrightarrow> delivered a b u = delivered a b v"
  by (simp add: delivered_def)

lemma run_ok_same:
  assumes "run_ok t" and "net_ok st" "same_data (net t) st"
  shows "run_ok (t\<lparr>net := st\<rparr>)"
  using assms by (auto simp: run_ok_def same_data_def delivered_def)

lemma run_ok_new:
  assumes "run_ok t" and "net_ok st" "new_data N (net t) st"
  shows "run_ok \<lparr>net = st, sent = forget N (sent t), got = forget N (got t)\<rparr>"
  using assms by (auto simp: run_ok_def new_data_def delivered_def forget_def split: if_splits)

lemma unix_put_fields:
  assumes "unix_put xs d = (n, d')"
  shows "u_peer d' = u_peer d" "u_seqpacket d' = u_seqpacket d" "u_path d' = u_path d"
  using assms by (auto simp: unix_put_def ring_put_def Let_def split: if_splits)

text \<open>Data put into one ring, data taken from one ring.\<close>

lemma run_ok_put:
  assumes ok: "run_ok t" and p: "live (net t) p" and d: "rx_ok d" "u_peer d = u_peer (pcb (net t) p)"
    "u_seqpacket d = u_seqpacket (pcb (net t) p)" "u_path d = u_path (pcb (net t) p)" "u_rx d \<noteq> None"
    and x: "delivered (sent t p @ [x]) (got t p) d"
  shows "run_ok (t\<lparr>net := set_pcb p d (net t), sent := (sent t)(p := sent t p @ [x])\<rparr>)"
proof -
  have "net_ok (set_pcb p d (net t))"
    by (rule net_ok_set_pcb) (use ok p d in \<open>simp_all add: run_ok_def\<close>)
  then show ?thesis using ok x by (simp add: run_ok_def)
qed

lemma run_ok_get:
  assumes ok: "run_ok t" and p: "live (net t) p" and d: "rx_ok d" "u_peer d = u_peer (pcb (net t) p)"
    "u_seqpacket d = u_seqpacket (pcb (net t) p)" "u_path d = u_path (pcb (net t) p)" "u_rx d = u_rx (pcb (net t) p)"
    and x: "delivered (sent t p) (got t p @ [x]) d"
  shows "run_ok (t\<lparr>net := set_pcb p d (net t), got := (got t)(p := got t p @ [x])\<rparr>)"
proof -
  have "net_ok (set_pcb p d (net t))"
    by (rule net_ok_set_pcb) (use ok p d in \<open>simp_all add: run_ok_def\<close>)
  then show ?thesis using ok x by (simp add: run_ok_def)
qed

lemma run_ok_nothing_sent:
  assumes "run_ok t" and "\<not> u_seqpacket (pcb (net t) p)"
  shows "run_ok (t\<lparr>sent := (sent t)(p := sent t p @ [[]])\<rparr>)"
  using assms by (auto simp: run_ok_def delivered_def)

lemma send_stream_ok:
  assumes ok: "run_ok t" and f: "has_file (net t) i" and s: "\<not> u_seqpacket (pcb (net t) i)"
    and r: "unix_send_iter nb ns buf done1 i (net t) = (r, st)"
  shows "run_ok (t\<lparr>net := st, sent := note_sent (net t) i buf done1 r (sent t)\<rparr>)"
proof -
  have n: "net_ok (net t)" and i: "live (net t) i" using ok f by (simp_all add: run_ok_def has_file_def)
  show ?thesis
  proof (cases "u_peer (pcb (net t) i)")
    case None
    then have "st = net t" using r by (auto simp: unix_send_iter_def split: if_splits)
    then show ?thesis using ok None by (simp add: note_sent_def)
  next
    case (Some p)
    have e: "live (net t) p" "\<not> u_seqpacket (pcb (net t) p)" "u_rx (pcb (net t) p) \<noteq> None"
      using net_okD(2) [OF n i Some] s net_okD(2) [OF n _, of p i] by (auto simp: ends_ok_def)
    show ?thesis
    proof (cases "done1 \<ge> length buf \<or> s_shut_wr (socks (net t) i)")
      case True
      then have "st = net t" and x: "take (reported done1 r) (drop done1 buf) = []"
        using r by (auto simp: unix_send_iter_def reported_def split: if_splits)
      then show ?thesis using run_ok_nothing_sent [OF ok e(2)] s unfolding note_sent_def Some option.case x by simp
    next
      case False
      obtain k d where put: "unix_put (drop done1 buf) (pcb (net t) p) = (k, d)" by fastforce
      have st: "st = set_pcb p d (net t)" "reported done1 r = k"
        using r False Some put by (auto simp: unix_send_iter_def reported_def Let_def split: if_splits)
      have g: "rx_ok (pcb (net t) p)" using net_okD(1) [OF n e(1)] .
      have d: "rx_ok d" "u_rx d \<noteq> None" "contents d = contents (pcb (net t) p) @ take k (drop done1 buf)"
        using unix_fifo.put_law [OF _ put] g e(3) by auto
      have "run_ok (t\<lparr>net := set_pcb p d (net t), sent := (sent t)(p := sent t p @ [take k (drop done1 buf)])\<rparr>)"
        by (rule run_ok_put [OF ok e(1) d(1)])
          (use d e ok unix_put_fields [OF put] in \<open>auto simp: delivered_def run_ok_def\<close>)
      then show ?thesis using st s by (simp add: note_sent_def Some)
    qed
  qed
qed

lemma send_msg_cases:
  assumes "unix_send_msg_iter nb ns buf i st = (r, st')"
  shows "(st' = st \<and> (\<forall>n sig. r = SRet n sig \<longrightarrow> n < 0)) \<or>
    (\<exists>p. u_peer (pcb st i) = Some p \<and> length buf + 4 \<le> rx_space (pcb st p) \<and> r = SRet (int (length buf)) False \<and>
       st' = set_pcb p (ring_put (ring_put (pcb st p) (le32_bytes (length buf))) buf) st)"
proof (cases "length buf > UNIX_BUF_SIZE - 4 \<or> s_shut_wr (socks st i) \<or> u_peer (pcb st i) = None")
  case True
  then show ?thesis using assms by (cases "u_peer (pcb st i)") (auto simp: unix_send_msg_iter_def split: if_splits)
next
  case False
  then obtain p where "u_peer (pcb st i) = Some p" by auto
  then show ?thesis
    using assms False by (cases "length buf + 4 \<le> rx_space (pcb st p)"; cases nb) (simp_all add: unix_send_msg_iter_def, auto)
qed

lemma send_msg_ok:
  assumes ok: "run_ok t" and f: "has_file (net t) i" and s: "u_seqpacket (pcb (net t) i)"
    and r: "unix_send_msg_iter nb ns buf i (net t) = (r, st)"
  shows "run_ok (t\<lparr>net := st, sent := note_sent (net t) i buf done1 r (sent t)\<rparr>)"
proof -
  have n: "net_ok (net t)" and i: "live (net t) i" using ok f by (simp_all add: run_ok_def has_file_def)
  show ?thesis
  proof (cases "st = net t \<and> note_sent (net t) i buf done1 r (sent t) = sent t")
    case False
    then obtain p where p: "u_peer (pcb (net t) i) = Some p" and l: "length buf + 4 \<le> rx_space (pcb (net t) p)"
      and st: "st = set_pcb p (ring_put (ring_put (pcb (net t) p) (le32_bytes (length buf))) buf) (net t)"
      and r: "r = SRet (int (length buf)) False"
      using send_msg_cases [OF r] s by (auto simp: note_sent_def split: send_out.splits option.splits)
    have e: "live (net t) p" "u_seqpacket (pcb (net t) p)" "u_rx (pcb (net t) p) \<noteq> None"
      using net_okD(2) [OF n i p] s net_okD(2) [OF n _, of p i] by (auto simp: ends_ok_def)
    let ?d = "pcb (net t) p" and ?b = "le32_bytes (length buf)"
    note g = net_okD(1) [OF n e(1)]
    have room: "rx_count ?d + length ?b \<le> UNIX_BUF_SIZE" "rx_count ?d + 4 + length buf \<le> UNIX_BUF_SIZE"
      using l rx_okD [OF g] by simp_all
    note A = ring_put_effect [OF g e(3) room(1)]
    have x: "u_rx (ring_put ?d ?b) \<noteq> None" using e(3) by (simp add: ring_put_def)
    have B: "rx_ok (ring_put (ring_put ?d ?b) buf)" "contents (ring_put (ring_put ?d ?b) buf) = contents ?d @ frame buf"
      using ring_put_effect [OF A(1) x, of buf] A(2,3) room(2) by (simp_all add: frame_def)
    have "delivered (sent t p @ [buf]) (got t p) (ring_put (ring_put ?d ?b) buf)"
    proof -
      have "delivered (sent t p) (got t p) ?d" using ok e(1) by (simp add: run_ok_def)
      then show ?thesis using e(2) B(2) by (simp add: delivered_def) (simp add: ring_put_def)
    qed
    then have "run_ok (t\<lparr>net := st, sent := (sent t)(p := sent t p @ [buf])\<rparr>)"
      unfolding st using e by (intro run_ok_put [OF ok e(1) B(1)]) (simp_all add: ring_put_def)
    then show ?thesis using s r by (simp add: note_sent_def p)
  qed (use ok in simp)
qed

lemma recv_stream_ok:
  assumes ok: "run_ok t" and i: "live (net t) i" and s: "\<not> u_seqpacket (pcb (net t) i)"
    and r: "unix_recv_iter nb peek len i (net t) = (r, st)"
  shows "run_ok (t\<lparr>net := st, got := note_got (net t) i len peek r (got t)\<rparr>)"
proof -
  let ?u = "pcb (net t) i"
  have g: "rx_ok ?u" using net_okD(1) [OF _ i] ok by (simp add: run_ok_def)
  note D = rx_okD [OF g]
  show ?thesis
  proof (cases "rx_count ?u = 0 \<or> len = 0 \<or> peek")
    case True
    then have "st = net t" and "peek \<or> rx_count ?u = 0 \<or> (\<exists>n. r = RRet n []) \<or> r = RSleep"
      using r s by (auto simp: unix_recv_iter_def unix_get_def Let_def split: if_splits prod.splits)
    then show ?thesis
      using ok s i by (auto simp: note_got_def run_ok_def delivered_def)
  next
    case False
    obtain ys u' where get: "unix_get len ?u = (ys, u')" by fastforce
    have st: "st = set_pcb i u' (net t)" "\<exists>n. r = RRet n ys"
      using r s False get by (auto simp: unix_recv_iter_def Let_def split: if_splits prod.splits)
    have rx: "u_rx ?u \<noteq> None" using g False by (auto simp: rx_ok_def split: option.splits)
    have L: "rx_ok u'" "ys = take len (contents ?u)" "contents u' = drop len (contents ?u)"
      using unix_fifo.get_law [OF _ get] g rx by auto
    have F: "u_peer u' = u_peer ?u" "u_seqpacket u' = u_seqpacket ?u" "u_path u' = u_path ?u" "u_rx u' = u_rx ?u"
      using get by (auto simp: unix_get_def Let_def split: if_splits)
    have "delivered (sent t i) (got t i @ [(len, ys)]) u'"
    proof -
      have "delivered (sent t i) (got t i) ?u" using ok i by (simp add: run_ok_def)
      then show ?thesis using s L F by (simp add: delivered_def)
    qed
    from run_ok_get [OF ok i L(1) F this] show ?thesis
      using st False by (auto simp: note_got_def)
  qed
qed

lemma recv_msg_ok:
  assumes ok: "run_ok t" and i: "live (net t) i" and s: "u_seqpacket (pcb (net t) i)"
    and r: "unix_recv_iter nb peek len i (net t) = (r, st)"
  shows "run_ok (t\<lparr>net := st, got := note_got (net t) i len peek r (got t)\<rparr>)"
proof -
  let ?u = "pcb (net t) i"
  have g: "rx_ok ?u" using net_okD(1) [OF _ i] ok by (simp add: run_ok_def)
  note D = rx_okD [OF g]
  have del: "delivered (sent t i) (got t i) ?u" using ok i by (simp add: run_ok_def)
  define q where "q = drop (length (got t i)) (sent t i)"
  have c: "contents ?u = concat (map frame q)" using del s by (simp add: delivered_def q_def)
  show ?thesis
  proof (cases "q = [] \<or> peek")
    case True
    then have "rx_count ?u = 0 \<or> peek" using c D(6) by auto
    then have "st = net t" using r s by (auto simp: unix_recv_iter_def Let_def split: if_splits)
    moreover have "note_got (net t) i len peek r (got t) = got t" using \<open>rx_count ?u = 0 \<or> peek\<close> by (auto simp: note_got_def)
    ultimately show ?thesis using ok by simp
  next
    case False
    then obtain m ms where q: "q = m # ms" by (cases q) auto
    have cm: "contents ?u = frame m @ concat (map frame ms)" using c q by simp
    then have n: "4 + length m \<le> rx_count ?u" using D(6) by (metis frame_length le_add1 length_append)
    have m32: "length m < 2 ^ 32" using n D(4) by linarith
    have len4: "le32_val (ring_peek ?u 0 4) = length m"
      using ring_peek_contents [OF g, of 0 4] n frame_val [OF m32] cm by simp
    let ?n = "if len < length m then len else length m"
    have data: "(if ?n \<noteq> 0 then ring_peek ?u 4 ?n else []) = take len m"
    proof -
      have "ring_peek ?u 4 ?n = take ?n (drop 4 (contents ?u))"
        by (rule ring_peek_contents [OF g]) (use n in auto)
      also have "\<dots> = take len m" unfolding cm by (simp add: frame_def)
      finally show ?thesis by auto
    qed
    have r': "r = RRet (int ?n) (take len m)"
      "st = set_pcb i (?u\<lparr>u_head := wrap32 (u_head ?u + (4 + length m))\<rparr>) (net t)"
      using r s n False data unfolding unix_recv_iter_def Let_def len4 by (auto split: if_splits)
    note E = ring_consume_effect [OF g n]
    have "delivered (sent t i) (got t i @ [(len, take len m)]) (?u\<lparr>u_head := wrap32 (u_head ?u + (4 + length m))\<rparr>)"
    proof -
      have "length (got t i) < length (sent t i)" using q by (auto simp: q_def dest: arg_cong [of _ _ length])
      moreover have "take (Suc (length (got t i))) (sent t i) = take (length (got t i)) (sent t i) @ [m]"
        using q calculation by (simp add: q_def take_Suc_conv_app_nth Cons_nth_drop_Suc [symmetric])
      moreover have "drop (Suc (length (got t i))) (sent t i) = ms"
        using q by (simp add: q_def drop_Suc) (metis drop_Suc list.sel(3) tl_drop)
      moreover have "contents (?u\<lparr>u_head := wrap32 (u_head ?u + (4 + length m))\<rparr>) = concat (map frame ms)"
        unfolding E(2) cm by simp
      moreover have "list_all2 (\<lambda>(n, d) m. d = take n m) (got t i) (take (length (got t i)) (sent t i))"
        using del s by (simp add: delivered_def)
      ultimately show ?thesis
        using s by (simp add: delivered_def list_all2_appendI)
    qed
    from run_ok_get [OF ok i E(1) _ _ _ _ this] show ?thesis
      using r' False n by (simp add: note_got_def)
  qed
qed

lemma unix_step_ok:
  assumes step: "unix_step t t'" and ok: "run_ok t"
  shows "run_ok t'"
proof -
  have n: "net_ok (net t)" using ok by (simp add: run_ok_def)
  note same = run_ok_same [OF ok] and new = run_ok_new [OF ok]
  from step show ?thesis
  proof (cases rule: unix_step.cases)
    case (socket i kind mem)
    then show ?thesis using new unix_socket_ok [OF n] by blast
  next
    case (socketpair i j imem jmem kind iok jok)
    then show ?thesis using new unix_socketpair_ok [OF n socketpair(2-6) refl] by blast
  next
    case (bind i path)
    then show ?thesis using same unix_bind_ok [OF n] by blast
  next
    case (listen i k)
    then show ?thesis using same unix_listen_ok [OF n] by blast
  next
    case (connect i c cmem smem path mem)
    then show ?thesis using new unix_connect_ok [OF n connect(2-5) refl] by blast
  next
    case (accept l nb)
    then show ?thesis using same unix_accept_ok [OF n] by blast
  next
    case (send i nb ns buf done1 r st)
    show ?thesis
    proof (cases "u_seqpacket (pcb (net t) i)")
      case True
      then show ?thesis using send send_msg_ok [OF ok send(2) True] by (simp add: unix_send_pass_def)
    next
      case False
      then show ?thesis using send send_stream_ok [OF ok send(2) False] by (simp add: unix_send_pass_def)
    qed
  next
    case (recv i nb peek len r st)
    then have i: "live (net t) i" by (simp add: has_file_def)
    show ?thesis
      using recv recv_msg_ok [OF ok i] recv_stream_ok [OF ok i] by blast
  next
    case (shutdown i how)
    then show ?thesis using same sys_shutdown_ok [OF n] by blast
  next
    case (close i)
    then show ?thesis using same unix_close_ok [OF n] by blast
  qed
qed

lemma unix_reachable_ok: "unix_reachable t \<Longrightarrow> run_ok t"
proof (induction rule: unix_reachable.induct)
  case start
  show ?case by (simp add: run_ok_def unix_start_def net_ok_def names_ok_def live_def new_sock_def)
next
  case (step t t')
  then show ?case by (blast intro: unix_step_ok)
qed

subsection \<open>What the sockets promise\<close>

text \<open>
  C9: under every interleaving of calls, the bytes a stream socket received are those its peer was told
  it sent, in order and none twice, and the rest is in the ring; a message socket received the first
  messages of those sent, each one whole up to the size of the buffer it was read into, and its ring holds
  the others.
\<close>

theorem unix_delivery:
  assumes "unix_reachable t" and "live (net t) p"
  shows "delivered (sent t p) (got t p) (pcb (net t) p)"
  using unix_reachable_ok [OF assms(1)] assms(2) by (simp add: run_ok_def)

text \<open>
  C14: in every reachable state a connection is symmetric (the peer of a socket exists, names that socket
  as its peer, is of the same kind, and the socket has its ring), no ring holds more than its size, a
  connection that waits to be accepted is in one queue only, queues have at most 64 entries, and no two
  sockets have the same name.
\<close>

theorem unix_links_consistent:
  assumes "unix_reachable t" and "live (net t) i"
  shows "sock_ok (net t) i \<and> names_ok (net t)"
  using unix_reachable_ok [OF assms(1)] assms(2) by (simp add: run_ok_def net_ok_def)

text \<open>A connected pair of message sockets, and one message sent over it.\<close>

definition pair_run :: utrace where
  "pair_run = (let b = Some (replicate UNIX_BUF_SIZE 0)
     in \<lparr>net = snd (unix_socketpair (net unix_start) 5 (Some 0, True, b) (Some 1, True, b)), sent = (\<lambda>_. []), got = (\<lambda>_. [])\<rparr>)"

lemma pair_run_reachable: "unix_reachable pair_run"
proof -
  have "forget {0, 1} (sent unix_start) = (\<lambda>_. [])" "forget {0, 1} (got unix_start) = (\<lambda>_. [])"
    by (auto simp: forget_def unix_start_def)
  then have "unix_step unix_start pair_run"
    using unix_step.socketpair [of unix_start 0 1 "Some (replicate UNIX_BUF_SIZE 0)" "Some (replicate UNIX_BUF_SIZE 0)" 5 True True]
    by (simp add: pair_run_def unix_start_def live_def new_sock_def Let_def)
  then show ?thesis by (rule unix_reachable.step [OF unix_reachable.start])
qed

lemma pair_run_simps:
  "live (net pair_run) 0" "live (net pair_run) 1" "s_listener (socks (net pair_run) 0) = None" "\<not> s_shut_wr (socks (net pair_run) 0)"
  "pcb (net pair_run) 0 = new_pcb\<lparr>u_rx := Some (replicate UNIX_BUF_SIZE 0), u_seqpacket := True, u_peer := Some 1\<rparr>"
  "pcb (net pair_run) 1 = new_pcb\<lparr>u_rx := Some (replicate UNIX_BUF_SIZE 0), u_seqpacket := True, u_peer := Some 0\<rparr>"
  by (simp_all add: pair_run_def unix_socketpair_def pair_end_def pcb_new_def pcb_rx_alloc_def new_pcb_def new_sock_def unix_start_def Let_def)

lemma message_run:
  "\<exists>t. unix_reachable t \<and> live (net t) 1 \<and> sent t 1 = [[7]] \<and> got t 1 = []"
proof -
  let ?d = "pcb (net pair_run) 1"
  have "rx_space ?d = UNIX_BUF_SIZE"
    unfolding pair_run_simps by (simp add: rx_space_def rx_count_def new_pcb_def wrap32_def UNIX_BUF_SIZE_def)
  then have s: "unix_send_pass True True [7] 0 0 (net pair_run) =
      (SRet 1 False, set_pcb 1 (ring_put (ring_put ?d (le32_bytes 1)) [7]) (net pair_run))"
    using pair_run_simps(4) by (simp add: unix_send_pass_def unix_send_msg_iter_def pair_run_simps(5) UNIX_BUF_SIZE_def Let_def)
  define t where "t = pair_run\<lparr>net := set_pcb 1 (ring_put (ring_put ?d (le32_bytes 1)) [7]) (net pair_run),
    sent := note_sent (net pair_run) 0 [7] 0 (SRet 1 False) (sent pair_run)\<rparr>"
  have "unix_step pair_run t"
    unfolding t_def by (rule unix_step.send [OF _ s]) (simp add: has_file_def pair_run_simps)
  then have "unix_reachable t" by (rule unix_reachable.step [OF pair_run_reachable])
  moreover have "sent t 1 = [[7]]" "got t 1 = []"
    by (simp_all add: t_def note_sent_def pair_run_simps(5)) (simp_all add: pair_run_def Let_def)
  ultimately show ?thesis by (intro exI [of _ t]) (simp add: t_def)
qed

theorem unix_delivery_witness:
  "\<exists>t. unix_reachable t \<and> live (net t) 1 \<and> sent t 1 = [[7]] \<and> delivered [[7]] [] (pcb (net t) 1)"
proof -
  obtain t where t: "unix_reachable t" "live (net t) 1" "sent t 1 = [[7]]" "got t 1 = []" using message_run by blast
  from unix_delivery [OF t(1,2)] t show ?thesis by auto
qed

theorem unix_links_consistent_witness:
  "unix_reachable pair_run \<and> live (net pair_run) 0 \<and> sock_ok (net pair_run) 0"
  using unix_links_consistent [OF pair_run_reachable pair_run_simps(1)] pair_run_reachable pair_run_simps(1) by simp

subsection \<open>Two waits that do not wait\<close>

text \<open>
  A call that is to sleep until its condition holds, but whose condition already holds, goes round its loop
  without sleeping. A blocking receive of no bytes does so on a stream that has data, and so does a
  message sender whose peer has some room but not enough.
\<close>

lemma unix_recv_zero_spins:
  assumes "rx_count (pcb st i) \<noteq> 0" "\<not> u_seqpacket (pcb st i)" "\<not> u_eof (pcb st i)"
    "s_connected (socks st i)" "\<not> s_shut_rd (socks st i)" "\<not> s_listening (socks st i)"
  shows "unix_recv_iter False peek 0 i st = (RSleep, st)" and "poll_has st i POLLIN \<noteq> 0"
proof -
  show "unix_recv_iter False peek 0 i st = (RSleep, st)" using assms by (simp add: unix_recv_iter_def Let_def)
  show "poll_has st i POLLIN \<noteq> 0" using assms by (simp add: poll_has_def unix_poll_def Let_def split: option.splits)
qed

lemma unix_send_msg_spins:
  assumes "length buf \<le> UNIX_BUF_SIZE - 4" "\<not> s_shut_wr (socks st i)" "u_peer (pcb st i) = Some p"
    "0 < rx_space (pcb st p)" "rx_space (pcb st p) < length buf + 4" "\<not> s_listening (socks st i)"
  shows "unix_send_msg_iter False ns buf i st = (SSleep 0, st)" and "poll_has st i POLLOUT \<noteq> 0"
proof -
  show "unix_send_msg_iter False ns buf i st = (SSleep 0, st)" using assms by (simp add: unix_send_msg_iter_def Let_def)
  show "poll_has st i POLLOUT \<noteq> 0" using assms by (simp add: poll_has_def unix_poll_def Let_def)
qed

end
