(* ===== verification/Futex.thy ===== *)
theory Futex
  imports Mmu "HOL-Library.Multiset"
begin

text \<open>
  Futexes, \<^verbatim>\<open>kernel/proc/futex.c\<close>: tasks that wait on a word of memory, named by its physical address. A
  waiter lives on the stack of its task, so a task stands for its waiter, and the list is in the order of
  the \<open>next\<close> pointers, the newest first. The code under \<^verbatim>\<open>futex_lock\<close> is one function each; between them
  a task decides from its own waiter whether to leave. The word a call compares, the time stamps it reads
  and whether a signal is pending are arguments.
\<close>

abbreviation ETIMEDOUT :: int where "ETIMEDOUT \<equiv> 110"
abbreviation ENOSYS :: int where "ENOSYS \<equiv> 38"
abbreviation TIMER_HZ :: u64 where "TIMER_HZ \<equiv> 1000"

record waiter =
  w_key :: u64
  w_task :: nat
  w_woken :: bool

definition key_of :: "vm \<Rightarrow> nat \<Rightarrow> u64 \<Rightarrow> u64" where
  "key_of s pgd uaddr =
     (if uaddr AND 3 \<noteq> 0 \<or> uaddr < USER_BASE \<or> uaddr \<ge> USER_END then 0 else translate_in s pgd uaddr)"

subsection \<open>Waking\<close>

text \<open>The result is the count, the waiters, and the tasks handed to \<^verbatim>\<open>task_wake\<close>.\<close>

fun wake_loop :: "u64 \<Rightarrow> int \<Rightarrow> int \<Rightarrow> waiter list \<Rightarrow> int \<times> waiter list \<times> nat list" where
  "wake_loop key n cnt [] = (cnt, [], [])"
| "wake_loop key n cnt (w # ws) =
     (if \<not> cnt < n then (cnt, w # ws, [])
      else if w_key w = key \<and> \<not> w_woken w then
        let (c, ws', ts) = wake_loop key n (cnt + 1) ws in (c, w\<lparr>w_woken := True\<rparr> # ws', w_task w # ts)
      else let (c, ws', ts) = wake_loop key n cnt ws in (c, w # ws', ts))"

definition wake_key :: "u64 \<Rightarrow> int \<Rightarrow> waiter list \<Rightarrow> int \<times> waiter list \<times> nat list" where
  "wake_key key n ws = wake_loop key n 0 ws"

definition futex_wake_phys :: "u64 \<Rightarrow> int \<Rightarrow> waiter list \<Rightarrow> int \<times> waiter list \<times> nat list" where
  "futex_wake_phys phys n ws = wake_key phys n ws"

subsection \<open>Waiting\<close>

definition futex_ticks :: "int \<Rightarrow> int \<Rightarrow> u64" where
  "futex_ticks sec nsec = of_int sec * TIMER_HZ + of_int nsec * TIMER_HZ div 1000000000"

text \<open>\<open>absolute\<close> is 0 for a duration, 1 for a time since the start, 2 for a date; \<open>epoch\<close> is the date of the start in
  seconds. \<^verbatim>\<open>timer_ticks\<close> is read three times.\<close>

definition futex_deadline :: "nat \<Rightarrow> u64 \<Rightarrow> u64 \<Rightarrow> u64 \<times> u64 \<times> u64 \<Rightarrow> u64" where
  "futex_deadline absolute epoch ticks now =
     (case now of (t1, t2, t3) \<Rightarrow>
        let ticks = (if absolute = 2 then (if ticks > epoch * TIMER_HZ then ticks - epoch * TIMER_HZ else 0) else ticks);
            deadline = (if absolute \<noteq> 0 then ticks else t1 + ticks)
        in if deadline \<le> t2 then t3 + 1 else deadline)"

text \<open>The deadline of a call, 0 for none, or its error; \<open>ts\<close> is the time given at \<open>utimeout\<close>.\<close>

definition futex_timeout :: "vm \<Rightarrow> nat \<Rightarrow> u64 \<Rightarrow> int \<times> int \<Rightarrow> nat \<Rightarrow> u64 \<Rightarrow> u64 \<times> u64 \<times> u64 \<Rightarrow> int + u64" where
  "futex_timeout s pgd utimeout ts absolute epoch now =
     (if utimeout = 0 then Inr 0
      else if utimeout < USER_BASE \<or> utimeout + 16 > USER_END \<or> translate_in s pgd utimeout = 0 then Inl (- EFAULT)
      else if fst ts < 0 \<or> snd ts < 0 then Inl (- EINVAL)
      else Inr (futex_deadline absolute epoch (futex_ticks (fst ts) (snd ts)) now))"

text \<open>Under the lock: the comparison and the new waiter; \<open>None\<close> is the error EAGAIN.\<close>

definition futex_enter :: "nat \<Rightarrow> u64 \<Rightarrow> u32 \<Rightarrow> u32 \<Rightarrow> waiter list \<Rightarrow> waiter list option" where
  "futex_enter task key cur val ws =
     (if cur \<noteq> val then None else Some (\<lparr>w_key = key, w_task = task, w_woken = False\<rparr> # ws))"

datatype fstart = FRet int | FLoop u64 "waiter list"

definition futex_wait :: "vm \<Rightarrow> nat \<Rightarrow> nat \<Rightarrow> u64 \<Rightarrow> u32 \<Rightarrow> u64 \<Rightarrow> int \<times> int \<Rightarrow> nat \<Rightarrow> u64 \<Rightarrow> u64 \<times> u64 \<times> u64 \<Rightarrow> u32 \<Rightarrow> waiter list \<Rightarrow> fstart" where
  "futex_wait s pgd task uaddr val utimeout ts absolute epoch now cur ws =
     (let key = key_of s pgd uaddr
      in if key = 0 then FRet (- EFAULT)
         else case futex_timeout s pgd utimeout ts absolute epoch now of
           Inl e \<Rightarrow> FRet e
         | Inr deadline \<Rightarrow>
             (case futex_enter task key cur val ws of None \<Rightarrow> FRet (- EAGAIN) | Some ws \<Rightarrow> FLoop deadline ws))"

datatype fpass = FBreak int | FSleep u64 | FBlock

definition futex_pass :: "bool \<Rightarrow> bool \<Rightarrow> u64 \<Rightarrow> u64 \<Rightarrow> fpass" where
  "futex_pass woken signal deadline now =
     (if woken then FBreak 0
      else if signal then FBreak (- EINTR)
      else if deadline \<noteq> 0 then
        (if now \<ge> deadline then FBreak (- ETIMEDOUT) else FSleep ((deadline - now) * 1000 div TIMER_HZ + 1))
      else FBlock)"

definition woken_of :: "nat \<Rightarrow> waiter list \<Rightarrow> bool" where
  "woken_of task ws = (case find (\<lambda>w. w_task w = task) ws of None \<Rightarrow> False | Some w \<Rightarrow> w_woken w)"

fun unlink_waiter :: "nat \<Rightarrow> waiter list \<Rightarrow> waiter list" where
  "unlink_waiter task [] = []"
| "unlink_waiter task (w # ws) = (if w_task w = task then ws else w # unlink_waiter task ws)"

definition futex_leave :: "nat \<Rightarrow> int \<Rightarrow> waiter list \<Rightarrow> int \<times> waiter list" where
  "futex_leave task rc ws = (if woken_of task ws then 0 else rc, unlink_waiter task ws)"

subsection \<open>Requeueing\<close>

fun requeue_loop :: "u64 \<Rightarrow> u64 \<Rightarrow> u32 \<Rightarrow> u32 \<Rightarrow> nat \<Rightarrow> nat \<Rightarrow> waiter list \<Rightarrow> nat \<times> nat \<times> waiter list \<times> nat list" where
  "requeue_loop k1 k2 nwake nrequeue woken moved [] = (woken, moved, [], [])"
| "requeue_loop k1 k2 nwake nrequeue woken moved (w # ws) =
     (if w_key w \<noteq> k1 \<or> w_woken w then
        let (a, b, ws', ts) = requeue_loop k1 k2 nwake nrequeue woken moved ws in (a, b, w # ws', ts)
      else if woken < unat nwake then
        let (a, b, ws', ts) = requeue_loop k1 k2 nwake nrequeue (woken + 1) moved ws in (a, b, w\<lparr>w_woken := True\<rparr> # ws', w_task w # ts)
      else if moved < unat nrequeue then
        let (a, b, ws', ts) = requeue_loop k1 k2 nwake nrequeue woken (moved + 1) ws in (a, b, w\<lparr>w_key := k2\<rparr> # ws', ts)
      else let (a, b, ws', ts) = requeue_loop k1 k2 nwake nrequeue woken moved ws in (a, b, w # ws', ts))"

definition futex_requeue :: "vm \<Rightarrow> nat \<Rightarrow> u64 \<Rightarrow> u32 \<Rightarrow> u32 \<Rightarrow> u64 \<Rightarrow> bool \<Rightarrow> u32 \<Rightarrow> u32 \<Rightarrow> waiter list \<Rightarrow> int \<times> waiter list \<times> nat list" where
  "futex_requeue s pgd uaddr nwake nrequeue uaddr2 cmp val3 cur ws =
     (let k1 = key_of s pgd uaddr; k2 = key_of s pgd uaddr2
      in if k1 = 0 \<or> k2 = 0 then (- EFAULT, ws, [])
         else if cmp \<and> cur \<noteq> val3 then (- EAGAIN, ws, [])
         else let (woken, moved, ws, ts) = requeue_loop k1 k2 nwake nrequeue 0 0 ws
              in (int (woken + (if cmp then moved else 0)), ws, ts))"

text \<open>The system call: a wait with its kind of timeout, or a call that returns.\<close>

datatype fcall = CallWait nat | CallRet int "waiter list" "nat list"

definition sys_futex :: "vm \<Rightarrow> nat \<Rightarrow> u64 \<Rightarrow> u32 \<Rightarrow> u32 \<Rightarrow> u64 \<Rightarrow> u64 \<Rightarrow> u32 \<Rightarrow> u32 \<Rightarrow> waiter list \<Rightarrow> fcall" where
  "sys_futex s pgd uaddr op val utimeout uaddr2 val3 cur ws =
     (let cmd = op AND NOT (128 OR 256);
          ret = (\<lambda>(r, ws, ts). CallRet r ws ts)
      in if cmd = 0 then CallWait 0
         else if cmd = 9 then CallWait (if op AND 256 \<noteq> 0 then 2 else 1)
         else if cmd = 1 \<or> cmd = 10 then
           let key = key_of s pgd uaddr
           in if key = 0 then CallRet (- EFAULT) ws [] else ret (wake_key key (sint val) ws)
         else if cmd = 3 then ret (futex_requeue s pgd uaddr val (ucast utimeout) uaddr2 False 0 cur ws)
         else if cmd = 4 then ret (futex_requeue s pgd uaddr val (ucast utimeout) uaddr2 True val3 cur ws)
         else CallRet (- ENOSYS) ws [])"

subsection \<open>What waking does to the list\<close>

definition waiting :: "u64 \<Rightarrow> waiter list \<Rightarrow> waiter list" where
  "waiting key = filter (\<lambda>w. w_key w = key \<and> \<not> w_woken w)"

definition woken_count :: "waiter list \<Rightarrow> nat" where
  "woken_count ws = length (filter w_woken ws)"

definition stays_woken :: "waiter list \<Rightarrow> waiter list \<Rightarrow> bool" where
  "stays_woken ws ws' \<longleftrightarrow> list_all2 (\<lambda>w w'. w_task w' = w_task w \<and> (w_woken w \<longrightarrow> w_woken w')) ws ws'"

lemma waiting_simps [simp]:
  "waiting k [] = []"
  "waiting k (w # ws) = (if w_key w = k \<and> \<not> w_woken w then w # waiting k ws else waiting k ws)"
  by (simp_all add: waiting_def)

lemma woken_count_simps [simp]:
  "woken_count [] = 0" "woken_count (w # ws) = (if w_woken w then Suc (woken_count ws) else woken_count ws)"
  by (simp_all add: woken_count_def)

lemma stays_woken_simps [simp]:
  "stays_woken [] []"
  "stays_woken (w # ws) (w' # ws') = (w_task w' = w_task w \<and> (w_woken w \<longrightarrow> w_woken w') \<and> stays_woken ws ws')"
  by (simp_all add: stays_woken_def)

lemma stays_woken_refl [simp]: "stays_woken ws ws"
  by (induction ws) simp_all

lemma stays_woken_tasks: "stays_woken ws ws' \<Longrightarrow> map w_task ws' = map w_task ws"
  unfolding stays_woken_def by (induction rule: list_all2_induct) simp_all

lemma stays_woken_of: "stays_woken ws ws' \<Longrightarrow> woken_of i ws \<Longrightarrow> woken_of i ws'"
  unfolding stays_woken_def by (induction rule: list_all2_induct) (auto simp: woken_of_def split: if_splits)

lemma wake_loop_effect:
  assumes "wake_loop key n c ws = (c', ws', ts)"
  shows "ts = map w_task (take (nat (n - c)) (waiting key ws)) \<and> waiting key ws' = drop (nat (n - c)) (waiting key ws) \<and>
    (\<forall>k. k \<noteq> key \<longrightarrow> waiting k ws' = waiting k ws) \<and> c' = c + int (length ts) \<and>
    woken_count ws' = woken_count ws + length ts \<and> stays_woken ws ws'"
  using assms
proof (induction key n c ws arbitrary: c' ws' ts rule: wake_loop.induct)
  case (2 key n c w ws)
  show ?case
  proof (cases "c < n")
    case True
    show ?thesis
    proof (cases "w_key w = key \<and> \<not> w_woken w")
      case w: True
      have m: "nat (n - c) = Suc (nat (n - (c + 1)))" using True by simp
      obtain c1 ws1 ts1 where r: "wake_loop key n (c + 1) ws = (c1, ws1, ts1)" by (metis prod_cases3)
      have "c' = c1" "ws' = w\<lparr>w_woken := True\<rparr> # ws1" "ts = w_task w # ts1" using 2(3) True w r by simp_all
      then show ?thesis using 2(1) [OF _ w r] True w m by simp
    next
      case w: False
      obtain c1 ws1 ts1 where r: "wake_loop key n c ws = (c1, ws1, ts1)" by (metis prod_cases3)
      have "c' = c1" "ws' = w # ws1" "ts = ts1" using 2(3) True w r by (simp_all split: if_splits)
      then show ?thesis using 2(2) [OF _ w r] True w by (cases "w_woken w") simp_all
    qed
  qed (use 2(3) in auto)
qed auto

lemma requeue_loop_wakes:
  "requeue_loop k1 k2 nw nr a b ws = (a', b', ws', ts) \<Longrightarrow>
    a' = a + length ts \<and> woken_count ws' = woken_count ws + length ts \<and> stays_woken ws ws'"
proof (induction ws arbitrary: a b a' b' ws' ts)
  case (Cons w ws)
  then show ?case by (cases "w_woken w") (fastforce simp: Let_def split: if_splits prod.splits)+
qed simp

lemma requeue_loop_effect:
  assumes "requeue_loop k1 k2 nw nr a b ws = (a', b', ws', ts)" and "k1 \<noteq> k2"
  shows "ts = map w_task (take (unat nw - a) (waiting k1 ws)) \<and> a' = a + length ts \<and>
    waiting k1 ws' = drop (unat nw - a + (unat nr - b)) (waiting k1 ws) \<and>
    mset (map w_task (waiting k2 ws')) =
      mset (map w_task (waiting k2 ws)) + mset (map w_task (take (unat nr - b) (drop (unat nw - a) (waiting k1 ws)))) \<and>
    b' = b + length (take (unat nr - b) (drop (unat nw - a) (waiting k1 ws))) \<and>
    (\<forall>k. k \<noteq> k1 \<longrightarrow> k \<noteq> k2 \<longrightarrow> waiting k ws' = waiting k ws)"
  using assms
proof (induction k1 k2 nw nr a b ws arbitrary: a' b' ws' ts rule: requeue_loop.induct)
  case (2 k1 k2 nw nr a b w ws)
  obtain a1 b1 ws1 ts1 where r1: "requeue_loop k1 k2 nw nr a b ws = (a1, b1, ws1, ts1)" by (metis prod_cases4)
  obtain a2 b2 ws2 ts2 where r2: "requeue_loop k1 k2 nw nr (a + 1) b ws = (a2, b2, ws2, ts2)" by (metis prod_cases4)
  obtain a3 b3 ws3 ts3 where r3: "requeue_loop k1 k2 nw nr a (b + 1) ws = (a3, b3, ws3, ts3)" by (metis prod_cases4)
  consider (skip) "w_key w \<noteq> k1 \<or> w_woken w" | (wake) "w_key w = k1" "\<not> w_woken w" "a < unat nw"
    | (move) "w_key w = k1" "\<not> w_woken w" "\<not> a < unat nw" "b < unat nr"
    | (none) "w_key w = k1" "\<not> w_woken w" "\<not> a < unat nw" "\<not> b < unat nr" by blast
  then show ?case
  proof cases
    case skip
    have "a' = a1" "b' = b1" "ws' = w # ws1" "ts = ts1" using 2(5) skip r1 by auto
    then show ?thesis using 2(1) [OF skip r1 2(6)] skip by (cases "w_woken w") simp_all
  next
    case wake
    have "a' = a2" "b' = b2" "ws' = w\<lparr>w_woken := True\<rparr> # ws2" "ts = w_task w # ts2" using 2(5) wake r2 by auto
    moreover have "unat nw - a = Suc (unat nw - (a + 1))" using wake by simp
    ultimately show ?thesis using 2(2) [OF _ _ r2 2(6)] wake 2(6) by simp
  next
    case move
    have "a' = a3" "b' = b3" "ws' = w\<lparr>w_key := k2\<rparr> # ws3" "ts = ts3" using 2(5) move r3 by auto
    moreover have "unat nr - b = Suc (unat nr - (b + 1))" "unat nw - a = 0" using move by simp_all
    ultimately show ?thesis using 2(3) [OF _ _ _ r3 2(6)] move 2(6) by simp
  next
    case none
    have "a' = a1" "b' = b1" "ws' = w # ws1" "ts = ts1" using 2(5) none r1 by auto
    then show ?thesis using 2(4) [OF _ _ _ r1 2(6)] none 2(6) by simp
  qed
qed auto

text \<open>
  C37: \<^verbatim>\<open>FUTEX_REQUEUE\<close> wakes the first \<open>nwake\<close> tasks waiting for the first word and moves the next
  \<open>nrequeue\<close> of them to the second, in the order of the list; it returns how many it woke, and with the
  comparison also how many it moved. No other task's wait is touched.
\<close>

theorem futex_requeue_exact:
  assumes "key_of s pgd uaddr = k1" "key_of s pgd uaddr2 = k2" "k1 \<noteq> 0" "k2 \<noteq> 0" "k1 \<noteq> k2" and "cmp \<longrightarrow> cur = val3"
    and "futex_requeue s pgd uaddr nwake nrequeue uaddr2 cmp val3 cur ws = (r, ws', ts)"
  shows "ts = map w_task (take (unat nwake) (waiting k1 ws)) \<and>
    waiting k1 ws' = drop (unat nwake + unat nrequeue) (waiting k1 ws) \<and>
    mset (map w_task (waiting k2 ws')) = mset (map w_task (waiting k2 ws)) +
      mset (map w_task (take (unat nrequeue) (drop (unat nwake) (waiting k1 ws)))) \<and>
    (\<forall>k. k \<noteq> k1 \<and> k \<noteq> k2 \<longrightarrow> waiting k ws' = waiting k ws) \<and>
    r = int (length ts) + (if cmp then int (length (take (unat nrequeue) (drop (unat nwake) (waiting k1 ws)))) else 0)"
proof -
  obtain a b ws1 ts1 where q: "requeue_loop k1 k2 nwake nrequeue 0 0 ws = (a, b, ws1, ts1)" by (metis prod_cases4)
  have "r = int (a + (if cmp then b else 0))" "ws' = ws1" "ts = ts1"
    using assms q by (auto simp: futex_requeue_def Let_def split: if_splits)
  then show ?thesis using requeue_loop_effect [OF q assms(5)] by simp
qed

text \<open>Two words of one page, seen through tables whose every entry leads to the same frame.\<close>

definition one_page :: vm where
  "one_page = sample_vm\<lparr>mem := \<lambda>_. replicate 512 0x1001\<rparr>"

lemma one_page_keys:
  "key_of one_page 0x1000 (USER_BASE + 4) = 0x1004" "key_of one_page 0x1000 (USER_BASE + 8) = 0x1008"
  by (simp_all add: key_of_def translate_in_def numeral_3_eq_3 entry_def one_page_def IDX_def pte_addr_def)

theorem futex_requeue_exact_witness:
  "\<exists>ws'. futex_requeue one_page 0x1000 (USER_BASE + 4) 1 1 (USER_BASE + 8) True 5 5
       [\<lparr>w_key = 0x1004, w_task = 1, w_woken = False\<rparr>, \<lparr>w_key = 0x1004, w_task = 2, w_woken = False\<rparr>] = (2, ws', [1]) \<and>
     waiting 0x1004 ws' = [] \<and> mset (map w_task (waiting 0x1008 ws')) = {#2#}"
proof -
  let ?ws = "[\<lparr>w_key = 0x1004, w_task = 1, w_woken = False\<rparr>, \<lparr>w_key = 0x1004, w_task = 2, w_woken = False\<rparr>]"
  obtain r ws' ts where q: "futex_requeue one_page 0x1000 (USER_BASE + 4) 1 1 (USER_BASE + 8) True 5 5 ?ws = (r, ws', ts)"
    by (metis prod_cases3)
  show ?thesis using futex_requeue_exact [OF one_page_keys _ _ _ _ q] q by simp
qed

subsection \<open>The transition system\<close>

text \<open>
  A task in \<^verbatim>\<open>futex_wait\<close> is in its loop, with its deadline, or has left the loop with a return code but not
  yet taken the lock again: a wake that arrives then still counts. \<open>wakes\<close> counts the wakes that calls
  reported, \<open>zeros\<close> the waits that returned 0.
\<close>

datatype fpc = FIdle | FWaiting u64 | FLeaving int

record fsys =
  fwaiters :: "waiter list"
  fpcs :: "nat \<Rightarrow> fpc"
  wakes :: nat
  zeros :: nat

inductive futex_step :: "fsys \<Rightarrow> fsys \<Rightarrow> bool" where
  enter: "fpcs s i = FIdle \<Longrightarrow> futex_enter i key cur val (fwaiters s) = Some ws \<Longrightarrow>
    futex_step s (s\<lparr>fwaiters := ws, fpcs := (fpcs s)(i := FWaiting d)\<rparr>)"
| break: "fpcs s i = FWaiting d \<Longrightarrow> futex_pass (woken_of i (fwaiters s)) signal d now = FBreak rc \<Longrightarrow>
    futex_step s (s\<lparr>fpcs := (fpcs s)(i := FLeaving rc)\<rparr>)"
| leave: "fpcs s i = FLeaving rc \<Longrightarrow> futex_leave i rc (fwaiters s) = (r, ws) \<Longrightarrow>
    futex_step s (s\<lparr>fwaiters := ws, fpcs := (fpcs s)(i := FIdle), zeros := zeros s + (if r = 0 then 1 else 0)\<rparr>)"
| wake: "wake_key key n (fwaiters s) = (c, ws, ts) \<Longrightarrow>
    futex_step s (s\<lparr>fwaiters := ws, wakes := wakes s + nat c\<rparr>)"
| requeue: "requeue_loop k1 k2 nwake nrequeue 0 0 (fwaiters s) = (a, b, ws, ts) \<Longrightarrow>
    futex_step s (s\<lparr>fwaiters := ws, wakes := wakes s + a\<rparr>)"

definition futex_start :: fsys where
  "futex_start = \<lparr>fwaiters = [], fpcs = (\<lambda>_. FIdle), wakes = 0, zeros = 0\<rparr>"

inductive futex_reachable :: "fsys \<Rightarrow> bool" where
  start: "futex_reachable futex_start"
| step: "futex_reachable s \<Longrightarrow> futex_step s s' \<Longrightarrow> futex_reachable s'"

definition futex_inv :: "fsys \<Rightarrow> bool" where
  "futex_inv s \<longleftrightarrow> distinct (map w_task (fwaiters s)) \<and> (\<forall>i. i \<in> w_task ` set (fwaiters s) \<longleftrightarrow> fpcs s i \<noteq> FIdle) \<and>
     (\<forall>i. fpcs s i = FLeaving 0 \<longrightarrow> woken_of i (fwaiters s)) \<and> wakes s = zeros s + woken_count (fwaiters s)"

lemma unlink_waiter_effect:
  assumes "distinct (map w_task ws)"
  shows "distinct (map w_task (unlink_waiter i ws))" "w_task ` set (unlink_waiter i ws) = w_task ` set ws - {i}"
    "woken_count ws = woken_count (unlink_waiter i ws) + (if woken_of i ws then 1 else 0)"
    "j \<noteq> i \<Longrightarrow> woken_of j (unlink_waiter i ws) = woken_of j ws"
  using assms by (induction ws) (auto simp: woken_of_def image_iff)

lemma futex_inv_wake:
  assumes inv: "futex_inv s" and sw: "stays_woken (fwaiters s) ws" and n: "woken_count ws = woken_count (fwaiters s) + k"
  shows "futex_inv (s\<lparr>fwaiters := ws, wakes := wakes s + k\<rparr>)"
proof -
  note t = stays_woken_tasks [OF sw]
  have "w_task ` set ws = w_task ` set (fwaiters s)" using arg_cong [OF t, of set] by simp
  then show ?thesis using inv n stays_woken_of [OF sw] by (auto simp: futex_inv_def t)
qed

lemma futex_step_inv:
  assumes "futex_step s s'" and inv: "futex_inv s"
  shows "futex_inv s'"
  using assms(1)
proof (cases rule: futex_step.cases)
  case (enter i key cur val ws d)
  have "i \<notin> w_task ` set (fwaiters s)" using inv enter(2) by (simp add: futex_inv_def)
  moreover have "fpcs s (w_task x) \<noteq> FIdle" if "x \<in> set (fwaiters s)" for x
    using inv that by (auto simp: futex_inv_def)
  ultimately show ?thesis
    using inv enter by (auto simp: futex_inv_def futex_enter_def woken_of_def split: if_splits)
next
  case (break i d signal now rc)
  then show ?thesis using inv by (auto simp: futex_inv_def futex_pass_def split: if_splits)
next
  case (leave i rc r ws)
  have d: "distinct (map w_task (fwaiters s))" using inv by (simp add: futex_inv_def)
  have ws: "ws = unlink_waiter i (fwaiters s)" "r = (if woken_of i (fwaiters s) then 0 else rc)"
    using leave(3) by (auto simp: futex_leave_def)
  have "(r = 0) = woken_of i (fwaiters s)" using inv leave(2) ws(2) by (auto simp: futex_inv_def)
  then show ?thesis
    using inv unlink_waiter_effect [OF d, where i = i] unfolding leave(1) ws(1) by (auto simp: futex_inv_def)
next
  case (wake key n c ws ts)
  then show ?thesis
    using futex_inv_wake [OF inv, of ws "nat c"] wake_loop_effect [of key n 0 "fwaiters s" c ws ts] by (simp add: wake_key_def)
next
  case (requeue k1 k2 nwake nrequeue a b ws ts)
  then show ?thesis
    using futex_inv_wake [OF inv, of ws a] requeue_loop_wakes [OF requeue(2)] by simp
qed

text \<open>
  C11: no wake is lost and none is counted twice. Under every interleaving of waits, wakes, requeues,
  signals and timeouts, the wakes reported to callers are the waits that returned 0 and the tasks that
  are woken but have not returned yet; when no task is in a wait, the two numbers are equal.
\<close>

theorem futex_wakes_delivered:
  assumes "futex_reachable s"
  shows "wakes s = zeros s + woken_count (fwaiters s) \<and> ((\<forall>i. fpcs s i = FIdle) \<longrightarrow> wakes s = zeros s)"
proof -
  have "futex_inv s"
    using assms
  proof (induction rule: futex_reachable.induct)
    case start
    show ?case by (simp add: futex_inv_def futex_start_def)
  next
    case (step s s')
    then show ?case by (blast intro: futex_step_inv)
  qed
  then show ?thesis by (auto simp: futex_inv_def)
qed

text \<open>A wait of one task that is woken.\<close>

definition woken_run :: fsys where
  "woken_run = \<lparr>fwaiters = [\<lparr>w_key = 4096, w_task = 1, w_woken = True\<rparr>], fpcs = (\<lambda>_. FIdle)(1 := FWaiting 0), wakes = 1, zeros = 0\<rparr>"

lemma woken_run_reachable: "futex_reachable woken_run"
proof -
  let ?s = "futex_start\<lparr>fwaiters := [\<lparr>w_key = 4096, w_task = 1, w_woken = False\<rparr>], fpcs := (fpcs futex_start)(1 := FWaiting 0)\<rparr>"
  have "futex_step futex_start ?s"
    by (rule futex_step.enter [where key = 4096 and cur = 0 and val = 0]) (simp_all add: futex_start_def futex_enter_def)
  then have "futex_reachable ?s" by (rule futex_reachable.step [OF futex_reachable.start])
  moreover have "futex_step ?s woken_run"
    using futex_step.wake [of 4096 1 ?s 1 "fwaiters woken_run" "[1]"]
    by (simp add: wake_key_def woken_run_def futex_start_def)
  ultimately show ?thesis by (rule futex_reachable.step)
qed

theorem futex_wakes_delivered_witness:
  "futex_reachable woken_run \<and> wakes woken_run = 1 \<and> wakes woken_run = zeros woken_run + woken_count (fwaiters woken_run)"
  using futex_wakes_delivered [OF woken_run_reachable] woken_run_reachable by (simp add: woken_run_def)

text \<open>
  The 64-bit product of the seconds and the clock rate wraps: a wait for at most \<open>2 ^ 62\<close> seconds ends at
  the next tick.
\<close>

lemma futex_long_timeout_wraps:
  "futex_deadline 0 epoch (futex_ticks (2 ^ 62) 0) (t, t, t) = t + 1"
proof -
  have "futex_ticks (2 ^ 62) 0 = 0" by (simp add: futex_ticks_def word_unat_eq_iff)
  then show ?thesis by (simp add: futex_deadline_def Let_def)
qed

end
