(* ===== verification/Tmpfs.thy ===== *)
theory Tmpfs
  imports Ring
begin

text \<open>
  The memory file system, \<^verbatim>\<open>kernel/fs/tmpfs.c\<close>. The data of a file is a block of the heap (or a part of
  the initial archive, until the first write), the size is kept in the name's node, and several names can
  share the data. A block is the list of its bytes; the bytes of a new block are arbitrary, so an
  allocation is an argument: whether it succeeds, and what the new memory holds. \<open>None\<close> as the result of
  an operation is an access outside a block, or a loop that does not end.
\<close>

datatype vnode_type = VNODE_FILE | VNODE_DIR | VNODE_DEV | VNODE_LINK

record tmpfs_file =
  tf_data :: "u8 list option"     \<comment> \<open>\<open>None\<close> is the null pointer\<close>
  tf_cap :: nat
  tf_borrowed :: bool
  tf_links :: int

text \<open>A node: what tmpfs uses of \<^verbatim>\<open>struct vnode\<close>. \<open>n_priv\<close> is the address of its file.\<close>

record tnode =
  n_name :: string
  n_type :: vnode_type
  n_ino :: nat
  n_size :: nat
  n_priv :: "nat option"
  n_open_count :: nat
  n_unlinked :: bool

record tmpfs =
  tfiles :: "nat \<Rightarrow> tmpfs_file option"       \<comment> \<open>\<open>None\<close>: no such block, or freed\<close>
  nodes :: "nat \<Rightarrow> tnode option"
  children :: "nat list"                    \<comment> \<open>of a directory, along \<open>sibling\<close>\<close>
  next_ino :: nat

type_synonym alloc = "bool \<times> (nat \<Rightarrow> u8)"

definition kmalloc_block :: "alloc \<Rightarrow> nat \<Rightarrow> u8 list option" where
  "kmalloc_block a n = (if fst a then Some (map (snd a) [0 ..< n]) else None)"

text \<open>\<^verbatim>\<open>krealloc\<close> to a larger size: the old bytes, then new memory.\<close>

definition krealloc_block :: "alloc \<Rightarrow> u8 list option \<Rightarrow> nat \<Rightarrow> u8 list option" where
  "krealloc_block a old n =
     (case old of None \<Rightarrow> kmalloc_block a n
      | Some d \<Rightarrow> map_option (\<lambda>b. take n d @ drop (length d) b) (kmalloc_block a n))"

text \<open>\<^verbatim>\<open>memcpy\<close> or \<^verbatim>\<open>memset\<close> into the data at an offset.\<close>

definition put_bytes :: "u8 list option \<Rightarrow> nat \<Rightarrow> u8 list \<Rightarrow> u8 list option option" where
  "put_bytes d off xs =
     (if xs = [] then Some d
      else case d of None \<Rightarrow> None
           | Some b \<Rightarrow> (if off + length xs \<le> length b then Some (Some (memcpy b off xs)) else None))"

subsection \<open>Reading and writing\<close>

definition tmpfs_read :: "tmpfs_file option \<Rightarrow> nat \<Rightarrow> nat \<Rightarrow> nat \<Rightarrow> u8 list option" where
  "tmpfs_read tf sz pos len =
     (case tf of None \<Rightarrow> Some []
      | Some tf \<Rightarrow>
          (case tf_data tf of None \<Rightarrow> Some []
           | Some d \<Rightarrow>
               let avail = (if pos < sz then sz - pos else 0);
                   len = (if len > avail then avail else len)
               in if len = 0 then Some [] else if pos + len \<le> length d then Some (take len (drop pos d)) else None))"

text \<open>The doubling loop.\<close>

partial_function (option) grow_cap :: "nat \<Rightarrow> nat \<Rightarrow> nat option" where
  "grow_cap cap end1 = (if cap < end1 then grow_cap (wrap64 (cap * 2)) end1 else Some cap)"

text \<open>The first write to borrowed data; \<open>Some None\<close> is a failed allocation.\<close>

definition tmpfs_own :: "alloc \<Rightarrow> tmpfs_file \<Rightarrow> nat \<Rightarrow> nat \<Rightarrow> tmpfs_file option option" where
  "tmpfs_own a tf sz end1 =
     (if tf_borrowed tf then
        let cap = (if sz > end1 then sz else end1); cap = (if cap \<noteq> 0 then cap else 64)
        in case kmalloc_block a cap of None \<Rightarrow> Some None
           | Some b \<Rightarrow>
               (case tf_data tf of
                  None \<Rightarrow> (if sz = 0 then Some (Some (tf\<lparr>tf_data := Some b, tf_cap := cap, tf_borrowed := False\<rparr>)) else None)
                | Some d \<Rightarrow>
                    (if sz \<le> length d
                     then Some (Some (tf\<lparr>tf_data := Some (take sz d @ drop sz b), tf_cap := cap, tf_borrowed := False\<rparr>))
                     else None))
      else Some (Some tf))"

definition tmpfs_grow :: "alloc \<Rightarrow> tmpfs_file \<Rightarrow> nat \<Rightarrow> tmpfs_file option option" where
  "tmpfs_grow a tf end1 =
     (if end1 > tf_cap tf then
        (case grow_cap (if tf_cap tf \<noteq> 0 then tf_cap tf else 64) end1 of
           None \<Rightarrow> None
         | Some cap \<Rightarrow>
             (case krealloc_block a (tf_data tf) cap of None \<Rightarrow> Some None
              | Some d \<Rightarrow> Some (Some (tf\<lparr>tf_data := Some d, tf_cap := cap\<rparr>))))
      else Some (Some tf))"

definition tmpfs_store :: "tmpfs_file \<Rightarrow> nat \<Rightarrow> nat \<Rightarrow> u8 list \<Rightarrow> (int \<times> tmpfs_file \<times> nat) option" where
  "tmpfs_store tf sz pos buf =
     (case put_bytes (tf_data tf) sz (replicate (pos - sz) 0) of None \<Rightarrow> None
      | Some d \<Rightarrow>
          (case put_bytes d pos buf of None \<Rightarrow> None
           | Some d \<Rightarrow>
               let end1 = add64 pos (length buf)
               in Some (int (length buf), tf\<lparr>tf_data := d\<rparr>, if end1 > sz then end1 else sz)))"

definition tmpfs_write :: "alloc \<times> alloc \<Rightarrow> tmpfs_file \<Rightarrow> nat \<Rightarrow> nat \<Rightarrow> u8 list \<Rightarrow> (int \<times> tmpfs_file \<times> nat) option" where
  "tmpfs_write a tf sz pos buf =
     (let end1 = add64 pos (length buf)
      in case tmpfs_own (fst a) tf sz end1 of
        None \<Rightarrow> None
      | Some None \<Rightarrow> Some (- 1, tf, sz)
      | Some (Some tf) \<Rightarrow>
          (case tmpfs_grow (snd a) tf end1 of
             None \<Rightarrow> None
           | Some None \<Rightarrow> Some (- 1, tf, sz)
           | Some (Some tf) \<Rightarrow> tmpfs_store tf sz pos buf))"

definition tmpfs_truncate :: "alloc \<times> alloc \<Rightarrow> tmpfs_file \<Rightarrow> nat \<Rightarrow> nat \<Rightarrow> (int \<times> tmpfs_file \<times> nat) option" where
  "tmpfs_truncate a tf sz sz1 =
     (if sz1 > sz then
        map_option (\<lambda>(r, tf, sz). (if r = 1 then 0 else - 1, tf, sz)) (tmpfs_write a tf sz (sz1 - 1) [0])
      else if sz1 = 0 then Some (0, tf\<lparr>tf_data := None, tf_cap := 0, tf_borrowed := False\<rparr>, 0)
      else Some (0, tf, sz1))"

subsection \<open>Names\<close>

abbreviation VFS_NAME_MAX :: nat where "VFS_NAME_MAX \<equiv> 256"

definition new_node :: "string \<Rightarrow> vnode_type \<Rightarrow> tnode" where
  "new_node name ty = \<lparr>n_name = name, n_type = ty, n_ino = 0, n_size = 0, n_priv = None, n_open_count = 0, n_unlinked = False\<rparr>"

text \<open>\<^verbatim>\<open>vnode_alloc\<close> with a parent; \<open>v\<close> is the address of the node, 0 when there is no memory.\<close>

definition vnode_alloc :: "nat \<Rightarrow> string \<Rightarrow> vnode_type \<Rightarrow> tmpfs \<Rightarrow> tmpfs option" where
  "vnode_alloc v name ty fs =
     (if v = 0 then None else Some (fs\<lparr>nodes := (nodes fs)(v \<mapsto> new_node (take (VFS_NAME_MAX - 1) name) ty), children := v # children fs\<rparr>))"

definition set_node :: "nat \<Rightarrow> (tnode \<Rightarrow> tnode) \<Rightarrow> tmpfs \<Rightarrow> tmpfs" where
  "set_node v f fs = fs\<lparr>nodes := (nodes fs)(v := map_option f (nodes fs v))\<rparr>"

definition set_file :: "nat \<Rightarrow> (tmpfs_file \<Rightarrow> tmpfs_file) \<Rightarrow> tmpfs \<Rightarrow> tmpfs" where
  "set_file t f fs = fs\<lparr>tfiles := (tfiles fs)(t := map_option f (tfiles fs t))\<rparr>"

text \<open>
  \<open>t\<close> is the address of the new file, 0 when there is no memory. On that failure the node is freed, but it
  stays in the parent's list of children.
\<close>

definition tmpfs_create :: "nat \<Rightarrow> nat \<Rightarrow> string \<Rightarrow> vnode_type \<Rightarrow> tmpfs \<Rightarrow> nat \<times> tmpfs" where
  "tmpfs_create v t name ty fs =
     (case vnode_alloc v name ty fs of None \<Rightarrow> (0, fs)
      | Some fs \<Rightarrow>
          let fs = (set_node v (\<lambda>n. n\<lparr>n_ino := next_ino fs\<rparr>) fs)\<lparr>next_ino := next_ino fs + 1\<rparr>
          in if ty = VNODE_FILE then
               (if t = 0 then (0, fs\<lparr>nodes := (nodes fs)(v := None)\<rparr>)
                else (v, set_node v (\<lambda>n. n\<lparr>n_priv := Some t\<rparr>)
                       (fs\<lparr>tfiles := (tfiles fs)(t \<mapsto> \<lparr>tf_data = None, tf_cap = 0, tf_borrowed = False, tf_links = 1\<rparr>)\<rparr>)))
             else (v, fs))"

definition tmpfs_link :: "nat \<Rightarrow> nat \<Rightarrow> string \<Rightarrow> tmpfs \<Rightarrow> int \<times> tmpfs" where
  "tmpfs_link v target name fs =
     (case nodes fs target of None \<Rightarrow> (- EPERM, fs)
      | Some tn \<Rightarrow>
          if n_type tn = VNODE_DIR then (- EPERM, fs)
          else case vnode_alloc v name (n_type tn) fs of None \<Rightarrow> (- ENOMEM, fs)
               | Some fs \<Rightarrow>
                   let fs = set_node v (\<lambda>n. n\<lparr>n_ino := n_ino tn, n_priv := n_priv tn, n_size := n_size tn\<rparr>) fs
                   in (0, case n_priv tn of None \<Rightarrow> fs | Some t \<Rightarrow> set_file t (\<lambda>f. f\<lparr>tf_links := tf_links f + 1\<rparr>) fs))"

definition tmpfs_unlink :: "nat \<Rightarrow> tmpfs \<Rightarrow> tmpfs" where
  "tmpfs_unlink v fs =
     (case nodes fs v of None \<Rightarrow> fs
      | Some n \<Rightarrow>
          (case n_priv n of
             Some t \<Rightarrow> if n_type n = VNODE_FILE then set_file t (\<lambda>f. f\<lparr>tf_links := tf_links f - 1\<rparr>) fs else fs
           | None \<Rightarrow> fs))"

definition tmpfs_release :: "nat \<Rightarrow> tmpfs \<Rightarrow> tmpfs" where
  "tmpfs_release v fs =
     (case nodes fs v of None \<Rightarrow> fs
      | Some n \<Rightarrow>
          (case n_priv n of
             Some t \<Rightarrow>
               if n_type n = VNODE_FILE then
                 let fs = (case tfiles fs t of
                             Some f \<Rightarrow> if tf_links f \<le> 0 then fs\<lparr>tfiles := (tfiles fs)(t := None)\<rparr> else fs
                           | None \<Rightarrow> fs)
                 in set_node v (\<lambda>n. n\<lparr>n_priv := None\<rparr>) fs
               else fs
           | None \<Rightarrow> fs))"

text \<open>\<^verbatim>\<open>vfs_unlink\<close> of a file once its node is found, and the last close of a file that was unlinked.\<close>

definition vfs_unlink :: "nat \<Rightarrow> tmpfs \<Rightarrow> tmpfs" where
  "vfs_unlink v fs =
     (let fs = tmpfs_unlink v fs;
          fs = fs\<lparr>children := remove1 v (children fs)\<rparr>;
          fs = set_node v (\<lambda>n. n\<lparr>n_unlinked := True\<rparr>) fs
      in if (case nodes fs v of Some n \<Rightarrow> n_open_count n = 0 | None \<Rightarrow> False)
         then let fs = tmpfs_release v fs in fs\<lparr>nodes := (nodes fs)(v := None)\<rparr>
         else fs)"

definition open_node :: "nat \<Rightarrow> tmpfs \<Rightarrow> tmpfs" where
  "open_node v fs = set_node v (\<lambda>n. n\<lparr>n_open_count := n_open_count n + 1\<rparr>) fs"

definition close_node :: "nat \<Rightarrow> tmpfs \<Rightarrow> tmpfs" where
  "close_node v fs =
     (let fs = set_node v (\<lambda>n. n\<lparr>n_open_count := n_open_count n - 1\<rparr>) fs
      in if (case nodes fs v of Some n \<Rightarrow> n_open_count n = 0 \<and> n_unlinked n | None \<Rightarrow> False)
         then let fs = tmpfs_release v fs in fs\<lparr>nodes := (nodes fs)(v := None)\<rparr>
         else fs)"

text \<open>The entry at a position of a directory, and the next position.\<close>

definition tmpfs_readdir :: "nat \<Rightarrow> tmpfs \<Rightarrow> (tnode \<times> nat) option" where
  "tmpfs_readdir pos fs =
     (case drop pos (children fs) of [] \<Rightarrow> None | c # _ \<Rightarrow> map_option (\<lambda>n. (n, pos + 1)) (nodes fs c))"

text \<open>An octal field of an archive header.\<close>

fun tar_octal_loop :: "nat \<Rightarrow> u8 list \<Rightarrow> nat" where
  "tar_octal_loop v [] = v"
| "tar_octal_loop v (c # cs) = (if 48 \<le> c \<and> c \<le> 55 then tar_octal_loop (wrap64 (wrap64 (v * 8) + unat (c - 48))) cs else v)"

definition tar_octal :: "u8 list \<Rightarrow> nat \<Rightarrow> nat" where
  "tar_octal s n = tar_octal_loop 0 (take n s)"

subsection \<open>The data of a file\<close>

definition tf_ok :: "tmpfs_file \<Rightarrow> nat \<Rightarrow> bool" where
  "tf_ok tf sz \<longleftrightarrow> sz < 2 ^ 63 \<and> tf_cap tf < 2 ^ 64 \<and>
     (case tf_data tf of None \<Rightarrow> sz = 0 \<and> tf_cap tf = 0 \<and> \<not> tf_borrowed tf
      | Some d \<Rightarrow> sz \<le> length d \<and> (\<not> tf_borrowed tf \<longrightarrow> length d = tf_cap tf))"

definition tcontents :: "tmpfs_file \<Rightarrow> nat \<Rightarrow> u8 list" where
  "tcontents tf sz = (case tf_data tf of None \<Rightarrow> [] | Some d \<Rightarrow> take sz d)"

text \<open>A write in the middle, at the end, or past the end of a file, where the gap reads as zeros.\<close>

definition overlay :: "u8 list \<Rightarrow> nat \<Rightarrow> u8 list \<Rightarrow> u8 list" where
  "overlay c pos buf = take pos (c @ replicate (pos - length c) 0) @ buf @ drop (pos + length buf) c"

lemma kmalloc_block_length: "kmalloc_block a n = Some b \<Longrightarrow> length b = n"
  by (auto simp: kmalloc_block_def split: if_splits)

lemma grow_cap_ends:
  assumes "0 < cap" "cap < 2 ^ 64" "end1 \<le> 2 ^ 63"
  shows "\<exists>c. grow_cap cap end1 = Some c \<and> cap \<le> c \<and> end1 \<le> c \<and> c < 2 ^ 64"
  using assms
proof (induction "end1 - cap" arbitrary: cap rule: less_induct)
  case less
  show ?case
  proof (cases "cap < end1")
    case True
    then have w: "wrap64 (cap * 2) = cap * 2" using less.prems by (intro wrap64_id) simp
    have "\<exists>c. grow_cap (cap * 2) end1 = Some c \<and> cap * 2 \<le> c \<and> end1 \<le> c \<and> c < 2 ^ 64"
      by (rule less.hyps) (use True less.prems in auto)
    then show ?thesis using True w by (subst grow_cap.simps) auto
  next
    case False
    then show ?thesis using less.prems by (subst grow_cap.simps) auto
  qed
qed

lemma tmpfs_own_effect:
  assumes "tf_ok tf sz" and "end1 < 2 ^ 64"
  shows "tmpfs_own a tf sz end1 = Some None \<or>
    (\<exists>tf'. tmpfs_own a tf sz end1 = Some (Some tf') \<and> tf_ok tf' sz \<and> \<not> tf_borrowed tf' \<and> tcontents tf' sz = tcontents tf sz)"
proof (cases "tf_borrowed tf")
  case True
  then obtain d where d: "tf_data tf = Some d" "sz \<le> length d" using assms(1) by (auto simp: tf_ok_def split: option.splits)
  define cap where "cap = (let c = (if sz > end1 then sz else end1) in if c \<noteq> 0 then c else 64)"
  have c: "sz \<le> cap" "cap < 2 ^ 64" using assms by (auto simp: cap_def Let_def tf_ok_def)
  have e: "tmpfs_own a tf sz end1 = (case kmalloc_block a cap of None \<Rightarrow> Some None
      | Some b \<Rightarrow> Some (Some (tf\<lparr>tf_data := Some (take sz d @ drop sz b), tf_cap := cap, tf_borrowed := False\<rparr>)))"
    using True d by (simp add: tmpfs_own_def Let_def cap_def split: option.splits)
  show ?thesis
  proof (cases "kmalloc_block a cap")
    case (Some b)
    then show ?thesis
      using e d c assms(1) kmalloc_block_length [OF Some] by (auto simp: tf_ok_def tcontents_def)
  qed (simp add: e)
qed (use assms in \<open>simp add: tmpfs_own_def\<close>)

lemma tmpfs_grow_effect:
  assumes ok: "tf_ok tf sz" and b: "\<not> tf_borrowed tf" and e: "end1 \<le> 2 ^ 63"
  shows "tmpfs_grow a tf end1 = Some None \<or>
    (\<exists>tf'. tmpfs_grow a tf end1 = Some (Some tf') \<and> tf_ok tf' sz \<and> \<not> tf_borrowed tf' \<and> end1 \<le> tf_cap tf' \<and>
       tcontents tf' sz = tcontents tf sz)"
proof (cases "tf_cap tf < end1")
  case True
  define c0 where "c0 = (if tf_cap tf \<noteq> 0 then tf_cap tf else 64)"
  have "0 < c0" "c0 < 2 ^ 64" using ok by (auto simp: c0_def tf_ok_def)
  then obtain c where c: "grow_cap c0 end1 = Some c" "c0 \<le> c" "end1 \<le> c" "c < 2 ^ 64" using grow_cap_ends e by blast
  have c2: "tf_cap tf \<le> c" using c(2) by (auto simp: c0_def split: if_splits)
  have g: "tmpfs_grow a tf end1 = (case krealloc_block a (tf_data tf) c of None \<Rightarrow> Some None
      | Some d \<Rightarrow> Some (Some (tf\<lparr>tf_data := Some d, tf_cap := c\<rparr>)))"
    using True c(1) by (simp add: tmpfs_grow_def c0_def)
  show ?thesis
  proof (cases "krealloc_block a (tf_data tf) c")
    case (Some d)
    then have "length d = c \<and> (\<forall>d0. tf_data tf = Some d0 \<longrightarrow> take (length d0) d = d0)"
      using ok b c2 by (auto simp: krealloc_block_def tf_ok_def dest!: kmalloc_block_length split: option.splits)
    then have l: "length d = c" and t: "\<And>d0. tf_data tf = Some d0 \<Longrightarrow> take (length d0) d = d0" by auto
    have "take sz d = tcontents tf sz"
    proof (cases "tf_data tf")
      case (Some d0)
      then have "take sz (take (length d0) d) = take sz d" using ok by (simp add: tf_ok_def min_def)
      then show ?thesis using t [OF Some] Some by (simp add: tcontents_def)
    qed (use ok in \<open>simp add: tf_ok_def tcontents_def\<close>)
    moreover have "sz \<le> c" using ok b c2 by (auto simp: tf_ok_def split: option.splits)
    ultimately show ?thesis
      using g Some ok b c l by (simp add: tf_ok_def tcontents_def [of "tf\<lparr>tf_data := Some d, tf_cap := c\<rparr>"])
  qed (simp add: g)
next
  case False
  then show ?thesis using assms by (simp add: tmpfs_grow_def)
qed

lemma overlay_memcpy:
  assumes "sz \<le> length d" and "pos + length buf \<le> length d"
  shows "take (max sz (pos + length buf)) (memcpy (memcpy d sz (replicate (pos - sz) 0)) pos buf) = overlay (take sz d) pos buf"
proof (cases "pos \<le> sz")
  case True
  have "length d \<le> pos \<Longrightarrow> buf = []" using assms(2) by (cases buf) auto
  then show ?thesis using True assms by (auto simp: memcpy_def overlay_def max_def min_def drop_take)
next
  case False
  then have "take pos (memcpy d sz (replicate (pos - sz) 0)) = take sz d @ replicate (pos - sz) 0"
    using assms by (simp add: memcpy_def)
  then have "memcpy (memcpy d sz (replicate (pos - sz) 0)) pos buf =
      (take sz d @ replicate (pos - sz) 0) @ buf @ drop (pos + length buf) (memcpy d sz (replicate (pos - sz) 0))"
    unfolding memcpy_def [of "memcpy d sz (replicate (pos - sz) 0)"] by simp
  then show ?thesis using False assms by (simp add: overlay_def max_def)
qed

lemma tmpfs_store_effect:
  assumes ok: "tf_ok tf sz" and b: "\<not> tf_borrowed tf" and c: "pos + length buf \<le> tf_cap tf" and e: "pos + length buf < 2 ^ 63"
  shows "\<exists>tf' sz'. tmpfs_store tf sz pos buf = Some (int (length buf), tf', sz') \<and> tf_ok tf' sz' \<and>
    tcontents tf' sz' = overlay (tcontents tf sz) pos buf"
proof (cases "tf_data tf")
  case None
  then have "pos = 0" "buf = []" "sz = 0" using ok c by (auto simp: tf_ok_def)
  then show ?thesis using ok None by (simp add: tmpfs_store_def put_bytes_def overlay_def tcontents_def add64_def tf_ok_def)
next
  case (Some d)
  have d: "sz \<le> length d" "length d = tf_cap tf" using ok b Some by (simp_all add: tf_ok_def)
  let ?d1 = "memcpy d sz (replicate (pos - sz) 0)"
  have 1: "put_bytes (Some d) sz (replicate (pos - sz) 0) = Some (Some ?d1)"
    using d c by (auto simp: put_bytes_def)
  have l: "length ?d1 = length d" using d c by (cases "pos \<le> sz") simp_all
  have 2: "put_bytes (Some ?d1) pos buf = Some (Some (memcpy ?d1 pos buf))"
    using d c l by (auto simp: put_bytes_def)
  have "add64 pos (length buf) = pos + length buf" using e by (simp add: add64_def)
  then have s: "tmpfs_store tf sz pos buf =
      Some (int (length buf), tf\<lparr>tf_data := Some (memcpy ?d1 pos buf)\<rparr>, max sz (pos + length buf))"
    using 1 2 Some by (simp add: tmpfs_store_def max_def Let_def)
  have "length (memcpy ?d1 pos buf) = length d" using l c d by simp
  then show ?thesis
    using s overlay_memcpy [OF d(1), of pos buf] d c e ok Some b by (simp add: tf_ok_def tcontents_def)
qed

lemma tmpfs_write_effect:
  assumes "tf_ok tf sz" and "pos + length buf < 2 ^ 63"
  shows "\<exists>r tf' sz'. tmpfs_write a tf sz pos buf = Some (r, tf', sz') \<and> tf_ok tf' sz' \<and>
    (r = - 1 \<and> tcontents tf' sz' = tcontents tf sz \<or>
     r = int (length buf) \<and> tcontents tf' sz' = overlay (tcontents tf sz) pos buf)"
proof -
  have e: "add64 pos (length buf) = pos + length buf" using assms(2) by (simp add: add64_def)
  show ?thesis
  proof (cases "tmpfs_own (fst a) tf sz (pos + length buf) = Some None")
    case True
    then show ?thesis using assms(1) by (simp add: tmpfs_write_def e)
  next
    case False
    then obtain t1 where o: "tmpfs_own (fst a) tf sz (pos + length buf) = Some (Some t1)" and t1: "tf_ok t1 sz" "\<not> tf_borrowed t1"
      "tcontents t1 sz = tcontents tf sz"
      using tmpfs_own_effect [OF assms(1), of "pos + length buf" "fst a"] assms(2) by auto
    show ?thesis
    proof (cases "tmpfs_grow (snd a) t1 (pos + length buf) = Some None")
      case True
      then show ?thesis using o t1 by (simp add: tmpfs_write_def e)
    next
      case False
      then obtain t2 where g: "tmpfs_grow (snd a) t1 (pos + length buf) = Some (Some t2)" and t2: "tf_ok t2 sz" "\<not> tf_borrowed t2"
        "pos + length buf \<le> tf_cap t2" "tcontents t2 sz = tcontents t1 sz"
        using tmpfs_grow_effect [OF t1(1,2), of "pos + length buf" "snd a"] assms(2) by auto
      show ?thesis
        using tmpfs_store_effect [OF t2(1-3) assms(2)] o g t1 t2 by (auto simp: tmpfs_write_def e)
    qed
  qed
qed



text \<open>Reading returns the part of the contents asked for.\<close>

lemma tmpfs_read_contents:
  assumes "tf_ok tf sz"
  shows "tmpfs_read (Some tf) sz pos len = Some (take len (drop pos (tcontents tf sz)))"
proof (cases "tf_data tf")
  case (Some d)
  then have d: "sz \<le> length d" using assms by (simp add: tf_ok_def)
  show ?thesis
  proof (cases "pos < sz")
    case True
    then show ?thesis using Some d by (auto simp: tmpfs_read_def tcontents_def Let_def drop_take min_def)
  qed (use Some in \<open>simp add: tmpfs_read_def tcontents_def Let_def\<close>)
qed (simp add: tmpfs_read_def tcontents_def)

lemma tmpfs_truncate_contents:
  assumes "tf_ok tf sz" and "sz1 < 2 ^ 63"
  shows "\<exists>r tf' sz'. tmpfs_truncate a tf sz sz1 = Some (r, tf', sz') \<and> tf_ok tf' sz' \<and>
    (r = - 1 \<and> tcontents tf' sz' = tcontents tf sz \<or>
     r = 0 \<and> tcontents tf' sz' = take sz1 (tcontents tf sz @ replicate (sz1 - sz) 0))"
proof (cases "sz1 > sz")
  case True
  have l: "length (tcontents tf sz) = sz"
    using assms(1) by (auto simp: tf_ok_def tcontents_def split: option.splits)
  have "overlay (tcontents tf sz) (sz1 - 1) [0] = take sz1 (tcontents tf sz @ replicate (sz1 - sz) 0)"
  proof -
    have "sz1 - sz = Suc (sz1 - 1 - sz)" using True by simp
    then show ?thesis using True l by (simp add: overlay_def replicate_append_same)
  qed
  moreover obtain r tf' sz' where w: "tmpfs_write a tf sz (sz1 - 1) [0] = Some (r, tf', sz')" "tf_ok tf' sz'"
    "r = - 1 \<and> tcontents tf' sz' = tcontents tf sz \<or> r = 1 \<and> tcontents tf' sz' = overlay (tcontents tf sz) (sz1 - 1) [0]"
    using tmpfs_write_effect [OF assms(1), of "sz1 - 1" "[0]" a] assms(2) True by auto
  ultimately show ?thesis using True by (auto simp: tmpfs_truncate_def)
next
  case False
  then show ?thesis
    using assms by (auto simp: tmpfs_truncate_def tf_ok_def tcontents_def min_def split: option.splits)
qed

subsection \<open>Names that share a file\<close>

text \<open>
  The links of a file count its names, not its open files. When a file with two names is open through one
  of them and both are unlinked, the second unlink frees it.
\<close>

text \<open>
  C39: a file with two names, open through the first, is freed when both names are removed, while the open
  node still refers to it.
\<close>

theorem tmpfs_unlink_frees_open_file:
  assumes v: "nodes fs v = Some n" "n_type n = VNODE_FILE" "n_priv n = Some t" "0 < n_open_count n"
    and w: "nodes fs w = Some m" "n_type m = VNODE_FILE" "n_priv m = Some t" "n_open_count m = 0" "w \<noteq> v"
    and f: "tfiles fs t = Some f" "tf_links f = 2"
  shows "tfiles (vfs_unlink w (vfs_unlink v fs)) t = None \<and>
    (\<exists>n'. nodes (vfs_unlink w (vfs_unlink v fs)) v = Some n' \<and> n_priv n' = Some t \<and> 0 < n_open_count n')"
proof -
  define fs1 where "fs1 = vfs_unlink v fs"
  have 1: "nodes fs1 v = Some (n\<lparr>n_unlinked := True\<rparr>)" "nodes fs1 w = Some m" "tfiles fs1 t = Some (f\<lparr>tf_links := 1\<rparr>)"
    using assms by (simp_all add: fs1_def vfs_unlink_def tmpfs_unlink_def set_file_def set_node_def Let_def)
  show ?thesis
    unfolding fs1_def [symmetric] using 1 v w f
    by (simp add: vfs_unlink_def tmpfs_unlink_def tmpfs_release_def set_file_def set_node_def Let_def)
qed

definition empty_tmpfs :: tmpfs where
  "empty_tmpfs = \<lparr>tfiles = (\<lambda>_. None), nodes = (\<lambda>_. None), children = [], next_ino = 1\<rparr>"

definition two_names :: tmpfs where
  "two_names = open_node 1 (snd (tmpfs_link 2 1 ''b'' (snd (tmpfs_create 1 10 ''a'' VNODE_FILE empty_tmpfs))))"

theorem tmpfs_unlink_frees_open_file_witness:
  "tfiles two_names 10 \<noteq> None \<and> tfiles (vfs_unlink 2 (vfs_unlink 1 two_names)) 10 = None"
proof -
  have "\<exists>n m f. nodes two_names 1 = Some n \<and> n_type n = VNODE_FILE \<and> n_priv n = Some 10 \<and> 0 < n_open_count n \<and>
      nodes two_names 2 = Some m \<and> n_type m = VNODE_FILE \<and> n_priv m = Some 10 \<and> n_open_count m = 0 \<and>
      tfiles two_names 10 = Some f \<and> tf_links f = 2"
    by (simp add: two_names_def empty_tmpfs_def tmpfs_create_def tmpfs_link_def vnode_alloc_def new_node_def
        open_node_def set_node_def set_file_def Let_def)
  then show ?thesis using tmpfs_unlink_frees_open_file [of two_names 1 _ 10 2] by fastforce
qed

text \<open>When the file of a new node cannot be allocated, the node is freed but stays among its parent's children.\<close>

lemma tmpfs_create_leaves_freed_child:
  assumes "v \<noteq> 0"
  shows "v \<in> set (children (snd (tmpfs_create v 0 name VNODE_FILE fs))) \<and> nodes (snd (tmpfs_create v 0 name VNODE_FILE fs)) v = None"
  using assms by (simp add: tmpfs_create_def vnode_alloc_def set_node_def Let_def)

text \<open>
  Each name keeps its own size. After the file was truncated and written through one name, a read
  through another name goes by the old size and leaves the block.
\<close>

lemma tmpfs_stale_size_reads_outside:
  assumes "tf_data tf = Some (replicate 100 7)" "tf_cap tf = 100" "\<not> tf_borrowed tf"
  shows "\<exists>t1 t2. tmpfs_truncate ((True, g), (True, g)) tf 100 0 = Some (0, t1, 0) \<and>
    tmpfs_write ((True, g), (True, g)) t1 0 0 [1] = Some (1, t2, 1) \<and> tmpfs_read (Some t2) 100 0 100 = None"
proof -
  have "grow_cap 64 1 = Some 64" by (subst grow_cap.simps) simp
  then show ?thesis
    using assms by (simp add: tmpfs_truncate_def tmpfs_write_def tmpfs_own_def tmpfs_grow_def tmpfs_store_def tmpfs_read_def
        krealloc_block_def kmalloc_block_def put_bytes_def add64_def memcpy_def)
qed

text \<open>
  The doubling loop does not end for a position of \<open>2 ^ 63\<close> or more: the capacity is a power of two, and the
  one after \<open>2 ^ 63\<close> is 0.
\<close>

lemma wrap64_power_le: "wrap64 (2 ^ k) \<le> 2 ^ 63"
proof (cases "k < 64")
  case True
  then have "(2 :: nat) ^ k \<le> 2 ^ 63" by (intro power_increasing) auto
  then show ?thesis by (simp add: wrap64_def order_trans [OF mod_less_eq_dividend])
next
  case False
  then have "(2 :: nat) ^ 64 dvd 2 ^ k" by (intro le_imp_power_dvd) simp
  then show ?thesis by (simp add: wrap64_def)
qed

lemma grow_cap_Some:
  assumes "grow_cap cap end1 = Some c"
  shows "(\<exists>k. cap = wrap64 (2 ^ k)) \<longrightarrow> end1 \<le> 2 ^ 63"
proof (rule grow_cap.raw_induct [OF _ assms])
  fix f :: "nat \<Rightarrow> nat \<Rightarrow> nat option" and cap end1 c
  assume IH: "\<And>cap end1 c. f cap end1 = Some c \<Longrightarrow> (\<exists>k. cap = wrap64 (2 ^ k)) \<longrightarrow> end1 \<le> 2 ^ 63"
    and eq: "(if cap < end1 then f (wrap64 (cap * 2)) end1 else Some cap) = Some c"
  show "(\<exists>k. cap = wrap64 (2 ^ k)) \<longrightarrow> end1 \<le> 2 ^ 63"
  proof (intro impI, elim exE, rule ccontr)
    fix k assume k: "cap = wrap64 (2 ^ k)" and e: "\<not> end1 \<le> 2 ^ 63"
    have "cap < end1" using wrap64_power_le [of k] k e by linarith
    then have "f (wrap64 (cap * 2)) end1 = Some c" using eq by simp
    moreover have "wrap64 (cap * 2) = wrap64 (2 ^ Suc k)" using k by (simp add: wrap64_def mod_mult_right_eq mult.commute)
    ultimately show False using IH e by blast
  qed
qed

lemma tmpfs_write_hangs:
  assumes "2 ^ 63 < pos + length buf" "pos + length buf < 2 ^ 64" "tf_data tf = None" "tf_cap tf = 0" "\<not> tf_borrowed tf"
  shows "tmpfs_write a tf sz pos buf = None"
proof -
  have "grow_cap 64 (pos + length buf) = None"
  proof (cases "grow_cap 64 (pos + length buf)")
    case (Some c)
    have "\<exists>k. 64 = wrap64 (2 ^ k)" by (rule exI [of _ 6]) simp
    then have "pos + length buf \<le> 2 ^ 63" using grow_cap_Some [OF Some] by blast
    then show ?thesis using assms(1) by linarith
  qed simp
  moreover have "tf_cap tf < pos + length buf" using assms(1,4) by linarith
  ultimately show ?thesis using assms by (simp add: tmpfs_write_def tmpfs_own_def tmpfs_grow_def add64_def del: add_is_0 add_gr_0)
qed

subsection \<open>Archive fields\<close>

fun octal_value :: "u8 list \<Rightarrow> nat" where
  "octal_value [] = 0"
| "octal_value (c # cs) = unat (c - 48) * 8 ^ length cs + octal_value cs"

text \<open>A size field of eleven octal digits and a terminator is read exactly.\<close>

lemma tar_octal_loop_value:
  assumes "\<forall>c\<in>set cs. 48 \<le> c \<and> c \<le> 55" and "t = [] \<or> \<not> (48 \<le> hd t \<and> hd t \<le> 55)" and "v * 8 ^ length cs + 8 ^ length cs \<le> 2 ^ 64"
  shows "tar_octal_loop v (cs @ t) = v * 8 ^ length cs + octal_value cs"
  using assms
proof (induction cs arbitrary: v)
  case Nil
  then show ?case by (cases t) auto
next
  case (Cons c cs)
  have c: "48 \<le> c" "c \<le> 55" using Cons.prems(1) by auto
  have "unat (c - 48) = unat c - 48" using c(1) by (simp add: unat_sub)
  moreover have "unat c \<le> 55" using c(2) by (simp add: word_le_nat_alt)
  ultimately have d: "unat (c - 48) \<le> 7" by simp
  have "(v * 8 + 8) * 8 ^ length cs \<le> 2 ^ 64" using Cons.prems(3) by (simp add: algebra_simps)
  moreover have "(v * 8 + unat (c - 48) + 1) * 8 ^ length cs \<le> (v * 8 + 8) * 8 ^ length cs"
    using d by (intro mult_right_mono) auto
  ultimately have b: "(v * 8 + unat (c - 48) + 1) * 8 ^ length cs \<le> 2 ^ 64" by linarith
  have "(v * 8 + unat (c - 48) + 1) * 1 \<le> (v * 8 + unat (c - 48) + 1) * 8 ^ length cs" by (intro mult_le_mono2) simp
  then have "(v * 8 + unat (c - 48) + 1) * 1 \<le> 2 ^ 64" using b by (rule order_trans)
  then have s: "v * 8 + unat (c - 48) < 2 ^ 64" unfolding mult_1_right by linarith
  then have "wrap64 (wrap64 (v * 8) + unat (c - 48)) = v * 8 + unat (c - 48)" by simp
  then show ?case using Cons.IH [of "v * 8 + unat (c - 48)"] Cons.prems(1,2) b c by (simp add: algebra_simps)
qed

end
