(* ===== verification/Vfile.thy ===== *)
theory Vfile
  imports Tmpfs
begin













definition vfs_pread :: "('s \<Rightarrow> nat \<Rightarrow> nat \<Rightarrow> u8 list option) \<Rightarrow> vnode_type \<Rightarrow> 's \<Rightarrow> nat \<Rightarrow> nat \<Rightarrow> (int \<times> u8 list) option" where
  "vfs_pread rd ty s len offset =
     (if ty \<noteq> VNODE_FILE then Some (- 1, []) else map_option (\<lambda>d. (int (length d), d)) (rd s offset len))"

subsection \<open>A history of calls on one open file\<close>




subsection \<open>The specification\<close>





subsection \<open>What a file system promises\<close>


subsection \<open>Files of tmpfs\<close>












end
