(* ===== verification/Ip.thy ===== *)
theory Ip
  imports Sic_Prelude
begin

text \<open>
  IPv4, \<^verbatim>\<open>kernel/net/ip.c\<close>: the checksum, the choice of interface and next hop, and the header on its way
  out and in. A packet is the list of its bytes. An address is the number \<^verbatim>\<open>ntohl\<close> gives for it, so that
  its bytes in a header are those of the number, the most significant first; the operations on addresses
  (equality, masks) do not depend on the byte order.
\<close>

abbreviation ENETUNREACH :: int where "ENETUNREACH \<equiv> 101"

subsection \<open>The checksum\<close>

definition be16_bytes :: "nat \<Rightarrow> u8 list" where
  "be16_bytes n = [of_nat (n div 256), of_nat n]"

definition be16_val :: "u8 \<Rightarrow> u8 \<Rightarrow> nat" where
  "be16_val a b = unat a * 256 + unat b"

text \<open>The loop over the 16-bit words, with a 32-bit sum; the last byte of an odd length counts as the high one.\<close>

fun ip_sum :: "nat \<Rightarrow> u8 list \<Rightarrow> nat" where
  "ip_sum s (a # b # bs) = ip_sum ((s + be16_val a b) mod 2 ^ 32) bs"
| "ip_sum s [a] = (s + unat a * 256) mod 2 ^ 32"
| "ip_sum s [] = s"

lemma fold16_less: "s div 65536 \<noteq> 0 \<Longrightarrow> s mod 65536 + s div 65536 < (s :: nat)"
proof -
  assume "s div 65536 \<noteq> 0"
  moreover have "s = 65536 * (s div 65536) + s mod 65536" by simp
  ultimately show ?thesis by linarith
qed

function fold16 :: "nat \<Rightarrow> nat" where
  "fold16 s = (if s div 65536 \<noteq> 0 then fold16 (s mod 65536 + s div 65536) else s)"
  by auto

termination
  by (relation "measure id") (use fold16_less in auto)

declare fold16.simps [simp del]

text \<open>The value whose bytes \<^verbatim>\<open>htons\<close> puts in order.\<close>

definition ip_checksum :: "u8 list \<Rightarrow> nat" where
  "ip_checksum bs = 65535 - fold16 (ip_sum 0 bs)"

definition ip_pseudo_checksum :: "nat \<Rightarrow> nat \<Rightarrow> nat \<Rightarrow> u8 list \<Rightarrow> nat" where
  "ip_pseudo_checksum src dst proto bs =
     65535 - fold16 (ip_sum ((src div 2 ^ 16 + src mod 2 ^ 16 + (dst div 2 ^ 16 + dst mod 2 ^ 16) + proto + length bs) mod 2 ^ 32) bs)"

subsection \<open>Routing\<close>

record netdev =
  nd_up :: bool
  nd_mtu :: nat
  nd_ip :: nat
  nd_mask :: nat
  nd_gw :: nat

definition netdev_bcast :: "netdev \<Rightarrow> nat" where
  "netdev_bcast d = nd_ip d OR (2 ^ 32 - 1 - nd_mask d)"

text \<open>The interfaces, the loopback one first.\<close>

definition ip_local :: "netdev list \<Rightarrow> nat \<Rightarrow> bool" where
  "ip_local devs addr \<longleftrightarrow> addr div 2 ^ 24 = 127 \<or> list_ex (\<lambda>d. nd_ip d \<noteq> 0 \<and> nd_ip d = addr) devs"

fun route_loop :: "nat \<Rightarrow> netdev list \<Rightarrow> netdev option \<Rightarrow> (netdev \<times> nat) option" where
  "route_loop dst [] gw = map_option (\<lambda>d. (d, nd_gw d)) gw"
| "route_loop dst (d # ds) gw =
     (if \<not> nd_up d then route_loop dst ds gw
      else if dst = 2 ^ 32 - 1 then Some (d, dst)
      else if nd_ip d \<noteq> 0 \<and> nd_mask d \<noteq> 0 \<and> dst AND nd_mask d = nd_ip d AND nd_mask d then Some (d, dst)
      else route_loop dst ds (if nd_gw d \<noteq> 0 \<and> gw = None then Some d else gw))"

definition ip_route :: "netdev list \<Rightarrow> nat \<Rightarrow> (netdev \<times> nat) option" where
  "ip_route devs dst = (if ip_local devs dst then Some (hd devs, dst) else route_loop dst (tl devs) None)"

subsection \<open>Sending and receiving\<close>

definition addr_bytes :: "nat \<Rightarrow> u8 list" where
  "addr_bytes n = be16_bytes (n div 2 ^ 16) @ be16_bytes (n mod 2 ^ 16)"

definition addr_val :: "u8 list \<Rightarrow> nat" where
  "addr_val b = be16_val (b ! 0) (b ! 1) * 2 ^ 16 + be16_val (b ! 2) (b ! 3)"

text \<open>The header with a given checksum field.\<close>

definition ip_header :: "nat \<Rightarrow> nat \<Rightarrow> u8 \<Rightarrow> nat \<Rightarrow> nat \<Rightarrow> nat \<Rightarrow> u8 list" where
  "ip_header len ident proto csum src dst =
     [0x45, 0] @ be16_bytes len @ be16_bytes ident @ be16_bytes 0x4000 @ [64, proto] @ be16_bytes csum @
     addr_bytes src @ addr_bytes dst"

text \<open>An error, or the interface, the next hop and the packet that goes to \<^verbatim>\<open>arp_output\<close>.\<close>

definition ip_send :: "netdev list \<Rightarrow> nat \<Rightarrow> nat \<Rightarrow> nat \<Rightarrow> u8 \<Rightarrow> u8 list \<Rightarrow> int + (netdev \<times> nat \<times> u8 list)" where
  "ip_send devs ident src dst proto payload =
     (case ip_route devs dst of None \<Rightarrow> Inl (- ENETUNREACH)
      | Some (d, nexthop) \<Rightarrow>
          let src = (if src = 0 then nd_ip d else src)
          in if length payload + 20 > nd_mtu d then Inl (- EMSGSIZE)
             else let len = length payload + 20;
                      csum = ip_checksum (ip_header len ident proto 0 src dst)
                  in Inr (d, nexthop, ip_header len ident proto csum src dst @ payload))"

text \<open>A dropped packet, or its source, destination, protocol, header and payload.\<close>

definition ip_rx :: "netdev list \<Rightarrow> netdev \<Rightarrow> u8 list \<Rightarrow> (nat \<times> nat \<times> u8 \<times> u8 list \<times> u8 list) option" where
  "ip_rx devs d p =
     (if length p < 20 \<or> unat (p ! 0) div 16 \<noteq> 4 then None
      else let ihl = unat (p ! 0) mod 16 * 4; total = be16_val (p ! 2) (p ! 3)
        in if ihl < 20 \<or> total < ihl \<or> total > length p then None
           else if ip_checksum (take ihl p) \<noteq> 0 then None
           else if be16_val (p ! 6) (p ! 7) AND 0x3FFF \<noteq> 0 then None
           else let src = addr_val (drop 12 p); dst = addr_val (drop 16 p);
                    bcast = (dst = 2 ^ 32 - 1 \<or> nd_ip d \<noteq> 0 \<and> nd_mask d \<noteq> 0 \<and> dst = netdev_bcast d)
                in if \<not> bcast \<and> \<not> ip_local devs dst \<and> nd_ip d \<noteq> 0 then None
                   else if p ! 9 = 1 \<or> p ! 9 = 17 \<or> p ! 9 = 6 then Some (src, dst, p ! 9, take ihl p, drop ihl (take total p))
                   else None)"

subsection \<open>The checksum is right\<close>

lemma be16_roundtrip: "n < 65536 \<Longrightarrow> be16_val (of_nat (n div 256)) (of_nat n) = n"
  by (simp add: be16_val_def unat_of_nat take_bit_eq_mod)

lemma be16_less: "be16_val a b < 65536"
proof -
  have "unat a < 256" "unat b < 256" using unsigned_less [of a] unsigned_less [of b] by simp_all
  then show ?thesis by (simp add: be16_val_def)
qed

lemma fold16_props: "fold16 s < 65536 \<and> fold16 s mod 65535 = s mod 65535 \<and> (fold16 s = 0 \<longleftrightarrow> s = 0)"
proof (induction s rule: fold16.induct)
  case (1 s)
  show ?case
  proof (cases "s div 65536 = 0")
    case True
    then show ?thesis by (subst (1 2 3) fold16.simps) (auto simp: div_eq_0_iff)
  next
    case False
    have "s mod 65535 = (65536 * (s div 65536) + s mod 65536) mod 65535" by simp
    also have "65536 * (s div 65536) + s mod 65536 = s mod 65536 + s div 65536 + 65535 * (s div 65536)" by simp
    finally have "(s mod 65536 + s div 65536) mod 65535 = s mod 65535" by (metis mod_mult_self2)
    then show ?thesis using 1 [OF False] False by (subst (1 2 3) fold16.simps) auto
  qed
qed

lemma fold16_full: "s mod 65535 = 0 \<Longrightarrow> s \<noteq> 0 \<Longrightarrow> fold16 s = 65535"
proof -
  assume "s mod 65535 = 0" "s \<noteq> 0"
  then have x: "fold16 s mod 65535 = 0" "fold16 s \<noteq> 0" "fold16 s < 65536" using fold16_props [of s] by auto
  then have "65535 \<le> fold16 s" by (intro dvd_imp_le) (simp_all add: dvd_eq_mod_eq_0)
  then show ?thesis using x(3) by simp
qed

text \<open>Adding the complement of the folded sum to the sum makes the checksum 0.\<close>

lemma fold16_complement: "fold16 (s + (65535 - fold16 s)) = 65535"
proof -
  let ?t = "s + (65535 - fold16 s)"
  have f: "fold16 s \<le> 65535" "fold16 s mod 65535 = s mod 65535" using fold16_props [of s] by auto
  have "?t + fold16 s = s + 65535" using f(1) by simp
  then have "(?t + fold16 s) mod 65535 = fold16 s mod 65535" using f(2) by simp
  then have "65535 dvd ?t + fold16 s - fold16 s" by (subst (asm) mod_eq_dvd_iff_nat) simp_all
  then have t: "?t mod 65535 = 0" by (simp only: diff_add_inverse2 dvd_eq_mod_eq_0)
  have "?t \<noteq> 0" using fold16_props [of s] by auto
  then show ?thesis by (rule fold16_full [OF t])
qed

lemma be16_bytes_split:
  assumes "w < 65536"
  shows "\<exists>a b. be16_bytes w = [a, b] \<and> be16_val a b = w"
  using be16_roundtrip [OF assms] by (simp add: be16_bytes_def)

lemma ip_sum_words:
  assumes "\<forall>w\<in>set ws. w < 65536" and "s + sum_list ws < 2 ^ 32"
  shows "ip_sum s (concat (map be16_bytes ws)) = s + sum_list ws"
  using assms
proof (induction ws arbitrary: s)
  case (Cons w ws)
  obtain a b where ab: "be16_bytes w = [a, b]" "be16_val a b = w" using be16_bytes_split Cons.prems(1) by (metis list.set_intros(1))
  have "(s + w) mod 2 ^ 32 = s + w" using Cons.prems(2) by simp
  then show ?case using Cons ab by (simp add: add.assoc)
qed simp

definition header_words :: "nat \<Rightarrow> nat \<Rightarrow> u8 \<Rightarrow> nat \<Rightarrow> nat \<Rightarrow> nat \<Rightarrow> nat list" where
  "header_words len ident proto csum src dst =
     [0x4500, len, ident, 0x4000, 64 * 256 + unat proto, csum, src div 2 ^ 16, src mod 2 ^ 16, dst div 2 ^ 16, dst mod 2 ^ 16]"

lemma unat_u8_less: "unat (a :: u8) < 256"
  using unsigned_less [of a] by simp

lemma ip_header_words: "ip_header len ident proto csum src dst = concat (map be16_bytes (header_words len ident proto csum src dst))"
proof -
  have "(64 * 256 + unat proto) div 256 = 64" using unat_u8_less [of proto] by simp
  moreover have "(of_nat (64 * 256 + unat proto) :: u8) = proto"
  proof -
    have "(16384 :: u8) = 0" by (simp add: word_unat_eq_iff)
    then have "(16384 :: u8) + proto = proto" by (simp only: add_0)
    then show ?thesis by simp
  qed
  ultimately have "[64, proto] = be16_bytes (64 * 256 + unat proto)" by (simp only: be16_bytes_def) simp
  moreover have "[0x45, 0] = be16_bytes 0x4500" by (simp add: be16_bytes_def word_unat_eq_iff unat_of_nat take_bit_eq_mod)
  ultimately show ?thesis by (simp add: ip_header_def header_words_def addr_bytes_def)
qed

lemma ip_header_checksum:
  assumes b: "len < 65536" "ident < 65536" "src < 2 ^ 32" "dst < 2 ^ 32"
    and c: "csum = ip_checksum (ip_header len ident proto 0 src dst)"
  shows "ip_checksum (ip_header len ident proto csum src dst) = 0"
proof -
  define s where "s = sum_list (header_words len ident proto 0 src dst)"
  have w: "\<forall>w\<in>set (header_words len ident proto k src dst). w < 65536" if "k < 65536" for k
    using b that unat_u8_less [of proto] by (auto simp: header_words_def)
  have e: "sum_list (header_words len ident proto k src dst) = s + k" for k by (simp add: s_def header_words_def)
  have "sum_list ws \<le> 65535 * length ws" if "\<forall>w\<in>set ws. w < 65536" for ws :: "nat list"
    using that by (induction ws) auto
  from this [OF w [of 0]] have s: "s \<le> 655350" by (simp add: s_def header_words_def)
  have i: "ip_sum 0 (ip_header len ident proto k src dst) = s + k" if "k < 65536" for k
    using ip_sum_words [OF w [OF that], of 0] s that by (simp add: ip_header_words e)
  have csum: "csum = 65535 - fold16 s" using i [of 0] c by (simp add: ip_checksum_def)
  then have "ip_sum 0 (ip_header len ident proto csum src dst) = s + (65535 - fold16 s)" by (subst i) auto
  then show ?thesis using fold16_complement [of s] by (simp add: ip_checksum_def)
qed

lemma addr_roundtrip: "n < 2 ^ 32 \<Longrightarrow> addr_val (addr_bytes n @ r) = n"
proof -
  assume "n < 2 ^ 32"
  then have "n div 2 ^ 16 < 65536" "n mod 2 ^ 16 < 65536" by simp_all
  from be16_roundtrip [OF this(1)] be16_roundtrip [OF this(2)] show ?thesis
    by (simp add: addr_val_def addr_bytes_def be16_bytes_def)
qed

lemma ip_roundtrip:
  assumes "ip_send devs ident src dst proto payload = Inr (d, nexthop, p)" and "nd_mtu d < 65536" "nd_ip d < 2 ^ 32"
    and "ident < 65536" "src < 2 ^ 32" "dst < 2 ^ 32" and "proto = 1 \<or> proto = 6 \<or> proto = 17"
    and "ip_local devs' dst \<or> nd_ip d' = 0"
  shows "\<exists>hdr. ip_rx devs' d' (p @ pad) = Some (if src = 0 then nd_ip d else src, dst, proto, hdr, payload)"
proof -
  define src1 where "src1 = (if src = 0 then nd_ip d else src)"
  define len where "len = length payload + 20"
  define h where "h = ip_header len ident proto (ip_checksum (ip_header len ident proto 0 src1 dst)) src1 dst"
  have p: "p = h @ payload" and l: "len < 65536"
    using assms(1,2) by (auto simp: ip_send_def Let_def h_def len_def src1_def split: option.splits if_splits)
  have s1: "src1 < 2 ^ 32" using assms(3,5) by (simp add: src1_def)
  have c: "ip_checksum h = 0" using ip_header_checksum [OF l assms(4) s1 assms(6) refl] by (simp add: h_def)
  have hl: "length h = 20" by (simp add: h_def ip_header_def be16_bytes_def addr_bytes_def)
  have nth: "(p @ pad) ! 0 = 0x45" "(p @ pad) ! 9 = proto"
    "be16_val ((p @ pad) ! 2) ((p @ pad) ! 3) = len" "be16_val ((p @ pad) ! 6) ((p @ pad) ! 7) = 0x4000"
    using be16_roundtrip [OF l] by (simp_all add: p h_def ip_header_def be16_bytes_def be16_val_def)
  have "drop 12 (p @ pad) = addr_bytes src1 @ addr_bytes dst @ payload @ pad" "drop 16 (p @ pad) = addr_bytes dst @ payload @ pad"
    by (simp_all add: p h_def ip_header_def be16_bytes_def addr_bytes_def)
  then have a: "addr_val (drop 12 (p @ pad)) = src1" "addr_val (drop 16 (p @ pad)) = dst"
    using addr_roundtrip [OF s1] addr_roundtrip [OF assms(6)] by simp_all
  have t: "take 20 (p @ pad) = h" "drop 20 (take len (p @ pad)) = payload" "len \<le> length (p @ pad)" "20 \<le> len"
    by (simp_all add: p hl len_def)
  have v: "unat ((p @ pad) ! 0) div 16 = 4" "unat ((p @ pad) ! 0) mod 16 * 4 = 20" by (simp_all add: nth)
  have "\<not> length (p @ pad) < 20" using t by simp
  then show ?thesis
    using assms(7,8) t c unfolding ip_rx_def v nth(3,4) Let_def a src1_def [symmetric] nth(2) by auto
qed

text \<open>
  A packet that \<^verbatim>\<open>ip_send\<close> hands to an interface passes every check of \<^verbatim>\<open>ip_rx\<close> at a receiver that
  has the destination address (or is not configured yet), also behind the padding of a short frame: the
  header's checksum is right, and the receiver gets the source, the destination, the protocol and exactly
  the payload.
\<close>

theorem ip_send_rx_roundtrip:
  assumes "ip_send devs ident src dst proto payload = Inr (d, nexthop, p)" and "nd_mtu d < 65536" "nd_ip d < 2 ^ 32"
    and "ident < 65536" "src < 2 ^ 32" "dst < 2 ^ 32" and "proto = 1 \<or> proto = 6 \<or> proto = 17"
    and "ip_local devs' dst \<or> nd_ip d' = 0"
  shows "\<exists>hdr. ip_rx devs' d' (p @ pad) = Some (if src = 0 then nd_ip d else src, dst, proto, hdr, payload)"
  using ip_roundtrip [OF assms] .

definition sample_dev :: netdev where
  "sample_dev = \<lparr>nd_up = True, nd_mtu = 1500, nd_ip = 0x0A000001, nd_mask = 0xFF000000, nd_gw = 0\<rparr>"

definition sample_lo :: netdev where
  "sample_lo = \<lparr>nd_up = True, nd_mtu = 65535, nd_ip = 0x7F000001, nd_mask = 0xFF000000, nd_gw = 0\<rparr>"

theorem ip_send_rx_roundtrip_witness:
  "\<exists>p hdr. ip_send [sample_lo, sample_dev] 7 0 0x0A000002 17 [1, 2, 3] = Inr (sample_dev, 0x0A000002, p) \<and>
     ip_rx [sample_lo, sample_dev\<lparr>nd_ip := 0x0A000002\<rparr>] (sample_dev\<lparr>nd_ip := 0x0A000002\<rparr>) (p @ [0, 0]) =
       Some (0x0A000001, 0x0A000002, 17, hdr, [1, 2, 3])"
proof -
  have "ip_route [sample_lo, sample_dev] 0x0A000002 = Some (sample_dev, 0x0A000002)"
    by (simp add: ip_route_def ip_local_def sample_lo_def sample_dev_def)
  then obtain p where s: "ip_send [sample_lo, sample_dev] 7 0 0x0A000002 17 [1, 2, 3] = Inr (sample_dev, 0x0A000002, p)"
    by (simp add: ip_send_def Let_def sample_dev_def)
  have "ip_local [sample_lo, sample_dev\<lparr>nd_ip := 0x0A000002\<rparr>] 0x0A000002"
    by (simp add: ip_local_def)
  then show ?thesis
    using ip_send_rx_roundtrip [OF s, of "[sample_lo, sample_dev\<lparr>nd_ip := 0x0A000002\<rparr>]" "sample_dev\<lparr>nd_ip := 0x0A000002\<rparr>" "[0, 0]"] s
    by (auto simp: sample_dev_def)
qed

end
