(* ===== verification/Udp.thy ===== *)
theory Udp
  imports Ip
begin

text \<open>
  UDP, \<^verbatim>\<open>kernel/net/udp.c\<close>, and the echo reply of \<^verbatim>\<open>kernel/net/ip.c\<close>: building a datagram, checking one,
  and finding its socket. Ports are numbers, as \<^verbatim>\<open>ntohs\<close> gives them.
\<close>

record usocket =
  us_local_ip :: nat
  us_local_port :: nat
  us_connected :: bool
  us_remote_ip :: nat
  us_remote_port :: nat

text \<open>The search for a free port: the attempts left, the next candidate.\<close>

fun port_loop :: "usocket list \<Rightarrow> nat \<Rightarrow> nat \<Rightarrow> nat \<times> nat" where
  "port_loop socks 0 next1 = (0, next1)"
| "port_loop socks (Suc tries) next1 =
     (let port = next1; next1 = (next1 + 1) mod 2 ^ 16; next1 = (if next1 = 0 then 49152 else next1)
      in if list_ex (\<lambda>s. us_local_port s = port) socks then port_loop socks tries next1 else (port, next1))"

definition udp_ephemeral_port :: "usocket list \<Rightarrow> nat \<Rightarrow> nat \<times> nat" where
  "udp_ephemeral_port socks next1 = port_loop socks 16384 next1"

definition udp_header :: "nat \<Rightarrow> nat \<Rightarrow> nat \<Rightarrow> nat \<Rightarrow> u8 list" where
  "udp_header src dst len csum = be16_bytes src @ be16_bytes dst @ be16_bytes len @ be16_bytes csum"

definition udp_send :: "netdev list \<Rightarrow> nat \<Rightarrow> usocket \<Rightarrow> nat \<Rightarrow> nat \<Rightarrow> u8 list \<Rightarrow> int + (netdev \<times> nat \<times> u8 list)" where
  "udp_send devs ident s dst_ip dst_port payload =
     (case ip_route devs dst_ip of None \<Rightarrow> Inl (- ENETUNREACH)
      | Some (d, nexthop) \<Rightarrow>
          let src = (if us_local_ip s \<noteq> 0 then us_local_ip s else nd_ip d);
              len = (length payload + 8) mod 2 ^ 16;
              csum = ip_pseudo_checksum src dst_ip 17 (udp_header (us_local_port s) dst_port len 0 @ payload);
              csum = (if csum = 0 then 0xFFFF else csum)
          in ip_send devs ident src dst_ip 17 (udp_header (us_local_port s) dst_port len csum @ payload))"

text \<open>The checks of \<^verbatim>\<open>udp_rx\<close>: a dropped datagram, or its ports and payload.\<close>

definition udp_check :: "nat \<Rightarrow> nat \<Rightarrow> u8 list \<Rightarrow> (nat \<times> nat \<times> u8 list) option" where
  "udp_check src_ip dst_ip p =
     (if length p < 8 then None
      else let len = be16_val (p ! 4) (p ! 5); csum = be16_val (p ! 6) (p ! 7)
        in if len < 8 \<or> len > length p then None
           else if csum \<noteq> 0 \<and> ip_pseudo_checksum src_ip dst_ip 17 (take len p) \<noteq> 0 then None
           else Some (be16_val (p ! 0) (p ! 1), be16_val (p ! 2) (p ! 3), drop 8 (take len p)))"

text \<open>The socket a datagram is for: the first that matches. \<open>dev_ip\<close> is the address of the interface it came in on.\<close>

definition udp_match :: "nat \<Rightarrow> nat \<Rightarrow> nat \<Rightarrow> nat \<Rightarrow> nat \<Rightarrow> usocket \<Rightarrow> bool" where
  "udp_match dev_ip src_ip sport dst_ip dport s \<longleftrightarrow>
     us_local_port s = dport \<and>
     \<not> (us_local_ip s \<noteq> 0 \<and> us_local_ip s \<noteq> dst_ip \<and> \<not> (us_local_ip s = dev_ip \<and> dst_ip = 2 ^ 32 - 1)) \<and>
     \<not> (us_connected s \<and> (us_remote_ip s \<noteq> src_ip \<or> us_remote_port s \<noteq> sport))"

definition udp_rx :: "usocket list \<Rightarrow> nat \<Rightarrow> nat \<Rightarrow> nat \<Rightarrow> u8 list \<Rightarrow> (usocket \<times> nat \<times> u8 list) option" where
  "udp_rx socks dev_ip src_ip dst_ip p =
     (case udp_check src_ip dst_ip p of None \<Rightarrow> None
      | Some (sport, dport, data) \<Rightarrow>
          map_option (\<lambda>s. (s, sport, data)) (find (udp_match dev_ip src_ip sport dst_ip dport) socks))"

text \<open>The echo reply to an ICMP message that passes its checks; \<open>None\<close> when there is none.\<close>

definition icmp_echo :: "u8 list \<Rightarrow> u8 list option" where
  "icmp_echo p =
     (if length p < 8 \<or> ip_checksum p \<noteq> 0 then None
      else if p ! 0 = 8 \<and> p ! 1 = 0 then
        let q = p[0 := 0, 2 := 0, 3 := 0]; c = ip_checksum q in Some (q[2 := of_nat (c div 256), 3 := of_nat c])
      else None)"

subsection \<open>Sums\<close>

lemma be16_val_bound: "be16_val a b \<le> 65535"
  using be16_less [of a b] by simp

lemma ip_sum_add:
  "s + 32768 * (length bs + 1) < 2 ^ 32 \<Longrightarrow> ip_sum s bs = s + ip_sum 0 bs \<and> ip_sum 0 bs \<le> 32768 * (length bs + 1)"
proof (induction bs arbitrary: s rule: induct_list012)
  case (2 a)
  have "unat a * 256 \<le> 65280" using unat_u8_less [of a] by simp
  then show ?case using 2 by simp
next
  case (3 a b bs)
  have w: "be16_val a b \<le> 65535" by (rule be16_val_bound)
  have "ip_sum (s + be16_val a b) bs = s + be16_val a b + ip_sum 0 bs \<and> ip_sum 0 bs \<le> 32768 * (length bs + 1)"
    by (rule 3(1)) (use 3(3) w in simp)
  moreover have "ip_sum (be16_val a b) bs = be16_val a b + ip_sum 0 bs"
    using 3(1) [of "be16_val a b"] 3(3) w by simp
  moreover have "(s + be16_val a b) mod 2 ^ 32 = s + be16_val a b" "be16_val a b mod 2 ^ 32 = be16_val a b" using 3(3) w by simp_all
  ultimately show ?case using w by simp
qed simp

lemma ip_sum_be16: "w < 65536 \<Longrightarrow> s + w < 2 ^ 32 \<Longrightarrow> ip_sum s (be16_bytes w @ bs) = ip_sum (s + w) bs"
proof -
  assume w: "w < 65536" "s + w < 2 ^ 32"
  obtain a b where "be16_bytes w = [a, b]" "be16_val a b = w" using be16_bytes_split [OF w(1)] by blast
  then show ?thesis using w(2) by simp
qed

text \<open>A checksum field that complements the sum of the rest, with 65535 in place of 0.\<close>

lemma fold16_field:
  assumes "c = 65535 - fold16 s"
  shows "fold16 (s + (if c = 0 then 65535 else c)) = 65535"
proof (cases "c = 0")
  case True
  then have "fold16 s = 65535" using fold16_props [of s] assms by simp
  then have "s mod 65535 = 0" using fold16_props [of s] by simp
  then show ?thesis using True fold16_full [of "s + 65535"] by simp
next
  case False
  then show ?thesis using fold16_complement [of s] assms by simp
qed

lemma pseudo_sum:
  assumes "src < 2 ^ 32" "dst < 2 ^ 32" "sp < 65536" "dp < 65536" "len < 65536" "csum < 65536" "length payload + 8 < 65536"
  shows "ip_pseudo_checksum src dst 17 (udp_header sp dp len csum @ payload) =
    65535 - fold16 (src div 2 ^ 16 + src mod 2 ^ 16 + (dst div 2 ^ 16 + dst mod 2 ^ 16) + 17 + (8 + length payload) +
      sp + dp + len + ip_sum 0 payload + csum)"
proof -
  let ?P = "src div 2 ^ 16 + src mod 2 ^ 16 + (dst div 2 ^ 16 + dst mod 2 ^ 16) + 17 + (8 + length payload)"
  have P: "?P < 400000" using assms(1,2,7) by simp
  have l: "length (udp_header sp dp len csum @ payload) = 8 + length payload" by (simp add: udp_header_def be16_bytes_def)
  have "ip_sum (?P mod 2 ^ 32) (udp_header sp dp len csum @ payload) = ip_sum (?P + sp + dp + len + csum) payload"
    using P assms(3-6) by (simp add: udp_header_def ip_sum_be16)
  also have "\<dots> = ?P + sp + dp + len + csum + ip_sum 0 payload"
    using ip_sum_add [of "?P + sp + dp + len + csum" payload] P assms(3-7) by simp
  finally show ?thesis unfolding ip_pseudo_checksum_def l by (simp add: algebra_simps)
qed

text \<open>An echo reply has a right checksum and the data of the request.\<close>

lemma icmp_echo_reply:
  assumes "icmp_echo p = Some q" and l: "length p < 65536"
  shows "ip_checksum q = 0 \<and> q ! 0 = 0 \<and> drop 4 q = drop 4 p"
proof -
  have "Suc (Suc (Suc (Suc 0))) \<le> length p" using assms(1) by (auto simp: icmp_echo_def split: if_splits)
  then obtain a b c d r where p: "p = a # b # c # d # r" by (auto simp: Suc_le_length_iff)
  define s where "s = unat b + ip_sum 0 r"
  have w: "ip_sum 0 (0 # b # of_nat (k div 256) # of_nat k # r) = s + k" if "k < 65536" for k
    using ip_sum_add [of "unat b + k" r] ip_sum_add [of "unat b" r] unat_u8_less [of b] l that be16_roundtrip [OF that]
    by (simp add: p s_def be16_val_def)
  define k where "k = ip_checksum (0 # b # 0 # 0 # r)"
  have k: "k = 65535 - fold16 s" using w [of 0] by (simp add: k_def ip_checksum_def)
  have q: "q = 0 # b # of_nat (k div 256) # of_nat k # r"
    using assms(1) by (auto simp: p icmp_echo_def Let_def k_def numeral_2_eq_2 numeral_3_eq_3 split: if_splits)
  have "ip_sum 0 q = s + (65535 - fold16 s)" unfolding q by (subst w) (simp_all add: k)
  then show ?thesis using fold16_complement [of s] by (simp add: ip_checksum_def) (simp add: q p)
qed

text \<open>
  C22: a datagram sent by \<^verbatim>\<open>udp_send\<close> arrives: at a receiver that has the destination address it passes the
  checks of \<^verbatim>\<open>ip_rx\<close> and of \<^verbatim>\<open>udp_rx\<close>, whose pseudo-header sum covers addresses, length and data of any
  parity, and yields the sender's port, the destination port and exactly the data.
\<close>

theorem udp_send_rx_roundtrip:
  assumes snd: "udp_send devs ident s dst dport payload = Inr (d, nexthop, p)" and dev: "nd_mtu d < 65536" "nd_ip d < 2 ^ 32"
    and b: "ident < 65536" "us_local_ip s < 2 ^ 32" "dst < 2 ^ 32" "us_local_port s < 65536" "dport < 65536"
    and rcv: "ip_local devs' dst \<or> nd_ip d' = 0"
  shows "\<exists>src hdr u. ip_rx devs' d' (p @ pad) = Some (src, dst, 17, hdr, u) \<and>
    udp_check src dst u = Some (us_local_port s, dport, payload)"
proof -
  obtain d0 nh where r: "ip_route devs dst = Some (d0, nh)" using snd by (auto simp: udp_send_def split: option.splits)
  define src where "src = (if us_local_ip s \<noteq> 0 then us_local_ip s else nd_ip d0)"
  define len where "len = (length payload + 8) mod 2 ^ 16"
  define c where "c = ip_pseudo_checksum src dst 17 (udp_header (us_local_port s) dport len 0 @ payload)"
  define f where "f = (if c = 0 then 65535 else c)"
  define u where "u = udp_header (us_local_port s) dport len f @ payload"
  have i: "ip_send devs ident src dst 17 u = Inr (d, nexthop, p)"
    using snd unfolding udp_send_def r option.case prod.case Let_def src_def [symmetric] len_def [symmetric]
      c_def [symmetric] f_def [symmetric] u_def [symmetric] .
  have ul: "length u = length payload + 8" by (simp add: u_def udp_header_def be16_bytes_def)
  have d0: "d0 = d" and m: "length u + 20 \<le> nd_mtu d"
    using i r by (auto simp: ip_send_def Let_def split: if_splits)
  have pl: "length payload + 8 < 65536" and len: "len = length payload + 8" using m ul dev(1) by (simp_all add: len_def)
  have s: "src < 2 ^ 32" using b(2) dev(2) d0 by (simp add: src_def)
  obtain hdr where rx: "ip_rx devs' d' (p @ pad) = Some (if src = 0 then nd_ip d else src, dst, 17, hdr, u)"
    using ip_roundtrip [OF i dev b(1) s b(3) _ rcv] by blast
  have e: "(if src = 0 then nd_ip d else src) = src" by (simp add: src_def d0)
  have c65: "c \<le> 65535" by (simp add: c_def ip_pseudo_checksum_def)
  have f: "f < 65536" "f \<noteq> 0" using c65 by (auto simp: f_def)
  define B where "B = src div 2 ^ 16 + src mod 2 ^ 16 + (dst div 2 ^ 16 + dst mod 2 ^ 16) + 17 + (8 + length payload) +
    us_local_port s + dport + len + ip_sum 0 payload"
  have S: "ip_pseudo_checksum src dst 17 (udp_header (us_local_port s) dport len k @ payload) = 65535 - fold16 (B + k)"
    if "k < 65536" for k
    unfolding B_def by (rule pseudo_sum [OF s b(3,4,5) _ that pl]) (use len pl in simp)
  have "c = 65535 - fold16 B" using S [of 0] by (simp add: c_def)
  then have "fold16 (B + f) = 65535" unfolding f_def by (rule fold16_field)
  then have "ip_pseudo_checksum src dst 17 u = 0" using S [OF f(1)] by (simp add: u_def)
  moreover have "be16_val (u ! 4) (u ! 5) = len" "be16_val (u ! 0) (u ! 1) = us_local_port s" "be16_val (u ! 2) (u ! 3) = dport"
    "be16_val (u ! 6) (u ! 7) = f"
    using be16_roundtrip [of len] be16_roundtrip [OF b(4)] be16_roundtrip [OF b(5)] be16_roundtrip [OF f(1)] len pl
    by (simp_all add: u_def udp_header_def be16_bytes_def)
  moreover have "drop 8 u = payload" by (simp add: u_def udp_header_def be16_bytes_def)
  ultimately have "udp_check src dst u = Some (us_local_port s, dport, payload)"
    using ul len pl by (simp add: udp_check_def)
  then show ?thesis using rx e by auto
qed

theorem udp_send_rx_roundtrip_witness:
  "\<exists>p src hdr u. udp_send [sample_lo, sample_dev] 7 \<lparr>us_local_ip = 0, us_local_port = 5000, us_connected = False, us_remote_ip = 0, us_remote_port = 0\<rparr>
       0x0A000002 53 [1, 2, 3] = Inr (sample_dev, 0x0A000002, p) \<and>
     ip_rx [sample_lo, sample_dev\<lparr>nd_ip := 0x0A000002\<rparr>] (sample_dev\<lparr>nd_ip := 0x0A000002\<rparr>) (p @ []) = Some (src, 0x0A000002, 17, hdr, u) \<and>
     udp_check src 0x0A000002 u = Some (5000, 53, [1, 2, 3])"
proof -
  let ?s = "\<lparr>us_local_ip = 0, us_local_port = 5000, us_connected = False, us_remote_ip = 0, us_remote_port = 0\<rparr> :: usocket"
  have "ip_route [sample_lo, sample_dev] 0x0A000002 = Some (sample_dev, 0x0A000002)"
    by (simp add: ip_route_def ip_local_def sample_lo_def sample_dev_def)
  then obtain p where s: "udp_send [sample_lo, sample_dev] 7 ?s 0x0A000002 53 [1, 2, 3] = Inr (sample_dev, 0x0A000002, p)"
    by (simp add: udp_send_def ip_send_def Let_def udp_header_def be16_bytes_def) (simp add: sample_dev_def)
  have "ip_local [sample_lo, sample_dev\<lparr>nd_ip := 0x0A000002\<rparr>] 0x0A000002" by (simp add: ip_local_def)
  then show ?thesis
    using udp_send_rx_roundtrip [OF s, of "[sample_lo, sample_dev\<lparr>nd_ip := 0x0A000002\<rparr>]" "sample_dev\<lparr>nd_ip := 0x0A000002\<rparr>" "[]"] s
    by (auto simp: sample_dev_def)
qed

end
