(* ===== verification/Hash.thy ===== *)
theory Hash
  imports Ring
begin

text \<open>
  SHA-1, SHA-256, HMAC, PBKDF2 and the two 802.11 key derivations of \<^verbatim>\<open>kernel/lib/crypto.c\<close>. Byte
  arrays are lists of 8-bit words; the contexts of the two hash functions have the same shape and the
  same buffering code, which is written once over the block function. The contract \<open>block_hash\<close> says
  what the buffering needs of a block function; it gives the equality of hashing in pieces and hashing
  the padded message at once, and is interpreted for both functions.
\<close>

subsection \<open>Words and bytes\<close>

definition rol :: "u32 \<Rightarrow> nat \<Rightarrow> u32" where
  "rol v n = (push_bit n v OR drop_bit (32 - n) v)"

definition ror :: "u32 \<Rightarrow> nat \<Rightarrow> u32" where
  "ror v n = (drop_bit n v OR push_bit (32 - n) v)"

definition load_be32 :: "u8 list \<Rightarrow> nat \<Rightarrow> u32" where
  "load_be32 p i = (push_bit 24 (ucast (p ! (4 * i))) OR push_bit 16 (ucast (p ! (4 * i + 1))) OR
                    push_bit 8 (ucast (p ! (4 * i + 2))) OR ucast (p ! (4 * i + 3)))"

text \<open>The digest: byte \<open>i\<close> of the state words, most significant byte first.\<close>

definition digest_byte :: "u32 list \<Rightarrow> nat \<Rightarrow> u8" where
  "digest_byte h i = ucast (drop_bit (24 - 8 * (i mod 4)) (h ! (i div 4)))"

subsection \<open>SHA-1\<close>

definition sha1_w :: "u8 list \<Rightarrow> u32 list" where
  "sha1_w p = fold (\<lambda>i w. w @ [rol (w ! (i - 3) XOR w ! (i - 8) XOR w ! (i - 14) XOR w ! (i - 16)) 1])
     [16 ..< 80] (map (load_be32 p) [0 ..< 16])"

fun sha1_round :: "u32 list \<Rightarrow> nat \<Rightarrow> u32 \<times> u32 \<times> u32 \<times> u32 \<times> u32 \<Rightarrow> u32 \<times> u32 \<times> u32 \<times> u32 \<times> u32" where
  "sha1_round w i (a, b, c, d, e) =
     (let (f, k) = (if i < 20 then ((b AND c) OR (NOT b AND d), 0x5a827999)
                    else if i < 40 then (b XOR c XOR d, 0x6ed9eba1)
                    else if i < 60 then ((b AND c) OR (b AND d) OR (c AND d), 0x8f1bbcdc)
                    else (b XOR c XOR d, 0xca62c1d6));
          t = rol a 5 + f + e + k + w ! i
      in (t, a, rol b 30, c, d))"

definition sha1_block :: "u8 list \<Rightarrow> u32 list \<Rightarrow> u32 list" where
  "sha1_block p h =
     (case fold (sha1_round (sha1_w p)) [0 ..< 80] (h ! 0, h ! 1, h ! 2, h ! 3, h ! 4) of
        (a, b, c, d, e) \<Rightarrow> [h ! 0 + a, h ! 1 + b, h ! 2 + c, h ! 3 + d, h ! 4 + e])"

definition sha1_iv :: "u32 list" where
  "sha1_iv = [0x67452301, 0xefcdab89, 0x98badcfe, 0x10325476, 0xc3d2e1f0]"

subsection \<open>SHA-256\<close>

text \<open>The round constants, row by row as the source lays them out.\<close>

definition sha256_k :: "u32 list" where
  "sha256_k = concat
     [[0x428a2f98, 0x71374491, 0xb5c0fbcf, 0xe9b5dba5, 0x3956c25b, 0x59f111f1, 0x923f82a4, 0xab1c5ed5],
      [0xd807aa98, 0x12835b01, 0x243185be, 0x550c7dc3, 0x72be5d74, 0x80deb1fe, 0x9bdc06a7, 0xc19bf174],
      [0xe49b69c1, 0xefbe4786, 0x0fc19dc6, 0x240ca1cc, 0x2de92c6f, 0x4a7484aa, 0x5cb0a9dc, 0x76f988da],
      [0x983e5152, 0xa831c66d, 0xb00327c8, 0xbf597fc7, 0xc6e00bf3, 0xd5a79147, 0x06ca6351, 0x14292967],
      [0x27b70a85, 0x2e1b2138, 0x4d2c6dfc, 0x53380d13, 0x650a7354, 0x766a0abb, 0x81c2c92e, 0x92722c85],
      [0xa2bfe8a1, 0xa81a664b, 0xc24b8b70, 0xc76c51a3, 0xd192e819, 0xd6990624, 0xf40e3585, 0x106aa070],
      [0x19a4c116, 0x1e376c08, 0x2748774c, 0x34b0bcb5, 0x391c0cb3, 0x4ed8aa4a, 0x5b9cca4f, 0x682e6ff3],
      [0x748f82ee, 0x78a5636f, 0x84c87814, 0x8cc70208, 0x90befffa, 0xa4506ceb, 0xbef9a3f7, 0xc67178f2]]"

definition sha256_w :: "u8 list \<Rightarrow> u32 list" where
  "sha256_w p = fold (\<lambda>i w.
       let s0 = ror (w ! (i - 15)) 7 XOR ror (w ! (i - 15)) 18 XOR drop_bit 3 (w ! (i - 15));
           s1 = ror (w ! (i - 2)) 17 XOR ror (w ! (i - 2)) 19 XOR drop_bit 10 (w ! (i - 2))
       in w @ [w ! (i - 16) + s0 + w ! (i - 7) + s1])
     [16 ..< 64] (map (load_be32 p) [0 ..< 16])"

fun sha256_round :: "u32 list \<Rightarrow> nat \<Rightarrow> u32 list \<Rightarrow> u32 list" where
  "sha256_round w i [a, b, c, d, e, f, g, h] =
     (let S1 = ror e 6 XOR ror e 11 XOR ror e 25; ch = (e AND f) XOR (NOT e AND g);
          t1 = h + S1 + ch + sha256_k ! i + w ! i;
          S0 = ror a 2 XOR ror a 13 XOR ror a 22; maj = (a AND b) XOR (a AND c) XOR (b AND c);
          t2 = S0 + maj
      in [t1 + t2, a, b, c, d + t1, e, f, g])"
| "sha256_round w i xs = xs"

definition sha256_block :: "u8 list \<Rightarrow> u32 list \<Rightarrow> u32 list" where
  "sha256_block p h =
     (let v = fold (sha256_round (sha256_w p)) [0 ..< 64] (map (\<lambda>i. h ! i) [0 ..< 8])
      in map (\<lambda>i. h ! i + v ! i) [0 ..< 8])"

definition sha256_iv :: "u32 list" where
  "sha256_iv = [0x6a09e667, 0xbb67ae85, 0x3c6ef372, 0xa54ff53a, 0x510e527f, 0x9b05688c, 0x1f83d9ab, 0x5be0cd19]"

subsection \<open>Contexts\<close>

record hash_ctx =
  ctx_h :: "u32 list"
  ctx_len :: nat
  ctx_buf :: "u8 list"             \<comment> \<open>64 bytes\<close>

type_synonym block_fn = "u8 list \<Rightarrow> u32 list \<Rightarrow> u32 list"

text \<open>The loop over whole blocks: the state and the bytes that are left.\<close>

function blocks_of :: "block_fn \<Rightarrow> u32 list \<Rightarrow> u8 list \<Rightarrow> u32 list \<times> u8 list" where
  "blocks_of blk h p = (if length p \<ge> 64 then blocks_of blk (blk (take 64 p) h) (drop 64 p) else (h, p))"
  by pat_completeness auto
termination
  by (relation "measure (\<lambda>(blk, h, p). length p)") auto

declare blocks_of.simps [simp del]

definition md_tail :: "block_fn \<Rightarrow> hash_ctx \<Rightarrow> u8 list \<Rightarrow> hash_ctx" where
  "md_tail blk s p = (let (h, p) = blocks_of blk (ctx_h s) p in s\<lparr>ctx_h := h, ctx_buf := memcpy (ctx_buf s) 0 p\<rparr>)"

definition md_update :: "block_fn \<Rightarrow> hash_ctx \<Rightarrow> u8 list \<Rightarrow> hash_ctx" where
  "md_update blk s data =
     (let have = ctx_len s mod 64; s = s\<lparr>ctx_len := add64 (ctx_len s) (length data)\<rparr>
      in if have \<noteq> 0 then
           let n = (if 64 - have < length data then 64 - have else length data);
               s = s\<lparr>ctx_buf := memcpy (ctx_buf s) have (take n data)\<rparr>;
               p = drop n data
           in if have + n < 64 then s
              else md_tail blk (s\<lparr>ctx_h := blk (ctx_buf s) (ctx_h s)\<rparr>) p
         else md_tail blk s data)"

text \<open>The padding array and its length, from the final function.\<close>

definition bits_byte :: "nat \<Rightarrow> nat \<Rightarrow> u8" where
  "bits_byte bits i = of_nat (bits div 2 ^ (56 - 8 * i))"

definition pad_len :: "nat \<Rightarrow> nat" where
  "pad_len len = (if len mod 64 < 56 then 56 else 120) - len mod 64"

definition md_pad :: "nat \<Rightarrow> u8 list" where
  "md_pad len =
     (let bits = wrap64 (len * 8); pad = (replicate 72 0)[0 := 0x80]; n = pad_len len
      in take (n + 8) (fold (\<lambda>i p. p[n + i := bits_byte bits i]) [0 ..< 8] pad))"

definition sha1_init :: "hash_ctx \<Rightarrow> hash_ctx" where
  "sha1_init s = s\<lparr>ctx_h := sha1_iv, ctx_len := 0\<rparr>"

definition sha1_update :: "hash_ctx \<Rightarrow> u8 list \<Rightarrow> hash_ctx" where
  "sha1_update s data = md_update sha1_block s data"

definition sha1_final :: "hash_ctx \<Rightarrow> u8 list" where
  "sha1_final s = (let s = sha1_update s (md_pad (ctx_len s)) in map (digest_byte (ctx_h s)) [0 ..< 20])"

definition sha256_init :: "hash_ctx \<Rightarrow> hash_ctx" where
  "sha256_init s = s\<lparr>ctx_h := sha256_iv, ctx_len := 0\<rparr>"

definition sha256_update :: "hash_ctx \<Rightarrow> u8 list \<Rightarrow> hash_ctx" where
  "sha256_update s data = md_update sha256_block s data"

definition sha256_final :: "hash_ctx \<Rightarrow> u8 list" where
  "sha256_final s = (let s = sha256_update s (md_pad (ctx_len s)) in map (digest_byte (ctx_h s)) [0 ..< 32])"

subsection \<open>HMAC and key derivation\<close>

text \<open>
  An uninitialised context on the stack: its 64 bytes are a parameter. The final functions return the
  digest only: every caller initialises the context again before it uses it.
\<close>

definition stack_ctx :: "u8 list \<Rightarrow> hash_ctx" where
  "stack_ctx junk = \<lparr>ctx_h = [], ctx_len = 0, ctx_buf = junk\<rparr>"

definition hmac_sha1_vec :: "u8 list \<Rightarrow> u8 list \<Rightarrow> u8 list list \<Rightarrow> u8 list" where
  "hmac_sha1_vec junk key data =
     (let k0 = replicate 64 0; s = stack_ctx junk;
          s = (if length key > 64 then sha1_update (sha1_init s) key else s);
          k = (if length key > 64 then memcpy k0 0 (sha1_final s) else memcpy k0 0 key);
          s = sha1_update (sha1_init s) (map (\<lambda>x. x XOR 0x36) k);
          s = fold (\<lambda>d s. sha1_update s d) data s;
          inner = sha1_final s;
          s = sha1_update (sha1_init s) (map (\<lambda>x. x XOR 0x5c) k);
          s = sha1_update s inner
      in sha1_final s)"

definition hmac_sha1 :: "u8 list \<Rightarrow> u8 list \<Rightarrow> u8 list \<Rightarrow> u8 list" where
  "hmac_sha1 junk key data = hmac_sha1_vec junk key [data]"

definition hmac_sha256_vec :: "u8 list \<Rightarrow> u8 list \<Rightarrow> u8 list list \<Rightarrow> u8 list" where
  "hmac_sha256_vec junk key data =
     (let k0 = replicate 64 0; s = stack_ctx junk;
          s = (if length key > 64 then sha256_update (sha256_init s) key else s);
          k = (if length key > 64 then memcpy k0 0 (sha256_final s) else memcpy k0 0 key);
          s = sha256_update (sha256_init s) (map (\<lambda>x. x XOR 0x36) k);
          s = fold (\<lambda>d s. sha256_update s d) data s;
          inner = sha256_final s;
          s = sha256_update (sha256_init s) (map (\<lambda>x. x XOR 0x5c) k);
          s = sha256_update s inner
      in sha256_final s)"

definition hmac_sha256 :: "u8 list \<Rightarrow> u8 list \<Rightarrow> u8 list \<Rightarrow> u8 list" where
  "hmac_sha256 junk key data = hmac_sha256_vec junk key [data]"

text \<open>The inner loop of \<^verbatim>\<open>pbkdf2_sha1\<close>: \<open>n\<close> further iterations from \<open>u\<close>, summed into \<open>t\<close>.\<close>

fun pbkdf2_iter :: "u8 list \<Rightarrow> u8 list \<Rightarrow> nat \<Rightarrow> u8 list \<Rightarrow> u8 list \<Rightarrow> u8 list" where
  "pbkdf2_iter junk pass 0 u t = t"
| "pbkdf2_iter junk pass (Suc n) u t =
     (let u = hmac_sha1 junk pass u in pbkdf2_iter junk pass n u (map2 (XOR) t u))"

definition be32_bytes :: "u32 \<Rightarrow> u8 list" where
  "be32_bytes w = [ucast (drop_bit 24 w), ucast (drop_bit 16 w), ucast (drop_bit 8 w), ucast w]"

function pbkdf2_loop :: "u8 list \<Rightarrow> u8 list \<Rightarrow> u8 list \<Rightarrow> nat \<Rightarrow> u32 \<Rightarrow> nat \<Rightarrow> u8 list" where
  "pbkdf2_loop junk pass salt iters b olen =
     (if olen = 0 then []
      else let u = hmac_sha1_vec junk pass [salt, be32_bytes b];
               t = pbkdf2_iter junk pass (iters - 1) u u;
               n = (if olen < 20 then olen else 20)
           in take n t @ pbkdf2_loop junk pass salt iters (b + 1) (olen - n))"
  by pat_completeness auto
termination
  by (relation "measure (\<lambda>(junk, pass, salt, iters, b, olen). olen)") (auto split: if_splits)

declare pbkdf2_loop.simps [simp del]

text \<open>\<open>pass\<close> is the string without its terminator.\<close>

definition pbkdf2_sha1 :: "u8 list \<Rightarrow> u8 list \<Rightarrow> u8 list \<Rightarrow> nat \<Rightarrow> nat \<Rightarrow> u8 list" where
  "pbkdf2_sha1 junk pass salt iters olen = pbkdf2_loop junk pass salt iters 1 olen"

function prf_loop :: "u8 list \<Rightarrow> u8 list \<Rightarrow> u8 list \<Rightarrow> u8 list \<Rightarrow> u8 \<Rightarrow> nat \<Rightarrow> u8 list" where
  "prf_loop junk key label data ctr olen =
     (if olen = 0 then []
      else let h = hmac_sha1_vec junk key [label, [0], data, [ctr]];
               n = (if olen < 20 then olen else 20)
           in take n h @ prf_loop junk key label data (ctr + 1) (olen - n))"
  by pat_completeness auto
termination
  by (relation "measure (\<lambda>(junk, key, label, data, ctr, olen). olen)") (auto split: if_splits)

declare prf_loop.simps [simp del]

definition prf_sha1 :: "u8 list \<Rightarrow> u8 list \<Rightarrow> u8 list \<Rightarrow> u8 list \<Rightarrow> nat \<Rightarrow> u8 list" where
  "prf_sha1 junk key label data olen = prf_loop junk key label data 0 olen"

definition le16_bytes :: "u16 \<Rightarrow> u8 list" where
  "le16_bytes w = [ucast w, ucast (drop_bit 8 w)]"

function kdf_loop :: "u8 list \<Rightarrow> u8 list \<Rightarrow> u8 list \<Rightarrow> u8 list \<Rightarrow> u8 list \<Rightarrow> u16 \<Rightarrow> nat \<Rightarrow> u8 list" where
  "kdf_loop junk key label ctx bits i left =
     (if left = 0 then []
      else let dig = hmac_sha256_vec junk key [le16_bytes i, label, ctx, bits];
               n = (if left < 32 then left else 32)
           in take n dig @ kdf_loop junk key label ctx bits (i + 1) (left - n))"
  by pat_completeness auto
termination
  by (relation "measure (\<lambda>(junk, key, label, ctx, bits, i, left). left)") (auto split: if_splits)

declare kdf_loop.simps [simp del]

definition kdf_sha256 :: "u8 list \<Rightarrow> u8 list \<Rightarrow> u8 list \<Rightarrow> u8 list \<Rightarrow> nat \<Rightarrow> u8 list" where
  "kdf_sha256 junk key label ctx obits =
     kdf_loop junk key label ctx (le16_bytes (of_nat obits)) 1 ((obits + 7) div 8)"

subsection \<open>The padded message at once\<close>

definition blocks64 :: "u8 list \<Rightarrow> u8 list list" where
  "blocks64 p = map (\<lambda>i. take 64 (drop (64 * i) p)) [0 ..< length p div 64]"

definition sha_padding :: "nat \<Rightarrow> u8 list" where
  "sha_padding l = 0x80 # replicate ((119 - l mod 64) mod 64) 0 @ map (bits_byte (8 * l mod 2 ^ 64)) [0 ..< 8]"

definition hash_spec :: "block_fn \<Rightarrow> u32 list \<Rightarrow> nat \<Rightarrow> u8 list \<Rightarrow> u8 list" where
  "hash_spec blk iv n msg =
     map (digest_byte (fold blk (blocks64 (msg @ sha_padding (length msg))) iv)) [0 ..< n]"

lemma blocks64_append:
  assumes "length p mod 64 = 0"
  shows "blocks64 (p @ q) = blocks64 p @ blocks64 q"
proof -
  obtain k where k: "length p = 64 * k" using assms by (metis mult_div_mod_eq add.right_neutral)
  have "take 64 (drop (64 * i) (p @ q)) = take 64 (drop (64 * i) p)" if "i < k" for i
  proof -
    have "64 * i + 64 \<le> length p" using that k by simp
    then show ?thesis by simp
  qed
  moreover have "take 64 (drop (64 * (k + i)) (p @ q)) = take 64 (drop (64 * i) q)" for i by (simp add: k)
  moreover have "[0 ..< k + length q div 64] = [0 ..< k] @ map (\<lambda>i. k + i) [0 ..< length q div 64]"
    by (rule nth_equalityI) (auto simp: nth_append)
  ultimately show ?thesis by (simp add: blocks64_def k del: drop_append take_append)
qed

lemma blocks64_cons: "64 \<le> length p \<Longrightarrow> blocks64 p = take 64 p # blocks64 (drop 64 p)"
  using blocks64_append [of "take 64 p" "drop 64 p"] by (simp add: blocks64_def min_def)

lemma blocks64_short: "length p < 64 \<Longrightarrow> blocks64 p = []"
  by (simp add: blocks64_def)

lemma blocks_of_fold: "blocks_of blk h p = (fold blk (blocks64 p) h, drop (64 * (length p div 64)) p)"
proof (induction blk h p rule: blocks_of.induct)
  case (1 blk h p)
  show ?case
  proof (cases "64 \<le> length p")
    case True
    then have "length p div 64 = Suc ((length p - 64) div 64)" by (simp add: le_div_geq)
    then show ?thesis using True 1 blocks_of.simps [of blk h p] by (simp add: blocks64_cons add.commute)
  next
    case False
    then show ?thesis using blocks_of.simps [of blk h p] by (simp add: blocks64_short)
  qed
qed

text \<open>A context after the message \<open>msg\<close>: whole blocks are absorbed, the rest is in the buffer.\<close>

definition md_inv :: "block_fn \<Rightarrow> u32 list \<Rightarrow> hash_ctx \<Rightarrow> u8 list \<Rightarrow> bool" where
  "md_inv blk iv s msg \<longleftrightarrow>
     ctx_len s = length msg mod 2 ^ 64 \<and> length (ctx_buf s) = 64 \<and> ctx_h s = fold blk (blocks64 msg) iv \<and>
     take (length msg mod 64) (ctx_buf s) = drop (64 * (length msg div 64)) msg"

lemma wrap_mod_64: "x mod 2 ^ 64 mod 64 = (x :: nat) mod 64"
  by (rule mod_mod_cancel) simp

lemma split_blocks:
  fixes msg :: "u8 list"
  shows "msg = take (64 * (length msg div 64)) msg @ drop (64 * (length msg div 64)) msg"
    and "length (take (64 * (length msg div 64)) msg) mod 64 = 0"
    and "length (drop (64 * (length msg div 64)) msg) = length msg mod 64"
  by (simp_all add: min_absorb2 minus_mult_div_eq_mod)

lemma blocks64_split:
  "blocks64 (msg @ q) = blocks64 (take (64 * (length msg div 64)) msg) @ blocks64 (drop (64 * (length msg div 64)) msg @ q)"
  using blocks64_append [OF split_blocks(2), of msg "drop (64 * (length msg div 64)) msg @ q"]
  by (metis append.assoc append_take_drop_id)

lemma blocks64_whole: "blocks64 msg = blocks64 (take (64 * (length msg div 64)) msg)"
  using blocks64_split [of msg "[]"] split_blocks(3) [of msg] by (simp add: blocks64_short)

lemma md_tail_inv:
  assumes "length (ctx_buf s) = 64" and "ctx_h s = fold blk (blocks64 msg) iv" and "length msg mod 64 = 0"
    and "ctx_len s = length (msg @ p) mod 2 ^ 64"
  shows "md_inv blk iv (md_tail blk s p) (msg @ p)"
proof -
  obtain k where k: "length msg = 64 * k" using assms(3) by (metis mult_div_mod_eq add.right_neutral)
  have "length (drop (64 * (length p div 64)) p) = length p mod 64" by (rule split_blocks(3))
  then have "take (length p mod 64) (memcpy (ctx_buf s) 0 (drop (64 * (length p div 64)) p)) = drop (64 * (length p div 64)) p"
    by (simp add: memcpy_def)
  moreover have "length (memcpy (ctx_buf s) 0 (drop (64 * (length p div 64)) p)) = 64"
    using assms(1) split_blocks(3) [of p] by (subst memcpy_length) simp_all
  moreover have "drop (64 * (length (msg @ p) div 64)) (msg @ p) = drop (64 * (length p div 64)) p"
    by (simp add: k)
  ultimately show ?thesis
    using assms by (simp add: md_inv_def md_tail_def blocks_of_fold blocks64_append k)
qed

lemma md_update_inv:
  assumes inv: "md_inv blk iv s msg"
  shows "md_inv blk iv (md_update blk s data) (msg @ data)"
proof -
  define m where "m = length msg mod 64"
  define k where "k = length msg div 64"
  have len: "length msg = 64 * k + m" "m < 64" by (simp_all add: m_def k_def)
  have lm: "length msg - 64 * k = m" "64 * k \<le> length msg" by (simp_all add: len)
  have i: "ctx_len s = length msg mod 2 ^ 64" "length (ctx_buf s) = 64" "ctx_h s = fold blk (blocks64 msg) iv"
    "take m (ctx_buf s) = drop (64 * k) msg" using inv by (simp_all add: md_inv_def m_def k_def)
  have m: "ctx_len s mod 64 = m" unfolding i(1) wrap_mod_64 m_def ..
  have l: "add64 (ctx_len s) (length data) = length (msg @ data) mod 2 ^ 64"
    by (simp add: i(1) add64_def wrap64_def mod_add_left_eq)
  define s1 where "s1 = s\<lparr>ctx_len := add64 (ctx_len s) (length data)\<rparr>"
  show ?thesis
  proof (cases "m = 0")
    case True
    then have "md_update blk s data = md_tail blk s1 data" by (simp add: md_update_def m s1_def)
    moreover have "md_inv blk iv (md_tail blk s1 data) (msg @ data)"
      by (rule md_tail_inv) (use i(2,3) l True in \<open>simp_all add: s1_def m_def\<close>)
    ultimately show ?thesis by simp
  next
    case False
    define n where "n = (if 64 - m < length data then 64 - m else length data)"
    define s2 where "s2 = s1\<lparr>ctx_buf := memcpy (ctx_buf s) m (take n data)\<rparr>"
    have n: "n \<le> length data" "m + n \<le> 64" using len(2) by (auto simp: n_def)
    have b2: "length (ctx_buf s2) = 64" "take (m + n) (ctx_buf s2) = drop (64 * k) msg @ take n data"
      using i(2,4) n lm by (simp_all add: s2_def memcpy_def min_absorb2)
    have r: "md_update blk s data =
        (if m + n < 64 then s2 else md_tail blk (s2\<lparr>ctx_h := blk (ctx_buf s2) (ctx_h s2)\<rparr>) (drop n data))"
      using False by (simp add: md_update_def Let_def m s1_def s2_def n_def)
    show ?thesis
    proof (cases "m + n < 64")
      case True
      then have nd: "n = length data" by (auto simp: n_def split: if_splits)
      have d: "length (msg @ data) = 64 * k + (m + n)" using len nd by simp
      then have "length (msg @ data) mod 64 = m + n" "length (msg @ data) div 64 = k" using True by (simp_all del: length_append)
      moreover have "blocks64 (msg @ data) = blocks64 msg"
        using blocks64_split [of msg data] blocks64_whole [of msg] blocks64_short [of "drop (64 * k) msg @ data"] lm nd True
        by (simp add: k_def)
      ultimately show ?thesis
        using r True b2 i l nd len by (simp add: md_inv_def s2_def s1_def)
    next
      case False
      then have mn: "m + n = 64" using n(2) by simp
      define msg1 where "msg1 = msg @ take n data"
      have l1: "length msg1 = 64 * Suc k" using len n(1) mn by (simp add: msg1_def)
      have "drop (64 * k) msg @ take n data = ctx_buf s2" using b2 mn by simp
      then have "blocks64 msg1 = blocks64 msg @ [ctx_buf s2]"
        using blocks64_split [of msg "take n data"] blocks64_whole [of msg] blocks64_cons [of "ctx_buf s2"] b2(1)
        by (simp add: k_def msg1_def blocks64_short)
      then have h: "blk (ctx_buf s2) (ctx_h s2) = fold blk (blocks64 msg1) iv" by (simp add: s2_def s1_def i(3))
      have "md_inv blk iv (md_tail blk (s2\<lparr>ctx_h := blk (ctx_buf s2) (ctx_h s2)\<rparr>) (drop n data)) (msg1 @ drop n data)"
        using b2 h l1 l n by (intro md_tail_inv) (simp_all add: s2_def s1_def msg1_def)
      then show ?thesis using r False by (simp add: msg1_def)
    qed
  qed
qed

lemma fold_update_nth:
  "j < length p \<Longrightarrow> fold (\<lambda>i p. p[n + i := f i]) [0 ..< k] p ! j = (if n \<le> j \<and> j < n + k then f (j - n) else p ! j)"
  "length (fold (\<lambda>i p. p[n + i := f i]) [0 ..< k] p) = length p"
proof -
  show l: "length (fold (\<lambda>i p. p[n + i := f i]) [0 ..< k] p) = length p" for k
    by (induction k) simp_all
  assume "j < length p"
  then show "fold (\<lambda>i p. p[n + i := f i]) [0 ..< k] p ! j = (if n \<le> j \<and> j < n + k then f (j - n) else p ! j)"
  proof (induction k)
    case (Suc k)
    then show ?case by (cases "n + k = j") (auto simp: l)
  qed auto
qed

lemma pad_aux:
  fixes m :: nat
  assumes "m < 64"
  shows "(if m < 56 then 56 else 120) - m = Suc ((119 - m) mod 64)"
proof (cases "m < 56")
  case True
  then have "119 - m = 55 - m + 64" by simp
  then have "(119 - m) mod 64 = 55 - m" by (simp only: mod_add_self2) simp
  then show ?thesis using True Suc_diff_le [of m 55] by simp
next
  case False
  then have "(119 - m) mod 64 = 119 - m" using assms by (intro mod_less) simp
  then show ?thesis using False assms Suc_diff_le [of m 119] by simp
qed

lemma pad_len_eq: "pad_len l = Suc ((119 - l mod 64) mod 64)"
  unfolding pad_len_def by (rule pad_aux) simp

lemma md_pad_eq: "md_pad (l mod 2 ^ 64) = sha_padding l"
proof -
  define n where "n = pad_len l"
  have n: "0 < n" "n \<le> 64" by (auto simp: n_def pad_len_def)
  have e: "pad_len (l mod 2 ^ 64) = n" unfolding n_def pad_len_def wrap_mod_64 ..
  have b: "wrap64 (l mod 2 ^ 64 * 8) = 8 * l mod 2 ^ 64"
    unfolding wrap64_def by (simp only: mod_mult_left_eq mult.commute [of _ 8] mod_mult_right_eq)
  let ?p = "fold (\<lambda>i p. p[n + i := bits_byte (8 * l mod 2 ^ 64) i]) [0 ..< 8] ((replicate 72 0)[0 := 0x80])"
  have lp: "length ?p = 72" by (simp only: fold_update_nth(2)) simp
  have "take (n + 8) ?p = sha_padding l"
  proof (rule nth_equalityI)
    show "length (take (n + 8) ?p) = length (sha_padding l)"
      using n lp pad_len_eq [of l] by (simp add: sha_padding_def n_def min_def)
    fix j assume "j < length (take (n + 8) ?p)"
    then have j: "j < n + 8" "j < 72" using lp by simp_all
    have r: "replicate ((119 - l mod 64) mod 64) 0 = replicate (n - 1) (0 :: u8)" using pad_len_eq [of l] by (simp add: n_def)
    have "take (n + 8) ?p ! j = (if n \<le> j then bits_byte (8 * l mod 2 ^ 64) (j - n) else ((replicate 72 0)[0 := 0x80]) ! j)"
      using j fold_update_nth(1) [of j "(replicate 72 0)[0 := 0x80]" n "bits_byte (8 * l mod 2 ^ 64)" 8] by simp
    also have "\<dots> = sha_padding l ! j"
      unfolding sha_padding_def r using j n by (cases j) (auto simp: nth_append simp del: upt_rec_numeral)
    finally show "take (n + 8) ?p ! j = sha_padding l ! j" .
  qed
  then show ?thesis unfolding md_pad_def Let_def e b .
qed

subsection \<open>The contract of a block function\<close>

locale block_hash =
  fixes blk :: block_fn and iv :: "u32 list" and words :: nat
  assumes iv_length: "length iv = words"
    and blk_length: "length h = words \<Longrightarrow> length (blk p h) = words"
begin

lemma state_length: "length (fold blk bs iv) = words"
proof -
  have "length h = words \<Longrightarrow> length (fold blk bs h) = words" for h
    by (induction bs arbitrary: h) (auto simp: blk_length)
  then show ?thesis using iv_length by simp
qed

lemma stream_inv:
  "md_inv blk iv s msg \<Longrightarrow> md_inv blk iv (fold (\<lambda>d s. md_update blk s d) chunks s) (msg @ concat chunks)"
proof (induction chunks arbitrary: s msg)
  case (Cons d ds)
  from Cons.IH [OF md_update_inv [OF Cons.prems, of d]] show ?case by simp
qed simp

text \<open>The state after the padding is that of the padded message; the digest reads words it has.\<close>

lemma stream_state:
  assumes "md_inv blk iv s msg"
  shows "ctx_h (md_update blk s (md_pad (ctx_len s))) = fold blk (blocks64 (msg @ sha_padding (length msg))) iv"
    and "length (ctx_h (md_update blk s (md_pad (ctx_len s)))) = words"
proof -
  have "md_pad (ctx_len s) = sha_padding (length msg)" using assms md_pad_eq by (simp add: md_inv_def)
  with md_update_inv [OF assms, of "md_pad (ctx_len s)"]
  show e: "ctx_h (md_update blk s (md_pad (ctx_len s))) = fold blk (blocks64 (msg @ sha_padding (length msg))) iv"
    by (simp add: md_inv_def)
  show "length (ctx_h (md_update blk s (md_pad (ctx_len s)))) = words" unfolding e by (rule state_length)
qed

lemma start_inv: "length (ctx_buf s) = 64 \<Longrightarrow> md_inv blk iv (s\<lparr>ctx_h := iv, ctx_len := 0\<rparr>) []"
  by (simp add: md_inv_def blocks64_short)

end

lemma sha1_block_length: "length (sha1_block p h) = 5"
  by (simp add: sha1_block_def split: prod.split)

interpretation sha1h: block_hash sha1_block sha1_iv 5
  by unfold_locales (simp_all add: sha1_iv_def sha1_block_length)

interpretation sha256h: block_hash sha256_block sha256_iv 8
  by unfold_locales (simp_all add: sha256_iv_def sha256_block_def Let_def)

definition sha1_spec :: "u8 list \<Rightarrow> u8 list" where
  "sha1_spec msg = hash_spec sha1_block sha1_iv 20 msg"

definition sha256_spec :: "u8 list \<Rightarrow> u8 list" where
  "sha256_spec msg = hash_spec sha256_block sha256_iv 32 msg"

definition sha1_inv :: "hash_ctx \<Rightarrow> u8 list \<Rightarrow> bool" where
  "sha1_inv s msg = md_inv sha1_block sha1_iv s msg"

definition sha256_inv :: "hash_ctx \<Rightarrow> u8 list \<Rightarrow> bool" where
  "sha256_inv s msg = md_inv sha256_block sha256_iv s msg"

lemma sha1_steps:
  "length (ctx_buf s) = 64 \<Longrightarrow> sha1_inv (sha1_init s) []"
  "sha1_inv s msg \<Longrightarrow> sha1_inv (sha1_update s d) (msg @ d)"
  "sha1_inv s msg \<Longrightarrow> sha1_inv (fold (\<lambda>d s. sha1_update s d) ds s) (msg @ concat ds)"
  "sha1_inv s msg \<Longrightarrow> sha1_final s = sha1_spec msg"
  "sha1_inv s msg \<Longrightarrow> length (ctx_buf s) = 64"
  unfolding sha1_inv_def sha1_init_def sha1_update_def sha1_final_def sha1_spec_def hash_spec_def Let_def
  by (simp_all add: sha1h.start_inv md_update_inv sha1h.stream_inv sha1h.stream_state) (simp add: md_inv_def)

lemma sha256_steps:
  "length (ctx_buf s) = 64 \<Longrightarrow> sha256_inv (sha256_init s) []"
  "sha256_inv s msg \<Longrightarrow> sha256_inv (sha256_update s d) (msg @ d)"
  "sha256_inv s msg \<Longrightarrow> sha256_inv (fold (\<lambda>d s. sha256_update s d) ds s) (msg @ concat ds)"
  "sha256_inv s msg \<Longrightarrow> sha256_final s = sha256_spec msg"
  "sha256_inv s msg \<Longrightarrow> length (ctx_buf s) = 64"
  unfolding sha256_inv_def sha256_init_def sha256_update_def sha256_final_def sha256_spec_def hash_spec_def Let_def
  by (simp_all add: sha256h.start_inv md_update_inv sha256h.stream_inv sha256h.stream_state) (simp add: md_inv_def)

lemma spec_length [simp]: "length (sha1_spec m) = 20" "length (sha256_spec m) = 32"
  by (simp_all add: sha1_spec_def sha256_spec_def hash_spec_def)

subsection \<open>HMAC at once\<close>

definition hmac_key :: "(u8 list \<Rightarrow> u8 list) \<Rightarrow> u8 list \<Rightarrow> u8 list" where
  "hmac_key H key = (let k = (if length key > 64 then H key else key) in k @ replicate (64 - length k) 0)"

definition hmac_spec :: "(u8 list \<Rightarrow> u8 list) \<Rightarrow> u8 list \<Rightarrow> u8 list \<Rightarrow> u8 list" where
  "hmac_spec H key msg =
     H (map (\<lambda>x. x XOR 0x5c) (hmac_key H key) @ H (map (\<lambda>x. x XOR 0x36) (hmac_key H key) @ msg))"

lemma hmac_sha1_eq:
  assumes "length junk = 64"
  shows "hmac_sha1_vec junk key data = hmac_spec sha1_spec key (concat data)"
proof -
  define s0 where "s0 = (if length key > 64 then sha1_update (sha1_init (stack_ctx junk)) key else stack_ctx junk)"
  have j: "length (ctx_buf (stack_ctx junk)) = 64" using assms by (simp add: stack_ctx_def)
  have u: "sha1_inv (sha1_update (sha1_init (stack_ctx junk)) key) key"
    using sha1_steps(2) [OF sha1_steps(1) [OF j], of key] by simp
  then have b0: "length (ctx_buf s0) = 64" using j sha1_steps(5) by (simp add: s0_def)
  define k where "k = (if length key > 64 then memcpy (replicate 64 0) 0 (sha1_final s0) else memcpy (replicate 64 0) 0 key)"
  have k: "k = hmac_key sha1_spec key"
    using sha1_steps(4) [OF u] by (simp add: k_def hmac_key_def Let_def memcpy_def s0_def)
  define s1 where "s1 = fold (\<lambda>d s. sha1_update s d) data (sha1_update (sha1_init s0) (map (\<lambda>x. x XOR 0x36) k))"
  have i1: "sha1_inv s1 (map (\<lambda>x. x XOR 0x36) k @ concat data)"
    unfolding s1_def using sha1_steps(3) [OF sha1_steps(2) [OF sha1_steps(1) [OF b0]]] by simp
  have i2: "sha1_inv (sha1_update (sha1_update (sha1_init s1) (map (\<lambda>x. x XOR 0x5c) k)) (sha1_final s1))
      (map (\<lambda>x. x XOR 0x5c) k @ sha1_final s1)"
    using sha1_steps(2) [OF sha1_steps(2) [OF sha1_steps(1) [OF sha1_steps(5) [OF i1]]]] by simp
  have "hmac_sha1_vec junk key data =
      sha1_final (sha1_update (sha1_update (sha1_init s1) (map (\<lambda>x. x XOR 0x5c) k)) (sha1_final s1))"
    unfolding hmac_sha1_vec_def Let_def s1_def k_def s0_def by simp
  also have "\<dots> = sha1_spec (map (\<lambda>x. x XOR 0x5c) k @ sha1_final s1)" by (rule sha1_steps(4) [OF i2])
  finally show ?thesis using sha1_steps(4) [OF i1] by (simp add: hmac_spec_def k)
qed

lemma hmac_sha256_eq:
  assumes "length junk = 64"
  shows "hmac_sha256_vec junk key data = hmac_spec sha256_spec key (concat data)"
proof -
  define s0 where "s0 = (if length key > 64 then sha256_update (sha256_init (stack_ctx junk)) key else stack_ctx junk)"
  have j: "length (ctx_buf (stack_ctx junk)) = 64" using assms by (simp add: stack_ctx_def)
  have u: "sha256_inv (sha256_update (sha256_init (stack_ctx junk)) key) key"
    using sha256_steps(2) [OF sha256_steps(1) [OF j], of key] by simp
  then have b0: "length (ctx_buf s0) = 64" using j sha256_steps(5) by (simp add: s0_def)
  define k where "k = (if length key > 64 then memcpy (replicate 64 0) 0 (sha256_final s0) else memcpy (replicate 64 0) 0 key)"
  have k: "k = hmac_key sha256_spec key"
    using sha256_steps(4) [OF u] by (simp add: k_def hmac_key_def Let_def memcpy_def s0_def)
  define s1 where "s1 = fold (\<lambda>d s. sha256_update s d) data (sha256_update (sha256_init s0) (map (\<lambda>x. x XOR 0x36) k))"
  have i1: "sha256_inv s1 (map (\<lambda>x. x XOR 0x36) k @ concat data)"
    unfolding s1_def using sha256_steps(3) [OF sha256_steps(2) [OF sha256_steps(1) [OF b0]]] by simp
  have i2: "sha256_inv (sha256_update (sha256_update (sha256_init s1) (map (\<lambda>x. x XOR 0x5c) k)) (sha256_final s1))
      (map (\<lambda>x. x XOR 0x5c) k @ sha256_final s1)"
    using sha256_steps(2) [OF sha256_steps(2) [OF sha256_steps(1) [OF sha256_steps(5) [OF i1]]]] by simp
  have "hmac_sha256_vec junk key data =
      sha256_final (sha256_update (sha256_update (sha256_init s1) (map (\<lambda>x. x XOR 0x5c) k)) (sha256_final s1))"
    unfolding hmac_sha256_vec_def Let_def s1_def k_def s0_def by simp
  also have "\<dots> = sha256_spec (map (\<lambda>x. x XOR 0x5c) k @ sha256_final s1)" by (rule sha256_steps(4) [OF i2])
  finally show ?thesis using sha256_steps(4) [OF i1] by (simp add: hmac_spec_def k)
qed

lemma hmac_length [simp]: "length (hmac_spec sha1_spec key m) = 20" "length (hmac_spec sha256_spec key m) = 32"
  by (simp_all add: hmac_spec_def)

subsection \<open>Expanding a key\<close>

text \<open>Counter mode: the first \<open>n\<close> bytes of the concatenation of the blocks \<open>f 0, f 1, \<dots>\<close> of \<open>w\<close> bytes.\<close>

definition expand :: "(nat \<Rightarrow> u8 list) \<Rightarrow> nat \<Rightarrow> nat \<Rightarrow> u8 list" where
  "expand f w n = take n (concat (map f [0 ..< (n + (w - 1)) div w]))"

lemma expand_0: "0 < w \<Longrightarrow> expand f w 0 = []"
  by (simp add: expand_def)

lemma expand_step:
  assumes "0 < n" and "0 < w" and "length (f 0) = w"
  shows "expand f w n = take (min n w) (f 0) @ expand (\<lambda>i. f (Suc i)) w (n - min n w)"
proof -
  have c: "(n + (w - 1)) div w = Suc ((n - min n w + (w - 1)) div w)"
  proof (cases "n < w")
    case True
    then have "(n + (w - 1)) div w = 1" using assms by (intro div_nat_eqI) auto
    moreover have "(n - min n w + (w - 1)) div w = 0" using True assms by simp
    ultimately show ?thesis by simp
  next
    case False
    then have "n + (w - 1) = w + (n - min n w + (w - 1))" by simp
    then show ?thesis using assms(2) by (simp only: div_add_self1)
  qed
  have m: "map f [0 ..< Suc k] = f 0 # map (\<lambda>i. f (Suc i)) [0 ..< k]" for k
    by (rule map_upt_Suc)
  show ?thesis unfolding expand_def c m using assms by (cases "n \<le> w") (simp_all add: min_def)
qed

lemma pbkdf2_iter_fold:
  "pbkdf2_iter junk pass n u t = foldl (map2 (XOR)) t (map (\<lambda>j. (hmac_sha1 junk pass ^^ Suc j) u) [0 ..< n])"
proof (induction n arbitrary: u t)
  case (Suc n)
  have "map (\<lambda>j. (hmac_sha1 junk pass ^^ Suc j) u) [0 ..< Suc n] =
      hmac_sha1 junk pass u # map (\<lambda>j. (hmac_sha1 junk pass ^^ Suc j) (hmac_sha1 junk pass u)) [0 ..< n]"
    by (simp only: map_upt_Suc) (simp add: funpow_swap1)
  then show ?case using Suc by (simp del: upt_Suc add: Let_def)
qed simp

text \<open>Block \<open>i\<close> of PBKDF2: the exclusive or of the iterates of HMAC from the salt and the block number.\<close>

definition pbkdf2_block :: "u8 list \<Rightarrow> u8 list \<Rightarrow> nat \<Rightarrow> u32 \<Rightarrow> u8 list" where
  "pbkdf2_block pass salt iters b =
     (let u = hmac_spec sha1_spec pass (salt @ be32_bytes b)
      in foldl (map2 (XOR)) u (map (\<lambda>j. (hmac_spec sha1_spec pass ^^ Suc j) u) [0 ..< iters - 1]))"

lemma foldl_xor_length: "\<forall>x \<in> set xs. length x = length t \<Longrightarrow> length (foldl (map2 (XOR)) (t :: u8 list) xs) = length t"
  by (induction xs arbitrary: t) auto

lemma pbkdf2_block_length: "length (pbkdf2_block pass salt iters b) = 20"
  unfolding pbkdf2_block_def Let_def by (subst foldl_xor_length) auto

lemma pbkdf2_loop_eq:
  "length junk = 64 \<Longrightarrow>
   pbkdf2_loop junk pass salt iters b n = expand (\<lambda>i. pbkdf2_block pass salt iters (b + of_nat i)) 20 n"
proof (induction junk pass salt iters b n rule: pbkdf2_loop.induct)
  case (1 junk pass salt iters b n)
  have h: "hmac_sha1 junk pass = hmac_spec sha1_spec pass"
    using hmac_sha1_eq [OF 1(2)] by (simp add: hmac_sha1_def fun_eq_iff)
  define t where "t = pbkdf2_block pass salt iters b"
  have t: "pbkdf2_iter junk pass (iters - 1) (hmac_sha1_vec junk pass [salt, be32_bytes b]) (hmac_sha1_vec junk pass [salt, be32_bytes b]) = t"
    unfolding t_def pbkdf2_block_def Let_def pbkdf2_iter_fold h hmac_sha1_eq [OF 1(2)] by simp
  show ?case
  proof (cases "n = 0")
    case False
    let ?m = "if n < 20 then n else 20"
    have "pbkdf2_loop junk pass salt iters b n = take ?m t @ pbkdf2_loop junk pass salt iters (b + 1) (n - ?m)"
      using False t by (subst pbkdf2_loop.simps) (simp add: Let_def)
    also have "pbkdf2_loop junk pass salt iters (b + 1) (n - ?m) =
        expand (\<lambda>i. pbkdf2_block pass salt iters (b + 1 + of_nat i)) 20 (n - ?m)"
      by (rule 1(1) [OF False refl refl refl 1(2)])
    finally show ?thesis
      using False expand_step [of n 20 "\<lambda>i. pbkdf2_block pass salt iters (b + of_nat i)"]
      by (simp add: t_def pbkdf2_block_length min_def algebra_simps)
  qed (simp add: pbkdf2_loop.simps expand_0)
qed

lemma prf_loop_eq:
  "length junk = 64 \<Longrightarrow>
   prf_loop junk key label data c n = expand (\<lambda>i. hmac_spec sha1_spec key (label @ [0] @ data @ [c + of_nat i])) 20 n"
proof (induction junk key label data c n rule: prf_loop.induct)
  case (1 junk key label data c n)
  show ?case
  proof (cases "n = 0")
    case False
    let ?m = "if n < 20 then n else 20"
    have "prf_loop junk key label data c n =
        take ?m (hmac_spec sha1_spec key (label @ [0] @ data @ [c])) @ prf_loop junk key label data (c + 1) (n - ?m)"
      using False hmac_sha1_eq [OF 1(2)] by (subst prf_loop.simps) (simp add: Let_def)
    also have "prf_loop junk key label data (c + 1) (n - ?m) =
        expand (\<lambda>i. hmac_spec sha1_spec key (label @ [0] @ data @ [c + 1 + of_nat i])) 20 (n - ?m)"
      by (rule 1(1) [OF False refl refl 1(2)])
    finally show ?thesis
      using False expand_step [of n 20 "\<lambda>i. hmac_spec sha1_spec key (label @ [0] @ data @ [c + of_nat i])"]
      by (simp add: min_def algebra_simps)
  qed (simp add: prf_loop.simps expand_0)
qed

lemma kdf_loop_eq:
  "length junk = 64 \<Longrightarrow>
   kdf_loop junk key label ctx bits c n =
     expand (\<lambda>i. hmac_spec sha256_spec key (le16_bytes (c + of_nat i) @ label @ ctx @ bits)) 32 n"
proof (induction junk key label ctx bits c n rule: kdf_loop.induct)
  case (1 junk key label ctx bits c n)
  show ?case
  proof (cases "n = 0")
    case False
    let ?m = "if n < 32 then n else 32"
    have "kdf_loop junk key label ctx bits c n =
        take ?m (hmac_spec sha256_spec key (le16_bytes c @ label @ ctx @ bits)) @ kdf_loop junk key label ctx bits (c + 1) (n - ?m)"
      using False hmac_sha256_eq [OF 1(2)] by (subst kdf_loop.simps) (simp add: Let_def)
    also have "kdf_loop junk key label ctx bits (c + 1) (n - ?m) =
        expand (\<lambda>i. hmac_spec sha256_spec key (le16_bytes (c + 1 + of_nat i) @ label @ ctx @ bits)) 32 (n - ?m)"
      by (rule 1(1) [OF False refl refl 1(2)])
    finally show ?thesis
      using False expand_step [of n 32 "\<lambda>i. hmac_spec sha256_spec key (le16_bytes (c + of_nat i) @ label @ ctx @ bits)"]
      by (simp add: min_def algebra_simps)
  qed (simp add: kdf_loop.simps expand_0)
qed

subsection \<open>Properties\<close>

text \<open>
  C17: hashing a message in pieces of any lengths, with either hash function and whatever the context's
  buffer held before, gives the digest of the padded message: the fold of the block function over the
  64-byte blocks of the message followed by its padding.
\<close>

theorem hash_in_pieces:
  assumes "length (ctx_buf s) = 64"
  shows "sha1_final (fold (\<lambda>d s. sha1_update s d) pieces (sha1_init s)) = hash_spec sha1_block sha1_iv 20 (concat pieces) \<and>
         sha256_final (fold (\<lambda>d s. sha256_update s d) pieces (sha256_init s)) = hash_spec sha256_block sha256_iv 32 (concat pieces)"
  using sha1_steps(4) [OF sha1_steps(3) [OF sha1_steps(1) [OF assms]]]
    sha256_steps(4) [OF sha256_steps(3) [OF sha256_steps(1) [OF assms]]]
  by (simp add: sha1_spec_def sha256_spec_def)

theorem hash_in_pieces_witness:
  "sha1_final (sha1_update (sha1_update (sha1_init (stack_ctx (replicate 64 7))) [0x61]) [0x62, 0x63]) =
   sha1_final (sha1_update (sha1_init (stack_ctx (replicate 64 9))) [0x61, 0x62, 0x63])"
  using hash_in_pieces [of "stack_ctx (replicate 64 7)" "[[0x61], [0x62, 0x63]]"]
    hash_in_pieces [of "stack_ctx (replicate 64 9)" "[[0x61, 0x62, 0x63]]"]
  by (simp add: stack_ctx_def)

text \<open>
  C31: the HMAC functions compute HMAC: the hash of the outer pad and the hash of the inner pad and the
  message, the pads from the key extended to 64 bytes and hashed first when it is longer; the message is
  the concatenation of the pieces.
\<close>

theorem hmac_is_hmac:
  assumes "length junk = 64"
  shows "hmac_sha1_vec junk key data = hmac_spec (hash_spec sha1_block sha1_iv 20) key (concat data) \<and>
         hmac_sha256_vec junk key data = hmac_spec (hash_spec sha256_block sha256_iv 32) key (concat data)"
proof -
  have "sha1_spec = hash_spec sha1_block sha1_iv 20" "sha256_spec = hash_spec sha256_block sha256_iv 32"
    by (simp_all add: fun_eq_iff sha1_spec_def sha256_spec_def)
  then show ?thesis using hmac_sha1_eq [OF assms] hmac_sha256_eq [OF assms] by simp
qed

theorem hmac_is_hmac_witness:
  "hmac_sha1_vec (replicate 64 0) [1, 2] [[3], [4]] = hmac_spec (hash_spec sha1_block sha1_iv 20) [1, 2] [3, 4]"
  using hmac_is_hmac [of "replicate 64 0" "[1, 2]" "[[3], [4]]"] by simp

text \<open>
  C32: the three key derivations fill their output with exactly the requested number of bytes, the
  prefix of the concatenated blocks for the counters from 1 (PBKDF2 and the 802.11 KDF) or 0 (the PRF),
  which wrap at their widths.
\<close>

theorem key_expansion:
  assumes "length junk = 64"
  shows "pbkdf2_sha1 junk pass salt iters n = expand (\<lambda>i. pbkdf2_block pass salt iters (1 + of_nat i)) 20 n \<and>
    prf_sha1 junk key label data n = expand (\<lambda>i. hmac_spec sha1_spec key (label @ [0] @ data @ [of_nat i])) 20 n \<and>
    kdf_sha256 junk key label ctx bits =
      expand (\<lambda>i. hmac_spec sha256_spec key (le16_bytes (1 + of_nat i) @ label @ ctx @ le16_bytes (of_nat bits))) 32 ((bits + 7) div 8)"
  using pbkdf2_loop_eq [OF assms] prf_loop_eq [OF assms] kdf_loop_eq [OF assms]
  by (simp add: pbkdf2_sha1_def prf_sha1_def kdf_sha256_def)

theorem key_expansion_witness:
  "pbkdf2_sha1 (replicate 64 0) [1] [2] 4096 32 = expand (\<lambda>i. pbkdf2_block [1] [2] 4096 (1 + of_nat i)) 20 32"
  using key_expansion [of "replicate 64 0" "[1]" "[2]" 4096 32] by simp

end
