(* ===== verification/Aes_Tables.thy ===== *)
theory Aes_Tables
  imports Ring
begin

text \<open>
  The field GF(2^8) and the substitution tables of AES-128 in \<^verbatim>\<open>kernel/lib/crypto.c\<close>. The tables are the
  file's static arrays; \<^verbatim>\<open>tables\<close> builds them by walking the powers of 3, a do-while loop whose end is
  proved (it returns to 1 after 255 rounds), and the inverse table inverts the substitution.
\<close>

subsection \<open>GF(2^8)\<close>

definition xt :: "u8 \<Rightarrow> u8" where
  "xt a = push_bit 1 a XOR (if a AND 0x80 \<noteq> 0 then 0x1b else 0)"

text \<open>The loop of \<^verbatim>\<open>gmul\<close>, one pass per bit of \<open>b\<close>.\<close>

function gmul_loop :: "u8 \<Rightarrow> u8 \<Rightarrow> u8 \<Rightarrow> u8" where
  "gmul_loop a b r =
     (if b = 0 then r
      else gmul_loop (xt a) (drop_bit 1 b) (if b AND 1 \<noteq> 0 then r XOR a else r))"
  by pat_completeness auto
termination
proof (relation "measure (\<lambda>(a, b, r). unat b)")
  fix a b r :: u8 assume "b \<noteq> 0"
  then have "unat (drop_bit 1 b) < unat b"
    by (simp add: unat_drop_bit_eq drop_bit_nat_def unat_gt_0)
  then show "((xt a, drop_bit 1 b, if b AND 1 \<noteq> 0 then r XOR a else r), (a, b, r)) \<in> measure (\<lambda>(a, b, r). unat b)"
    by simp
qed simp

declare gmul_loop.simps [simp del]

definition gmul :: "u8 \<Rightarrow> u8 \<Rightarrow> u8" where
  "gmul a b = gmul_loop a b 0"

subsection \<open>The tables\<close>

record aes_tables =
  sbox :: "u8 list"
  isbox :: "u8 list"

definition static_tables :: aes_tables where
  "static_tables = \<lparr>sbox = replicate 256 0, isbox = replicate 256 0\<rparr>"

definition rot8 :: "nat \<Rightarrow> u8 \<Rightarrow> u8" where
  "rot8 n q = (push_bit n q OR drop_bit (8 - n) q)"

definition next_p :: "u8 \<Rightarrow> u8" where
  "next_p p = p XOR xt p"

definition next_q :: "u8 \<Rightarrow> u8" where
  "next_q q =
     (let q = q XOR push_bit 1 q; q = q XOR push_bit 2 q; q = q XOR push_bit 4 q
      in if q AND 0x80 \<noteq> 0 then q XOR 0x09 else q)"

definition affine_q :: "u8 \<Rightarrow> u8" where
  "affine_q q = (q XOR rot8 1 q XOR rot8 2 q XOR rot8 3 q XOR rot8 4 q) XOR 0x63"

text \<open>The do-while loop: \<open>None\<close> when it has not ended after \<open>fuel\<close> rounds.\<close>

fun sbox_loop :: "nat \<Rightarrow> u8 \<Rightarrow> u8 \<Rightarrow> u8 list \<Rightarrow> u8 list option" where
  "sbox_loop 0 p q sb = None"
| "sbox_loop (Suc fuel) p q sb =
     (let p = next_p p; q = next_q q; sb = sb[unat p := affine_q q]
      in if p \<noteq> 1 then sbox_loop fuel p q sb else Some sb)"

definition isbox_fill :: "u8 list \<Rightarrow> u8 list \<Rightarrow> u8 list" where
  "isbox_fill sb isb = fold (\<lambda>i isb. isb[unat (sb ! i) := of_nat i]) [0 ..< 256] isb"

definition tables :: "aes_tables \<Rightarrow> aes_tables option" where
  "tables g =
     (if sbox g ! 0 \<noteq> 0 then Some g
      else case sbox_loop 255 1 1 (sbox g) of
             None \<Rightarrow> None
           | Some sb \<Rightarrow> let sb = sb[0 := 0x63] in Some \<lparr>sbox = sb, isbox = isbox_fill sb (isbox g)\<rparr>)"

definition sub_byte :: "aes_tables \<Rightarrow> u8 \<Rightarrow> u8" where
  "sub_byte g b = sbox g ! unat b"

definition inv_sub_byte :: "aes_tables \<Rightarrow> u8 \<Rightarrow> u8" where
  "inv_sub_byte g b = isbox g ! unat b"

subsection \<open>The orbit of 1 under a map that returns to 1\<close>

text \<open>The first return to 1 after exactly \<open>Suc n\<close> steps, by running the map.\<close>

fun returns_after :: "(u8 \<Rightarrow> u8) \<Rightarrow> nat \<Rightarrow> u8 \<Rightarrow> bool" where
  "returns_after f 0 x = (f x = 1)"
| "returns_after f (Suc n) x = (f x \<noteq> 1 \<and> returns_after f n (f x))"

lemma returns_after_spec:
  "returns_after f n x \<Longrightarrow> (f ^^ Suc n) x = 1 \<and> (\<forall>i. 0 < i \<and> i < Suc n \<longrightarrow> (f ^^ i) x \<noteq> 1)"
proof (induction n arbitrary: x)
  case (Suc n)
  have IH: "(f ^^ Suc n) (f x) = 1" "\<And>i. 0 < i \<Longrightarrow> i < Suc n \<Longrightarrow> (f ^^ i) (f x) \<noteq> 1"
    using Suc by auto
  have "(f ^^ i) x \<noteq> 1" if "0 < i" "i < Suc (Suc n)" for i
  proof (cases i)
    case (Suc j)
    then show ?thesis using IH(2) [of j] Suc.prems that by (cases j) (simp_all add: funpow_swap1)
  qed (use that in simp)
  then show ?case using IH(1) by (simp add: funpow_swap1)
qed simp

lemma orbit_inj:
  assumes "returns_after f n 1"
  shows "inj_on (\<lambda>i. (f ^^ i) 1) {1 .. Suc n}"
proof -
  note r = returns_after_spec [OF assms]
  have ne: "(f ^^ i) 1 \<noteq> (f ^^ j) 1" if "0 < i" "i < j" "j \<le> Suc n" for i j
  proof
    assume "(f ^^ i) 1 = (f ^^ j) 1"
    then have "(f ^^ (Suc n - j)) ((f ^^ i) 1) = (f ^^ (Suc n - j)) ((f ^^ j) 1)" by simp
    then have "(f ^^ (Suc n - j + i)) 1 = (f ^^ (Suc n - j + j)) 1" by (simp add: funpow_add)
    then have "(f ^^ (Suc n - j + i)) 1 = 1" using r that by simp
    then show False using r that by auto
  qed
  show ?thesis
  proof (rule inj_onI)
    fix i j assume "i \<in> {1 .. Suc n}" "j \<in> {1 .. Suc n}" "(f ^^ i) 1 = (f ^^ j) 1"
    then show "i = j" using ne [of i j] ne [of j i] by (cases i j rule: linorder_cases) auto
  qed
qed

lemma orbit_nonzero:
  assumes "returns_after f n 1" and "f 0 = 0" and "i \<le> Suc n"
  shows "(f ^^ i) 1 \<noteq> 0"
proof
  have z: "(f ^^ k) 0 = 0" for k using assms(2) by (induction k) simp_all
  assume "(f ^^ i) 1 = 0"
  then have "(f ^^ (Suc n - i)) ((f ^^ i) 1) = 0" using z by simp
  then have "(f ^^ (Suc n - i + i)) 1 = 0" by (simp add: funpow_add)
  then show False using returns_after_spec [OF assms(1)] assms(3) by simp
qed

lemma card_u8: "card (UNIV :: u8 set) = 256"
  by (simp add: card_word)

lemma orbit_all:
  assumes "returns_after f 254 1" and "f 0 = 0" and "b \<noteq> (0 :: u8)"
  shows "\<exists>i \<in> {1 .. 255}. b = (f ^^ i) 1"
proof -
  let ?S = "(\<lambda>i. (f ^^ i) 1) ` {1 .. 255}"
  have "card ?S = 255" using card_image [OF orbit_inj [OF assms(1)]] by simp
  moreover have "?S \<subseteq> UNIV - {0}" using orbit_nonzero [OF assms(1,2)] by auto
  moreover have "card (UNIV - {0 :: u8}) = 255" by (simp add: card_u8 card_Diff_singleton)
  ultimately have "?S = UNIV - {0}" by (intro card_subset_eq) auto
  then have "b \<in> ?S" using assms(3) by blast
  then show ?thesis by blast
qed

text \<open>The two maps on the eight bits of a byte, where running them is cheap.\<close>

type_synonym bits8 = "bool \<times> bool \<times> bool \<times> bool \<times> bool \<times> bool \<times> bool \<times> bool"

fun byte_of :: "bits8 \<Rightarrow> u8" where
  "byte_of (a, b, c, d, e, f, g, h) =
     (if a then 128 else 0) + (if b then 64 else 0) + (if c then 32 else 0) + (if d then 16 else 0) +
     (if e then 8 else 0) + (if f then 4 else 0) + (if g then 2 else 0) + (if h then 1 else 0)"

fun bits_p :: "bits8 \<Rightarrow> bits8" where
  "bits_p (a, b, c, d, e, f, g, h) =
     (a \<noteq> b, b \<noteq> c, c \<noteq> d, d \<noteq> (e \<noteq> a), e \<noteq> (f \<noteq> a), f \<noteq> g, g \<noteq> (h \<noteq> a), h \<noteq> a)"

fun bits_q1 :: "bits8 \<Rightarrow> bits8" where
  "bits_q1 (a, b, c, d, e, f, g, h) = (a \<noteq> b, b \<noteq> c, c \<noteq> d, d \<noteq> e, e \<noteq> f, f \<noteq> g, g \<noteq> h, h)"

fun bits_q2 :: "bits8 \<Rightarrow> bits8" where
  "bits_q2 (a, b, c, d, e, f, g, h) = (a \<noteq> c, b \<noteq> d, c \<noteq> e, d \<noteq> f, e \<noteq> g, f \<noteq> h, g, h)"

fun bits_q4 :: "bits8 \<Rightarrow> bits8" where
  "bits_q4 (a, b, c, d, e, f, g, h) =
     (a \<noteq> e, b \<noteq> f, c \<noteq> g, d \<noteq> h, e \<noteq> (a \<noteq> e), f, g, h \<noteq> (a \<noteq> e))"

fun bits_return :: "(bits8 \<Rightarrow> bits8) \<Rightarrow> nat \<Rightarrow> bits8 \<Rightarrow> bool" where
  "bits_return f 0 t = (f t = (False, False, False, False, False, False, False, True))"
| "bits_return f (Suc n) t =
     (let t = f t in t \<noteq> (False, False, False, False, False, False, False, True) \<and> bits_return f n t)"

lemma byte_p: "next_p (byte_of t) = byte_of (bits_p t)"
proof (cases t rule: byte_of.cases)
  case (1 a b c d e f g h)
  then show ?thesis
    by (cases a; cases b; cases c; cases d; cases e; cases f; cases g; cases h; simp add: next_p_def xt_def)
qed

lemma byte_q: "next_q (byte_of t) = byte_of (bits_q4 (bits_q2 (bits_q1 t)))"
proof (cases t rule: byte_of.cases)
  case (1 a b c d e f g h)
  then show ?thesis
    by (cases a; cases b; cases c; cases d; cases e; cases f; cases g; cases h; simp add: next_q_def Let_def)
qed

lemma byte_1: "byte_of t = 1 \<longleftrightarrow> t = (False, False, False, False, False, False, False, True)"
proof (cases t rule: byte_of.cases)
  case (1 a b c d e f g h)
  then show ?thesis
    by (cases a; cases b; cases c; cases d; cases e; cases f; cases g; cases h; simp)
qed

lemma bits_return_bytes:
  assumes "\<And>t. f (byte_of t) = byte_of (g t)" and "bits_return g n t"
  shows "returns_after f n (byte_of t)"
  using assms(2) by (induction n arbitrary: t) (simp_all add: assms(1) byte_1 Let_def)

lemma p_orbit: "returns_after next_p 254 1"
proof -
  have "bits_return bits_p 254 (False, False, False, False, False, False, False, True)" by code_simp
  from bits_return_bytes [OF byte_p this] show ?thesis by simp
qed

lemma q_orbit: "returns_after next_q 254 1"
proof -
  have "bits_return (\<lambda>t. bits_q4 (bits_q2 (bits_q1 t))) 254 (False, False, False, False, False, False, False, True)"
    by code_simp
  from bits_return_bytes [OF byte_q this] show ?thesis by simp
qed

lemma next_zero [simp]: "next_p 0 = 0" "next_q 0 = 0"
  by (simp_all add: next_p_def next_q_def xt_def)

subsection \<open>The substitution is invertible\<close>

definition rot_from :: "nat \<Rightarrow> nat \<Rightarrow> nat" where
  "rot_from n i = (if n \<le> i then i - n else i + 8 - n)"

lemma bit_rot8:
  assumes "0 < n" and "n < 8" and "i < 8"
  shows "bit (rot8 n q) i = bit q (rot_from n i)"
  using assms bit_imp_le_length [of q "8 - n + i"]
  by (auto simp: rot_from_def rot8_def bit_or_iff bit_push_bit_iff bit_drop_bit_eq add.commute)

lemma affine_inj:
  assumes "affine_q x = affine_q y"
  shows "x = y"
proof (rule bit_word_eqI)
  define d where "d i = (bit x i \<noteq> bit y i)" for i
  have e: "\<not> (d i \<noteq> (d (rot_from 1 i) \<noteq> (d (rot_from 2 i) \<noteq> (d (rot_from 3 i) \<noteq> d (rot_from 4 i)))))"
    if "i < 8" for i
  proof -
    have b: "bit (affine_q q) i = (((((bit q i \<noteq> bit q (rot_from 1 i)) \<noteq> bit q (rot_from 2 i)) \<noteq> bit q (rot_from 3 i)) \<noteq>
        bit q (rot_from 4 i)) \<noteq> bit (0x63 :: u8) i)" for q
      unfolding affine_q_def bit_xor_iff using that by (simp add: bit_rot8) argo
    show ?thesis using arg_cong [OF assms, of "\<lambda>w. bit w i"] b [of x] b [of y] unfolding d_def by argo
  qed
  note e = e [unfolded rot_from_def]
  have "\<not> d 0 \<and> \<not> d (Suc 0) \<and> \<not> d 2 \<and> \<not> d 3 \<and> \<not> d 4 \<and> \<not> d 5 \<and> \<not> d 6 \<and> \<not> d 7"
    using e [of 0, simplified] e [of "Suc 0", simplified] e [of 2, simplified] e [of 3, simplified]
      e [of 4, simplified] e [of 5, simplified] e [of 6, simplified] e [of 7, simplified] by argo
  moreover fix n assume "n < LENGTH(8)"
  then have "n \<in> {0, Suc 0, 2, 3, 4, 5, 6, 7}" by auto
  ultimately show "bit x n = bit y n" unfolding d_def by auto
qed

lemma affine_0 [simp]: "affine_q 0 = 0x63"
  by (simp add: affine_q_def rot8_def)

lemma sbox_loop_run:
  assumes "returns_after next_p n p"
  shows "sbox_loop (Suc n) p q sb =
    Some (fold (\<lambda>i sb. sb[unat ((next_p ^^ i) p) := affine_q ((next_q ^^ i) q)]) [1 ..< Suc (Suc n)] sb)"
  using assms
proof (induction n arbitrary: p q sb)
  case (Suc n)
  have m: "[1 ..< Suc (Suc (Suc n))] = 1 # map Suc [1 ..< Suc (Suc n)]"
    by (simp add: map_Suc_upt upt_conv_Cons del: upt_Suc)
  show ?case unfolding m using Suc
    by (simp add: Let_def fold_map comp_def funpow_swap1 del: upt_Suc sbox_loop.simps(2)) (simp add: Let_def del: upt_Suc)
qed (simp add: Let_def)

lemma fold_put_nth:
  assumes "inj_on k (set is)" and "distinct is" and "i \<in> set is" and "\<forall>i \<in> set is. k i < length xs"
  shows "fold (\<lambda>i xs. xs[k i := v i]) is xs ! k i = v i"
  using assms
proof (induction "is" arbitrary: xs rule: rev_induct)
  case (snoc j js)
  have l: "length (fold (\<lambda>i xs. xs[k i := v i]) js xs) = length xs" for xs
    by (induction js arbitrary: xs) simp_all
  show ?case
  proof (cases "i = j")
    case False
    then have "i \<in> set js" "k i \<noteq> k j" using snoc.prems by (auto simp: inj_on_def)
    then show ?thesis using snoc by (simp add: inj_on_def)
  qed (use snoc.prems l in simp)
qed simp

lemma fold_put_length [simp]: "length (fold (\<lambda>i xs. xs[k i := v i]) is xs) = length xs"
  by (induction "is" arbitrary: xs) simp_all

lemma fold_put_other:
  "\<forall>i \<in> set is. k i \<noteq> j \<Longrightarrow> fold (\<lambda>i xs. xs[k i := v i]) is xs ! j = xs ! j"
  by (induction "is" arbitrary: xs) simp_all

text \<open>What the static tables are once they are built.\<close>

definition tables_built :: "aes_tables \<Rightarrow> bool" where
  "tables_built g \<longleftrightarrow> sbox g ! 0 = 0x63 \<and> length (sbox g) = 256 \<and> length (isbox g) = 256 \<and>
     (\<forall>b. inv_sub_byte g (sub_byte g b) = b)"

lemma u8_less: "unat (b :: u8) < 256"
  using unsigned_less [where ?'a = nat and w = b] by simp

lemma isbox_fill_inverse:
  assumes "inj (\<lambda>b :: u8. sb ! unat b)" and "length isb = 256"
  shows "isbox_fill sb isb ! unat (sb ! unat b) = b"
proof -
  have "inj_on (\<lambda>i. unat (sb ! i)) (set [0 ..< 256])"
  proof (rule inj_onI)
    fix i j assume ij: "i \<in> set [0 ..< 256]" "j \<in> set [0 ..< 256]" "unat (sb ! i) = unat (sb ! j)"
    then have u: "unat (of_nat i :: u8) = i" "unat (of_nat j :: u8) = j" by (simp_all add: unat_of_nat)
    have "sb ! unat (of_nat i :: u8) = sb ! unat (of_nat j :: u8)" using ij(3) by (simp only: u word_unat_eq_iff)
    then have "(of_nat i :: u8) = of_nat j" by (rule injD [OF assms(1)])
    then show "i = j" using u by metis
  qed
  from fold_put_nth [OF this, of "unat b" isb of_nat] show ?thesis
    using assms(2) u8_less by (simp add: isbox_fill_def del: upt_Suc)
qed

lemma sbox_loop_values:
  "\<exists>sb. sbox_loop 255 1 1 (replicate 256 0) = Some sb \<and> length sb = 256 \<and>
     (\<forall>i \<in> {1 .. 255}. sb ! unat ((next_p ^^ i) 1) = affine_q ((next_q ^^ i) 1))"
proof -
  define k where "k i = unat ((next_p ^^ i) 1)" for i
  define v where "v i = affine_q ((next_q ^^ i) 1)" for i
  define sb where "sb = fold (\<lambda>i sb. sb[k i := v i]) [1 ..< 256] (replicate 256 0)"
  have run: "sbox_loop 255 1 1 (replicate 256 0) = Some sb"
    using sbox_loop_run [OF p_orbit, of 1 "replicate 256 0"] by (simp add: sb_def k_def v_def del: upt_Suc)
  have S: "set [1 ..< 256] = {1 .. Suc 254}" by auto
  have kinj: "inj_on k (set [1 ..< 256])"
    using orbit_inj [OF p_orbit] unfolding S k_def inj_on_def by (simp add: word_unat_eq_iff)
  have "sb ! k i = v i" if "i \<in> {1 .. 255}" for i
    unfolding sb_def using fold_put_nth [OF kinj, of i "replicate 256 0" v] that u8_less by (auto simp: k_def)
  moreover have "length sb = 256" by (simp add: sb_def)
  ultimately show ?thesis using run by (auto simp: k_def v_def)
qed

lemma sbox_inj:
  assumes at: "\<forall>i \<in> {1 .. 255}. sb ! unat ((next_p ^^ i) 1) = affine_q ((next_q ^^ i) 1)" and "length sb = 256"
  shows "inj (\<lambda>b :: u8. sb[0 := 0x63] ! unat b)"
proof (rule injI)
  let ?S = "\<lambda>b :: u8. sb[0 := 0x63] ! unat b"
  have out: "\<exists>i \<in> {1 .. 255}. b = (next_p ^^ i) 1 \<and> ?S b = affine_q ((next_q ^^ i) 1)" if b: "b \<noteq> 0" for b
  proof -
    obtain i where i: "i \<in> {1 .. 255}" "b = (next_p ^^ i) 1" using orbit_all [OF p_orbit _ b] by auto
    have "0 < unat b" using b by (simp add: unat_gt_0)
    then have "?S b = sb ! unat ((next_p ^^ i) 1)" by (simp add: i(2) [symmetric])
    then show ?thesis using at i by auto
  qed
  have zero: "?S 0 = affine_q 0" using assms(2) by simp
  have nz: "affine_q ((next_q ^^ i) 1) \<noteq> affine_q 0" if "i \<in> {1 .. 255}" for i
    using affine_inj [of "(next_q ^^ i) 1" 0] orbit_nonzero [OF q_orbit, of i] that by auto
  fix b c assume e: "?S b = ?S c"
  show "b = c"
  proof (cases "b = 0 \<or> c = 0")
    case True
    then show ?thesis using e zero nz out [of b] out [of c] by (cases "b = 0"; cases "c = 0") fastforce+
  next
    case False
    then obtain i j where "i \<in> {1 .. 255}" "b = (next_p ^^ i) 1" "?S b = affine_q ((next_q ^^ i) 1)"
        "j \<in> {1 .. 255}" "c = (next_p ^^ j) 1" "?S c = affine_q ((next_q ^^ j) 1)"
      using out [of b] out [of c] by blast
    then show ?thesis using inj_onD [OF orbit_inj [OF q_orbit] affine_inj, of i j] e by simp
  qed
qed

lemma tables_static: "\<exists>g. tables static_tables = Some g \<and> tables_built g"
proof -
  obtain sb where sb: "sbox_loop 255 1 1 (replicate 256 0) = Some sb" "length sb = 256"
      "\<forall>i \<in> {1 .. 255}. sb ! unat ((next_p ^^ i) 1) = affine_q ((next_q ^^ i) 1)"
    using sbox_loop_values by blast
  define g where "g = \<lparr>sbox = sb[0 := 0x63], isbox = isbox_fill (sb[0 := 0x63]) (replicate 256 0)\<rparr>"
  have "inv_sub_byte g (sub_byte g b) = b" for b
    using isbox_fill_inverse [OF sbox_inj [OF sb(3,2)], of "replicate 256 0" b]
    by (simp add: g_def inv_sub_byte_def sub_byte_def)
  moreover have "tables static_tables = Some g"
    using sb(1) by (simp add: tables_def static_tables_def g_def Let_def)
  ultimately show ?thesis using sb(2) by (simp add: tables_built_def g_def isbox_fill_def)
qed

text \<open>The tables stay built: a later call changes nothing.\<close>

lemma tables_again: "tables_built g \<Longrightarrow> tables g = Some g"
  by (simp add: tables_def tables_built_def)

lemma sbox_loop_None:
  "returns_after next_p m p \<Longrightarrow> (sbox_loop n p q sb = None) = (n \<le> m)"
proof (induction m arbitrary: n p q sb)
  case 0
  then show ?case by (cases n) (simp_all add: Let_def)
next
  case (Suc m)
  then show ?case by (cases n) (simp_all add: Let_def)
qed

subsection \<open>Properties\<close>

text \<open>
  C20: the do-while loop that fills the substitution table ends: it runs exactly 255 rounds, whatever the
  table held, and the tables it leaves are those the cipher needs (the inverse table undoes the
  substitution of every byte).
\<close>

theorem sbox_loop_ends:
  "(sbox_loop n 1 1 sb = None) = (n < 255) \<and> (\<exists>g. tables static_tables = Some g \<and> tables_built g)"
  using sbox_loop_None [OF p_orbit, of n 1 sb] tables_static by auto

end
