(* ===== verification/Aes.thy ===== *)
theory Aes
  imports Aes_Tables
begin

text \<open>
  AES-128, the RFC 3394 key unwrap and AES-CMAC of \<^verbatim>\<open>kernel/lib/crypto.c\<close>, over the tables of
  \<^verbatim>\<open>Aes_Tables\<close>. Decryption inverts encryption for every key schedule, unwrapping inverts the
  RFC's wrapping and reports anything else, and the CMAC is the RFC's over the message's blocks.
\<close>

subsection \<open>Key schedule\<close>

text \<open>One pass of the expansion at offset \<open>i\<close>, on the bytes written so far and the round constant.\<close>

definition key_step :: "aes_tables \<Rightarrow> nat \<Rightarrow> u8 list \<times> u8 \<Rightarrow> u8 list \<times> u8" where
  "key_step g i ws =
     (let (w, rc) = ws; t = [w ! (i - 4), w ! (i - 3), w ! (i - 2), w ! (i - 1)];
          (t, rc) = (if i mod 16 = 0
                     then ([sub_byte g (t ! 1) XOR rc, sub_byte g (t ! 2), sub_byte g (t ! 3), sub_byte g (t ! 0)], xt rc)
                     else (t, rc))
      in (w @ map (\<lambda>j. w ! (i - 16 + j) XOR t ! j) [0 ..< 4], rc))"

text \<open>\<open>None\<close> would be a table loop that does not end; the tables are built on the first call.\<close>

definition aes128_key :: "aes_tables \<Rightarrow> u8 list \<Rightarrow> (aes_tables \<times> u8 list) option" where
  "aes128_key g key =
     (case tables g of
        None \<Rightarrow> None
      | Some g \<Rightarrow> Some (g, fst (fold (key_step g) (map (\<lambda>k. 16 + 4 * k) [0 ..< 40]) (take 16 key, 1))))"

subsection \<open>Rounds\<close>

definition add_key :: "u8 list \<Rightarrow> u8 list \<Rightarrow> u8 list" where
  "add_key s k = map (\<lambda>i. s ! i XOR k ! i) [0 ..< 16]"

definition shift_idx :: "nat \<Rightarrow> nat" where
  "shift_idx i = (i + 4 * (i mod 4)) mod 16"

definition sub_shift :: "aes_tables \<Rightarrow> u8 list \<Rightarrow> u8 list" where
  "sub_shift g s = map (\<lambda>i. sub_byte g (s ! shift_idx i)) [0 ..< 16]"

definition mix_col :: "u8 list \<Rightarrow> nat \<Rightarrow> u8 list" where
  "mix_col t c =
     (let a0 = t ! (4 * c); a1 = t ! (4 * c + 1); a2 = t ! (4 * c + 2); a3 = t ! (4 * c + 3);
          al = a0 XOR a1 XOR a2 XOR a3
      in [a0 XOR (al XOR xt (a0 XOR a1)), a1 XOR (al XOR xt (a1 XOR a2)),
          a2 XOR (al XOR xt (a2 XOR a3)), a3 XOR (al XOR xt (a3 XOR a0))])"

definition mix_columns :: "u8 list \<Rightarrow> u8 list" where
  "mix_columns t = concat (map (mix_col t) [0 ..< 4])"

definition enc_round :: "aes_tables \<Rightarrow> u8 list \<Rightarrow> nat \<Rightarrow> u8 list \<Rightarrow> u8 list" where
  "enc_round g rk r s =
     (let t = sub_shift g s; t = (if r < 10 then mix_columns t else t) in add_key t (drop (16 * r) rk))"

definition aes128_encrypt :: "aes_tables \<Rightarrow> u8 list \<Rightarrow> u8 list \<Rightarrow> u8 list" where
  "aes128_encrypt g rk inp = fold (enc_round g rk) [1 ..< 11] (add_key inp rk)"

definition inv_mix_col :: "u8 list \<Rightarrow> nat \<Rightarrow> u8 list" where
  "inv_mix_col s c =
     (let a0 = s ! (4 * c); a1 = s ! (4 * c + 1); a2 = s ! (4 * c + 2); a3 = s ! (4 * c + 3)
      in [gmul a0 14 XOR gmul a1 11 XOR gmul a2 13 XOR gmul a3 9,
          gmul a0 9 XOR gmul a1 14 XOR gmul a2 11 XOR gmul a3 13,
          gmul a0 13 XOR gmul a1 9 XOR gmul a2 14 XOR gmul a3 11,
          gmul a0 11 XOR gmul a1 13 XOR gmul a2 9 XOR gmul a3 14])"

definition inv_mix_columns :: "u8 list \<Rightarrow> u8 list" where
  "inv_mix_columns s = concat (map (inv_mix_col s) [0 ..< 4])"

text \<open>The loop writes every place of the stack array \<open>t\<close>; it starts as the input.\<close>

definition inv_sub_shift :: "aes_tables \<Rightarrow> u8 list \<Rightarrow> u8 list" where
  "inv_sub_shift g s = fold (\<lambda>i t. t[shift_idx i := inv_sub_byte g (s ! i)]) [0 ..< 16] s"

definition dec_round :: "aes_tables \<Rightarrow> u8 list \<Rightarrow> nat \<Rightarrow> u8 list \<Rightarrow> u8 list" where
  "dec_round g rk r s =
     (let s = add_key s (drop (16 * r) rk); s = (if r < 10 then inv_mix_columns s else s) in inv_sub_shift g s)"

definition aes128_decrypt :: "aes_tables \<Rightarrow> u8 list \<Rightarrow> u8 list \<Rightarrow> u8 list" where
  "aes128_decrypt g rk inp = add_key (fold (dec_round g rk) (rev [1 ..< 11]) inp) rk"

subsection \<open>Key unwrap and CMAC\<close>

definition xor_t :: "nat \<Rightarrow> u8 list \<Rightarrow> u8 list" where
  "xor_t t b = fold (\<lambda>k b. b[7 - k := b ! (7 - k) XOR of_nat (t div 2 ^ (8 * k))]) [0 ..< 8] b"

definition unwrap_step :: "aes_tables \<Rightarrow> u8 list \<Rightarrow> nat \<Rightarrow> nat \<times> nat \<Rightarrow> u8 list \<times> u8 list \<Rightarrow> u8 list \<times> u8 list" where
  "unwrap_step g rk n ji Ap =
     (let (j, i) = ji; (A, plain) = Ap; t = wrap64 (n * j + i);
          b = xor_t t A @ take 8 (drop (8 * (i - 1)) plain);
          b = aes128_decrypt g rk b
      in (take 8 b, memcpy plain (8 * (i - 1)) (drop 8 b)))"

definition wrap_order :: "nat \<Rightarrow> (nat \<times> nat) list" where
  "wrap_order n = concat (map (\<lambda>j. map (Pair j) [1 ..< Suc n]) [0 ..< 6])"

text \<open>The result: the return value and what was written to \<open>plain\<close>.\<close>

definition aes_unwrap :: "aes_tables \<Rightarrow> u8 list \<Rightarrow> nat \<Rightarrow> u8 list \<Rightarrow> (aes_tables \<times> int \<times> u8 list) option" where
  "aes_unwrap g kek n cipher =
     (case aes128_key g kek of
        None \<Rightarrow> None
      | Some (g, rk) \<Rightarrow>
          let (A, plain) = fold (unwrap_step g rk n) (rev (wrap_order n)) (take 8 cipher, take (8 * n) (drop 8 cipher))
          in Some (g, if \<exists>k < 8. A ! k \<noteq> 0xa6 then - 1 else 0, plain))"

definition cmac_dbl :: "u8 list \<Rightarrow> u8 list" where
  "cmac_dbl x =
     (let carry = drop_bit 7 (x ! 0);
          y = map (\<lambda>i. push_bit 1 (x ! i) OR drop_bit 7 (x ! (i + 1))) [0 ..< 15] @ [push_bit 1 (x ! 15)]
      in if carry \<noteq> 0 then y[15 := y ! 15 XOR 0x87] else y)"

definition cmac_chain :: "aes_tables \<Rightarrow> u8 list \<Rightarrow> u8 list \<Rightarrow> nat \<Rightarrow> u8 list \<Rightarrow> u8 list" where
  "cmac_chain g rk p full x = fold (\<lambda>i x. aes128_encrypt g rk (add_key x (drop (16 * i) p))) [0 ..< full] x"

definition aes_cmac :: "aes_tables \<Rightarrow> u8 list \<Rightarrow> u8 list \<Rightarrow> (aes_tables \<times> u8 list) option" where
  "aes_cmac g key data =
     (case aes128_key g key of
        None \<Rightarrow> None
      | Some (g, rk) \<Rightarrow>
          let k1 = cmac_dbl (aes128_encrypt g rk (replicate 16 0));
              len = length data;
              full = (if len \<ge> 16 then (len - 1) div 16 else 0);
              x = cmac_chain g rk data full (replicate 16 0);
              remn = len - full * 16;
              blk = memcpy (replicate 16 0) 0 (take remn (drop (full * 16) data));
              blk = (if remn = 16 then add_key blk k1 else add_key (blk[remn := 0x80]) (cmac_dbl k1))
          in Some (g, aes128_encrypt g rk (add_key x blk)))"


subsection \<open>A round and its inverse\<close>

lemma and_0x80_xor: "(x XOR y) AND 0x80 \<noteq> (0 :: u8) \<longleftrightarrow> (x AND 0x80 \<noteq> 0) \<noteq> (y AND 0x80 \<noteq> 0)"
proof -
  have b: "w AND 0x80 \<noteq> 0 \<longleftrightarrow> bit w 7" for w :: u8
    using and_exp_eq_0_iff_not_bit [of w 7] by simp
  show ?thesis by (simp add: b bit_xor_iff)
qed

lemma xt_xor: "xt (x XOR y) = xt x XOR xt y"
  unfolding xt_def and_0x80_xor by (simp add: xor.assoc xor.left_commute)

lemma gmul_9: "gmul a 9 = a XOR xt (xt (xt a))"
  and gmul_11: "gmul a 11 = a XOR xt a XOR xt (xt (xt a))"
  and gmul_13: "gmul a 13 = a XOR xt (xt a) XOR xt (xt (xt a))"
  and gmul_14: "gmul a 14 = xt a XOR xt (xt a) XOR xt (xt (xt a))"
  by (simp_all add: gmul_def gmul_loop.simps xor.assoc)

lemma xor_cancel: "x XOR (x XOR y) = (y :: u8)"
  by (simp add: xor.assoc [symmetric])

lemmas gf_simps = gmul_9 gmul_11 gmul_13 gmul_14 xt_xor xor.assoc xor.commute xor.left_commute xor_cancel

lemma list16:
  assumes "length s = 16"
  obtains a b c d e f g h i j k l m n p q where "s = [a, b, c, d, e, f, g, h, i, j, k, l, m, n, p, q]"
proof -
  have "s = map (\<lambda>i. s ! i) [0 ..< 16]" using assms by (metis map_nth)
  then show ?thesis using that by (simp add: upt_rec)
qed

lemma inv_mix_col_mix_col:
  "mix_col [a0, a1, a2, a3] 0 = [b0, b1, b2, b3] \<Longrightarrow> inv_mix_col [b0, b1, b2, b3] 0 = [a0, a1, a2, a3]"
  by (auto simp: mix_col_def inv_mix_col_def Let_def gf_simps)

lemma mix_col_length [simp]: "length (mix_col t c) = 4"
  by (simp add: mix_col_def Let_def)

lemma list4:
  assumes "length s = 4"
  obtains a b c d where "s = [a, b, c, d]"
proof -
  have "s = map (\<lambda>i. s ! i) [0 ..< 4]" using assms by (metis map_nth)
  then show ?thesis using that by (simp add: upt_rec)
qed

lemma columns:
  "mix_columns [a, b, c, d, e, f, g, h, i, j, k, l, m, n, p, q] =
     mix_col [a, b, c, d] 0 @ mix_col [e, f, g, h] 0 @ mix_col [i, j, k, l] 0 @ mix_col [m, n, p, q] 0"
  "inv_mix_columns [a, b, c, d, e, f, g, h, i, j, k, l, m, n, p, q] =
     inv_mix_col [a, b, c, d] 0 @ inv_mix_col [e, f, g, h] 0 @ inv_mix_col [i, j, k, l] 0 @ inv_mix_col [m, n, p, q] 0"
  by (simp_all add: mix_columns_def inv_mix_columns_def upt_rec mix_col_def inv_mix_col_def Let_def)

lemma inv_mix_columns_mix_columns:
  assumes "length t = 16"
  shows "inv_mix_columns (mix_columns t) = t"
proof -
  obtain a b c d e f g h i j k l m n p q where t: "t = [a, b, c, d, e, f, g, h, i, j, k, l, m, n, p, q]"
    using list16 [OF assms] .
  obtain a' b' c' d' where 1: "mix_col [a, b, c, d] 0 = [a', b', c', d']" using list4 [OF mix_col_length] .
  obtain e' f' g' h' where 2: "mix_col [e, f, g, h] 0 = [e', f', g', h']" using list4 [OF mix_col_length] .
  obtain i' j' k' l' where 3: "mix_col [i, j, k, l] 0 = [i', j', k', l']" using list4 [OF mix_col_length] .
  obtain m' n' p' q' where 4: "mix_col [m, n, p, q] 0 = [m', n', p', q']" using list4 [OF mix_col_length] .
  show ?thesis unfolding t columns(1) 1 2 3 4
    using columns(2) 1 [THEN inv_mix_col_mix_col] 2 [THEN inv_mix_col_mix_col]
      3 [THEN inv_mix_col_mix_col] 4 [THEN inv_mix_col_mix_col] by simp
qed

lemma aes_lengths [simp]:
  "length (add_key s k) = 16" "length (sub_shift g s) = 16" "length (mix_columns s) = 16"
  "length (enc_round g rk r s) = 16"
  by (simp_all add: add_key_def sub_shift_def mix_columns_def enc_round_def Let_def upt_rec)

lemma add_key_twice:
  assumes "length s = 16"
  shows "add_key (add_key s k) k = s"
  using assms by (intro nth_equalityI) (simp_all add: add_key_def xor.assoc)

lemma inv_sub_shift_sub_shift:
  assumes "tables_built g" and "length s = 16"
  shows "inv_sub_shift g (sub_shift g s) = s"
proof -
  obtain a b c d e f g' h i j k l m n p q where t: "s = [a, b, c, d, e, f, g', h, i, j, k, l, m, n, p, q]"
    using list16 [OF assms(2)] .
  have "inv_sub_byte g (sub_byte g x) = x" for x using assms(1) by (simp add: tables_built_def)
  then show ?thesis unfolding t by (simp add: inv_sub_shift_def sub_shift_def shift_idx_def upt_rec)
qed

lemma dec_enc_round:
  assumes "tables_built g" and "length s = 16"
  shows "dec_round g rk r (enc_round g rk r s) = s"
  using assms by (simp add: dec_round_def enc_round_def Let_def add_key_twice inv_mix_columns_mix_columns inv_sub_shift_sub_shift)

lemma dec_enc_rounds:
  assumes "tables_built g" and "length s = 16"
  shows "fold (dec_round g rk) (rev rs) (fold (enc_round g rk) rs s) = s"
proof (induction rs rule: rev_induct)
  case (snoc r rs)
  have "length (fold (enc_round g rk) rs s) = 16" using assms(2) by (cases rs rule: rev_cases) simp_all
  then show ?case using snoc by (simp add: dec_enc_round [OF assms(1)])
qed simp

lemma aes_lengths' [simp]: "length (aes128_encrypt g rk x) = 16" "length (aes128_decrypt g rk x) = 16"
proof -
  have "length (fold (enc_round g rk) rs s) = 16" if "length s = 16" for s rs
    using that by (cases rs rule: rev_cases) simp_all
  then show "length (aes128_encrypt g rk x) = 16" by (simp add: aes128_encrypt_def)
qed (simp add: aes128_decrypt_def)

lemma decrypt_encrypt:
  assumes "tables_built g" and "length x = 16"
  shows "aes128_decrypt g rk (aes128_encrypt g rk x) = x"
  unfolding aes128_decrypt_def aes128_encrypt_def
  using assms by (simp add: dec_enc_rounds add_key_twice del: upt.simps)

lemma key_step_length: "length (fst (key_step g i ws)) = length (fst ws) + 4"
  by (simp add: key_step_def Let_def split: prod.splits if_splits)

lemma aes128_key_built:
  assumes "tables_built g \<or> g = static_tables" and "length key = 16"
  shows "\<exists>g' rk. aes128_key g key = Some (g', rk) \<and> tables_built g' \<and> length rk = 176 \<and> take 16 rk = key"
proof -
  obtain g' where g: "tables g = Some g'" "tables_built g'"
    using assms(1) tables_again tables_static by auto
  have l: "length (fst (fold (key_step g') is ws)) = length (fst ws) + 4 * length is" for "is" ws
    by (induction "is" arbitrary: ws) (simp_all add: key_step_length)
  have t: "length (fst ws) \<ge> 16 \<Longrightarrow> take 16 (fst (fold (key_step g') is ws)) = take 16 (fst ws)" for "is" ws
  proof (induction "is" arbitrary: ws)
    case (Cons i js)
    have "take 16 (fst (key_step g' i ws)) = take 16 (fst ws)"
      using Cons.prems by (cases ws) (auto simp: key_step_def Let_def split: prod.splits if_splits)
    then show ?case using Cons.IH [of "key_step g' i ws"] Cons.prems by (simp add: key_step_length)
  qed simp
  show ?thesis
    using g assms(2) l [of "map (\<lambda>k. 16 + 4 * k) [0 ..< 40]" "(key, 1)"] t [of "(key, 1)" "map (\<lambda>k. 16 + 4 * k) [0 ..< 40]"]
    by (simp add: aes128_key_def del: upt_Suc)
qed

text \<open>Encryption is injective on the finite set of blocks, so it is the inverse of decryption too.\<close>

lemma encrypt_decrypt:
  assumes "tables_built g" and "length x = 16"
  shows "aes128_encrypt g rk (aes128_decrypt g rk x) = x"
proof -
  let ?B = "{xs :: u8 list. length xs = 16}"
  have "finite ?B" using finite_lists_length_eq [of "UNIV :: u8 set" 16] by simp
  moreover have "inj_on (aes128_encrypt g rk) ?B"
    by (rule inj_on_inverseI [where g = "aes128_decrypt g rk"]) (simp add: decrypt_encrypt [OF assms(1)])
  moreover have "aes128_encrypt g rk ` ?B \<subseteq> ?B" by auto
  ultimately have "aes128_encrypt g rk ` ?B = ?B" by (intro endo_inj_surj)
  then obtain y where "length y = 16" "x = aes128_encrypt g rk y" using assms(2) by (metis (mono_tags, lifting) imageE mem_Collect_eq)
  then show ?thesis using decrypt_encrypt [OF assms(1)] by simp
qed

subsection \<open>Key wrapping\<close>

text \<open>
  The wrapping of RFC 3394, 2.2.1, by its step number \<open>s\<close> from 1 to \<open>6 n\<close>: on 64-bit blocks, with the register \<open>A\<close>
  masked with \<open>s\<close> as a 64-bit number, most significant byte first.
\<close>

definition be64 :: "nat \<Rightarrow> u8 list" where
  "be64 s = map (\<lambda>k. of_nat (s div 256 ^ k)) [7, 6, 5, 4, 3, 2, 1, 0]"

definition rfc3394_step :: "(u8 list \<Rightarrow> u8 list) \<Rightarrow> nat \<Rightarrow> u8 list \<times> u8 list list \<Rightarrow> u8 list \<times> u8 list list" where
  "rfc3394_step E s AR =
     (let (A, R) = AR; i = (s - 1) mod length R; B = E (A @ R ! i)
      in (map2 (XOR) (take 8 B) (be64 s), R[i := drop 8 B]))"

definition rfc3394_wrap :: "(u8 list \<Rightarrow> u8 list) \<Rightarrow> u8 list list \<Rightarrow> u8 list" where
  "rfc3394_wrap E P =
     (let (A, R) = fold (rfc3394_step E) [1 ..< 6 * length P + 1] (replicate 8 0xa6, P) in A @ concat R)"

text \<open>The same with the arrays and the two loops of the code, the other way round.\<close>

definition wrap_step :: "aes_tables \<Rightarrow> u8 list \<Rightarrow> nat \<Rightarrow> nat \<times> nat \<Rightarrow> u8 list \<times> u8 list \<Rightarrow> u8 list \<times> u8 list" where
  "wrap_step g rk n ji AR =
     (let (j, i) = ji; (A, R) = AR; B = aes128_encrypt g rk (A @ take 8 (drop (8 * (i - 1)) R))
      in (xor_t (wrap64 (n * j + i)) (take 8 B), memcpy R (8 * (i - 1)) (drop 8 B)))"

definition aes_wrap :: "aes_tables \<Rightarrow> u8 list \<Rightarrow> nat \<Rightarrow> u8 list \<Rightarrow> u8 list" where
  "aes_wrap g rk n P = (let (A, R) = fold (wrap_step g rk n) (wrap_order n) (replicate 8 0xa6, P) in A @ R)"

definition wrap_pair :: "nat \<Rightarrow> u8 list \<times> u8 list \<Rightarrow> bool" where
  "wrap_pair n AR \<longleftrightarrow> length (fst AR) = 8 \<and> length (snd AR) = 8 * n"

lemma list8:
  assumes "length s = 8"
  obtains a b c d e f g h where "s = [a, b, c, d, e, f, g, h]"
proof -
  have "s = map (\<lambda>i. s ! i) [0 ..< 8]" using assms by (metis map_nth)
  then show ?thesis using that by (simp add: upt_rec)
qed

lemma xor_t_length [simp]: "length (xor_t t b) = length b"
proof -
  have "length (fold (\<lambda>k b. b[7 - k := b ! (7 - k) XOR of_nat (t div 2 ^ (8 * k))]) ks b) = length b" for ks
    by (induction ks arbitrary: b) simp_all
  then show ?thesis by (simp add: xor_t_def)
qed

lemma xor_t_twice: "length b = 8 \<Longrightarrow> xor_t t (xor_t t b) = b"
  by (erule list8) (simp add: xor_t_def upt_rec xor.assoc)

lemma memcpy_block:
  assumes "off + length b \<le> length R"
  shows "take (length b) (drop off (memcpy R off b)) = b"
    and "memcpy (memcpy R off b) off (take (length b) (drop off R)) = R"
proof -
  show "take (length b) (drop off (memcpy R off b)) = b" using assms by (simp add: memcpy_def)
  show "memcpy (memcpy R off b) off (take (length b) (drop off R)) = R"
    using assms by (intro nth_equalityI) (auto simp: memcpy_nth)
qed

lemma wrap_steps_inverse:
  assumes "tables_built g" and "wrap_pair n AR" and "1 \<le> i" and "i \<le> n"
  shows "wrap_pair n (wrap_step g rk n (j, i) AR)" and "wrap_pair n (unwrap_step g rk n (j, i) AR)"
    and "unwrap_step g rk n (j, i) (wrap_step g rk n (j, i) AR) = AR"
    and "wrap_step g rk n (j, i) (unwrap_step g rk n (j, i) AR) = AR"
proof -
  obtain A R where AR: "AR = (A, R)" by (cases AR)
  let ?o = "8 * (i - Suc 0)"
  have o8: "?o + 8 \<le> length R" and lA: "length A = 8" using assms by (auto simp: AR wrap_pair_def)
  show "wrap_pair n (wrap_step g rk n (j, i) AR)" "wrap_pair n (unwrap_step g rk n (j, i) AR)"
    using assms(2) o8 lA by (simp_all add: AR wrap_pair_def wrap_step_def unwrap_step_def Let_def)
  define x where "x = A @ take 8 (drop ?o R)"
  define y where "y = xor_t (wrap64 (n * j + i)) A @ take 8 (drop ?o R)"
  have lx: "length x = 16" "length y = 16" using o8 lA by (simp_all add: x_def y_def)
  have B: "take 8 (drop ?o (memcpy R ?o (drop 8 (aes128_encrypt g rk x)))) = drop 8 (aes128_encrypt g rk x)"
    and D: "take 8 (drop ?o (memcpy R ?o (drop 8 (aes128_decrypt g rk y)))) = drop 8 (aes128_decrypt g rk y)"
    using memcpy_block(1) [of ?o "drop 8 (aes128_encrypt g rk x)" R] memcpy_block(1) [of ?o "drop 8 (aes128_decrypt g rk y)" R] o8
    by simp_all
  have B': "memcpy (memcpy R ?o (drop 8 (aes128_encrypt g rk x))) ?o (take 8 (drop ?o R)) = R"
    and D': "memcpy (memcpy R ?o (drop 8 (aes128_decrypt g rk y))) ?o (take 8 (drop ?o R)) = R"
    using memcpy_block(2) [of ?o "drop 8 (aes128_encrypt g rk x)" R] memcpy_block(2) [of ?o "drop 8 (aes128_decrypt g rk y)" R] o8
    by simp_all
  have de: "aes128_decrypt g rk (aes128_encrypt g rk x) = x" "aes128_encrypt g rk (aes128_decrypt g rk y) = y"
    using decrypt_encrypt [OF assms(1) lx(1)] encrypt_decrypt [OF assms(1) lx(2)] by simp_all
  have t8: "take 8 x = A" "drop 8 x = take 8 (drop ?o R)" "take 8 y = xor_t (wrap64 (n * j + i)) A" "drop 8 y = take 8 (drop ?o R)"
    using lA by (simp_all add: x_def y_def)
  have w: "wrap_step g rk n (j, i) AR = (xor_t (wrap64 (n * j + i)) (take 8 (aes128_encrypt g rk x)), memcpy R ?o (drop 8 (aes128_encrypt g rk x)))"
    and u: "unwrap_step g rk n (j, i) AR = (take 8 (aes128_decrypt g rk y), memcpy R ?o (drop 8 (aes128_decrypt g rk y)))"
    by (simp_all add: AR wrap_step_def unwrap_step_def x_def y_def Let_def)
  show "unwrap_step g rk n (j, i) (wrap_step g rk n (j, i) AR) = AR"
    unfolding w by (simp add: unwrap_step_def Let_def B xor_t_twice de t8 B' AR)
  show "wrap_step g rk n (j, i) (unwrap_step g rk n (j, i) AR) = AR"
    unfolding u by (simp add: wrap_step_def Let_def D de t8 D' AR xor_t_twice lA)
qed

lemma fold_rev_inverse:
  assumes "\<And>x s. x \<in> set xs \<Longrightarrow> I s \<Longrightarrow> I (f x s) \<and> g x (f x s) = s"
  shows "I s \<Longrightarrow> I (fold f xs s) \<and> fold g (rev xs) (fold f xs s) = s"
  using assms
proof (induction xs arbitrary: s)
  case (Cons x xs)
  have "I (f x s)" "g x (f x s) = s" using Cons.prems by simp_all
  then show ?case using Cons.IH [of "f x s"] Cons.prems(2) by simp
qed simp

lemma wrap_folds:
  assumes "tables_built g" and "wrap_pair n AR"
  shows "wrap_pair n (fold (wrap_step g rk n) (wrap_order n) AR)"
    and "fold (unwrap_step g rk n) (rev (wrap_order n)) (fold (wrap_step g rk n) (wrap_order n) AR) = AR"
    and "wrap_pair n (fold (unwrap_step g rk n) (rev (wrap_order n)) AR)"
    and "fold (wrap_step g rk n) (wrap_order n) (fold (unwrap_step g rk n) (rev (wrap_order n)) AR) = AR"
proof -
  have o1: "\<exists>j i. x = (j, i) \<and> 1 \<le> i \<and> i \<le> n" if "x \<in> set (wrap_order n)" for x
    using that by (auto simp: wrap_order_def)
  have "wrap_pair n (wrap_step g rk n x s) \<and> unwrap_step g rk n x (wrap_step g rk n x s) = s"
    if "x \<in> set (wrap_order n)" "wrap_pair n s" for x s
    using o1 [OF that(1)] wrap_steps_inverse(1,3) [OF assms(1) that(2)] by auto
  from fold_rev_inverse [of "wrap_order n" "wrap_pair n" "wrap_step g rk n" "unwrap_step g rk n", OF this assms(2)]
  show "wrap_pair n (fold (wrap_step g rk n) (wrap_order n) AR)"
    and "fold (unwrap_step g rk n) (rev (wrap_order n)) (fold (wrap_step g rk n) (wrap_order n) AR) = AR" by auto
  have "wrap_pair n (unwrap_step g rk n x s) \<and> wrap_step g rk n x (unwrap_step g rk n x s) = s"
    if "x \<in> set (rev (wrap_order n))" "wrap_pair n s" for x s
    using o1 [of x] that(1) wrap_steps_inverse(2,4) [OF assms(1) that(2)] by auto
  from fold_rev_inverse [of "rev (wrap_order n)" "wrap_pair n" "unwrap_step g rk n" "wrap_step g rk n", OF this assms(2)]
  show "wrap_pair n (fold (unwrap_step g rk n) (rev (wrap_order n)) AR)"
    and "fold (wrap_step g rk n) (wrap_order n) (fold (unwrap_step g rk n) (rev (wrap_order n)) AR) = AR" by auto
qed

lemma wrap_order_steps: "wrap_order n = map (\<lambda>s. ((s - 1) div n, (s - 1) mod n + 1)) [1 ..< 6 * n + 1]"
proof -
  have m: "map (Pair j) [1 ..< Suc n] = map (\<lambda>s. ((s - 1) div n, (s - 1) mod n + 1)) [j * n + 1 ..< Suc j * n + 1]" for j
    by (rule nth_equalityI) (auto simp del: upt_Suc)
  have "concat (map (\<lambda>j. map (Pair j) [1 ..< Suc n]) [0 ..< k]) = map (\<lambda>s. ((s - 1) div n, (s - 1) mod n + 1)) [1 ..< k * n + 1]" for k
  proof (induction k)
    case (Suc k)
    have "[1 ..< Suc k * n + 1] = [1 ..< k * n + 1] @ [k * n + 1 ..< Suc k * n + 1]"
      using upt_add_eq_append [of 1 "k * n + 1" n] by (simp add: add.commute)
    moreover have "[0 ..< Suc k] = [0 ..< k] @ [k]" by simp
    ultimately show ?case by (simp only: map_append concat_append list.map concat.simps append_Nil2 m Suc [unfolded m])
  qed simp
  then show ?thesis unfolding wrap_order_def .
qed

lemma xor_t_be64: "length b = 8 \<Longrightarrow> xor_t (wrap64 t) b = map2 (XOR) b (be64 t)"
proof (erule list8)
  fix a b' c d e f g h :: u8
  have "(of_nat (wrap64 t div 2 ^ (8 * k)) :: u8) = of_nat (t div 256 ^ k)" if "k < 8" for k
  proof -
    have "take_bit 8 (drop_bit (8 * k) (take_bit 64 t)) = take_bit 8 (drop_bit (8 * k) t)"
      using that by (intro bit_eqI) (auto simp: bit_simps)
    then have "t mod 2 ^ 64 div 2 ^ (8 * k) mod 2 ^ 8 = t div 2 ^ (8 * k) mod 2 ^ 8"
      by (simp only: take_bit_eq_mod drop_bit_eq_div)
    then show ?thesis
      by (simp add: wrap64_def word_of_nat_eq_iff take_bit_eq_mod power_mult)
  qed
  from this [of 0] this [of 1] this [of 2] this [of 3] this [of 4] this [of 5] this [of 6] this [of 7]
  show "b = [a, b', c, d, e, f, g, h] \<Longrightarrow> xor_t (wrap64 t) b = map2 (XOR) b (be64 t)"
    by (simp add: xor_t_def be64_def upt_rec)
qed

lemma block_of_concat:
  assumes "\<And>b. b \<in> set R \<Longrightarrow> length b = 8" and "i < length R"
  shows "take 8 (drop (8 * i) (concat R)) = R ! i"
    and "length b = 8 \<Longrightarrow> memcpy (concat R) (8 * i) b = concat (R[i := b])"
proof -
  have l: "length (concat xs) = 8 * length xs" if "set xs \<subseteq> set R" for xs
    using that assms(1) by (induction xs) auto
  have R: "R = take i R @ R ! i # drop (Suc i) R" using assms(2) by (rule id_take_nth_drop)
  have c: "concat R = concat (take i R) @ R ! i @ concat (drop (Suc i) R)" by (subst R) simp
  have t: "length (concat (take i R)) = 8 * i" using l [of "take i R"] assms(2) by (simp add: set_take_subset)
  have 8: "length (R ! i) = 8" using assms by simp
  show "take 8 (drop (8 * i) (concat R)) = R ! i" unfolding c using t 8 by simp
  show "length b = 8 \<Longrightarrow> memcpy (concat R) (8 * i) b = concat (R[i := b])"
    unfolding c using t 8 by (simp add: memcpy_def upd_conv_take_nth_drop [OF assms(2)])
qed

lemma aes_wrap_rfc3394:
  assumes "\<And>b. b \<in> set P \<Longrightarrow> length b = 8"
  shows "aes_wrap g rk (length P) (concat P) = rfc3394_wrap (aes128_encrypt g rk) P"
proof -
  define n where "n = length P"
  have "length A = 8 \<Longrightarrow> length R = n \<Longrightarrow> \<forall>b \<in> set R. length b = 8 \<Longrightarrow> \<forall>s \<in> set ss. 1 \<le> s \<and> 0 < n \<Longrightarrow>
      fold (wrap_step g rk n) (map (\<lambda>s. ((s - 1) div n, (s - 1) mod n + 1)) ss) (A, concat R) =
      (let (A, R) = fold (rfc3394_step (aes128_encrypt g rk)) ss (A, R) in (A, concat R))" for A R ss
  proof (induction ss arbitrary: A R)
    case (Cons s ss)
    define i where "i = (s - 1) mod n"
    define B where "B = aes128_encrypt g rk (A @ R ! i)"
    have i: "i < length R" using Cons.prems by (simp add: i_def)
    have s: "n * ((s - 1) div n) + (i + 1) = s" using Cons.prems(4) by (simp add: i_def add.assoc [symmetric])
    have B: "length (take 8 B) = 8" "length (drop 8 B) = 8" by (simp_all add: B_def)
    have w: "wrap_step g rk n ((s - 1) div n, i + 1) (A, concat R) =
        (map2 (XOR) (take 8 B) (be64 s), concat (R[i := drop 8 B]))"
      using block_of_concat [of R i] Cons.prems(3) i B xor_t_be64 [OF B(1)] s
      by (simp add: wrap_step_def Let_def B_def [symmetric])
    have r: "rfc3394_step (aes128_encrypt g rk) s (A, R) = (map2 (XOR) (take 8 B) (be64 s), R[i := drop 8 B])"
      using Cons.prems(2) by (simp add: rfc3394_step_def B_def i_def Let_def)
    have b: "\<forall>b \<in> set (R[i := drop 8 B]). length b = 8"
      using Cons.prems(3) B set_update_subset_insert [of R i "drop 8 B"] by auto
    have a: "length (map2 (XOR) (take 8 B) (be64 s)) = 8" using B by (simp add: be64_def)
    have "length (R[i := drop 8 B]) = n" "\<forall>s \<in> set ss. 1 \<le> s \<and> 0 < n" using Cons.prems(2,4) by simp_all
    from Cons.IH [OF a this(1) b this(2)] show ?case
      by (simp only: list.map fold_simps i_def [symmetric] w r)
  qed simp
  from this [of "replicate 8 0xa6" P "[1 ..< 6 * n + 1]"] show ?thesis
    using assms by (auto simp: aes_wrap_def rfc3394_wrap_def wrap_order_steps n_def [symmetric] Let_def split: prod.splits)
qed

text \<open>Byte strings as 64-bit blocks.\<close>

definition blocks8 :: "u8 list \<Rightarrow> u8 list list" where
  "blocks8 p = map (\<lambda>i. take 8 (drop (8 * i) p)) [0 ..< length p div 8]"

lemma blocks8_concat:
  assumes "length p = 8 * n"
  shows "length (blocks8 p) = n" and "b \<in> set (blocks8 p) \<Longrightarrow> length b = 8" and "concat (blocks8 p) = p"
proof -
  show "length (blocks8 p) = n" "b \<in> set (blocks8 p) \<Longrightarrow> length b = 8" using assms by (auto simp: blocks8_def)
  have "concat (map (\<lambda>i. take 8 (drop (8 * i) p)) [0 ..< k]) = take (8 * k) p" for k
    by (induction k) (simp_all add: take_add [symmetric] add.commute)
  then show "concat (blocks8 p) = p" using assms by (simp add: blocks8_def)
qed

lemma aes_wrap_blocks: "length p = 8 * n \<Longrightarrow> aes_wrap g rk n p = rfc3394_wrap (aes128_encrypt g rk) (blocks8 p)"
  using aes_wrap_rfc3394 [of "blocks8 p" g rk] blocks8_concat [of p n] by simp

subsection \<open>CMAC at once\<close>

text \<open>
  RFC 4493: a block as a 128-bit number, the subkeys by doubling in the field of 2 to the power of 128 elements (a left
  shift, and the reduction by 0x87 when the top bit was set), the message's 16-byte blocks, the last one
  masked with the first or the second subkey.
\<close>

definition block_word :: "u8 list \<Rightarrow> 128 word" where
  "block_word b = foldl (\<lambda>w x. push_bit 8 w OR ucast x) 0 b"

definition word_block :: "128 word \<Rightarrow> u8 list" where
  "word_block w = map (\<lambda>k. ucast (drop_bit (8 * (15 - k)) w)) [0 ..< 16]"

definition gf_double :: "128 word \<Rightarrow> 128 word" where
  "gf_double w = (if bit w 127 then push_bit 1 w XOR 0x87 else push_bit 1 w)"

definition cmac_last :: "u8 list \<Rightarrow> u8 list \<Rightarrow> u8 list \<Rightarrow> u8 list" where
  "cmac_last k1 k2 m = (if length m = 16 then map2 (XOR) m k1 else map2 (XOR) (m @ 0x80 # replicate (15 - length m) 0) k2)"

definition cmac_spec :: "(u8 list \<Rightarrow> u8 list) \<Rightarrow> u8 list \<Rightarrow> u8 list" where
  "cmac_spec E data =
     (let k1 = gf_double (block_word (E (replicate 16 0))); k2 = gf_double k1; n = max 1 ((length data + 15) div 16);
          m = (\<lambda>i. take 16 (drop (16 * i) data));
          x = fold (\<lambda>i x. E (map2 (XOR) x (m i))) [0 ..< n - 1] (replicate 16 0)
      in E (map2 (XOR) x (cmac_last (word_block k1) (word_block k2) (m (n - 1)))))"

lemma bit_block_word:
  "length xs \<le> 16 \<Longrightarrow> bit (block_word xs) m \<longleftrightarrow> m < 8 * length xs \<and> bit (xs ! (length xs - 1 - m div 8)) (m mod 8)"
proof (induction xs arbitrary: m rule: rev_induct)
  case (snoc b xs)
  have "bit (block_word (xs @ [b])) m \<longleftrightarrow> (8 \<le> m \<and> m < 128 \<and> bit (block_word xs) (m - 8)) \<or> (m < 128 \<and> bit b m)"
    by (auto simp: block_word_def bit_simps)
  note step = this
  show ?case
  proof (cases "m < 8")
    case True
    then show ?thesis using step by (simp add: nth_append)
  next
    case False
    then obtain k where k: "m = k + 8" by (metis le_add_diff_inverse2 not_less)
    have "\<not> bit b m" using False by (auto dest: bit_imp_le_length)
    then have "bit (block_word (xs @ [b])) m \<longleftrightarrow> k < 8 * length xs \<and> bit (xs ! (length xs - 1 - k div 8)) (k mod 8)"
      using step snoc.IH [of k] snoc.prems by (auto simp: k)
    moreover have "k < 8 * length xs \<Longrightarrow> k div 8 < length xs" "(k + 8) div 8 = Suc (k div 8)" by simp_all
    ultimately show ?thesis by (auto simp: k nth_append)
  qed
qed (simp add: block_word_def)

lemma bit_word_block: "k < 16 \<Longrightarrow> bit (word_block w ! k) b \<longleftrightarrow> b < 8 \<and> bit w (8 * (15 - k) + b)"
  by (auto simp: word_block_def bit_simps)

lemma word_block_length [simp]: "length (word_block w) = 16"
  by (simp add: word_block_def)

lemma word_block_inverse: "block_word (word_block w) = w"
proof (rule bit_eqI)
  fix m assume "possible_bit TYPE(128 word) m"
  then have m: "m < 128" by (simp add: possible_bit_def)
  then have "m div 8 < 16" by simp
  then have "15 - (15 - m div 8) = m div 8" by simp
  then show "bit (block_word (word_block w)) m \<longleftrightarrow> bit w m" using m by (simp add: bit_block_word bit_word_block)
qed

lemma top_bit: "drop_bit 7 y = (of_bool (bit y 7) :: u8)"
proof (rule bit_eqI)
  fix n show "bit (drop_bit 7 y) n \<longleftrightarrow> bit (of_bool (bit y 7) :: u8) n"
    using bit_imp_le_length [of y "7 + n"] by (cases n) (auto simp: bit_simps)
qed

lemma bit_shift1: "bit (push_bit 1 w) m \<longleftrightarrow> 1 \<le> m \<and> m < LENGTH('a) \<and> bit w (m - 1)" for w :: "'a :: len word"
  by (auto simp only: bit_push_bit_iff possible_bit_word dest: bit_imp_le_length)

lemma cmac_dbl_gf:
  assumes "length x = 16"
  shows "cmac_dbl x = word_block (gf_double (block_word x))"
proof (rule nth_equalityI)
  show "length (cmac_dbl x) = length (word_block (gf_double (block_word x)))" by (simp add: cmac_dbl_def Let_def)
  fix k assume "k < length (cmac_dbl x)"
  then have k: "k < 16" by (simp add: cmac_dbl_def Let_def split: if_splits)
  have r: "(0x87 :: 128 word) = ucast (0x87 :: u8)" by simp
  have c: "drop_bit 7 (x ! 0) \<noteq> 0 \<longleftrightarrow> bit (block_word x) 127"
    by (simp add: top_bit bit_block_word assms)
  show "cmac_dbl x ! k = word_block (gf_double (block_word x)) ! k"
  proof (rule bit_eqI)
    fix b assume "possible_bit TYPE(u8) b"
    then have b: "b < 8" by (simp add: possible_bit_def)
    have s: "bit (push_bit 1 (block_word x)) (8 * (15 - k) + b) \<longleftrightarrow>
        (if b = 0 then k \<noteq> 15 \<and> bit (x ! (k + 1)) 7 else bit (x ! k) (b - 1))"
    proof (cases b)
      case 0
      show ?thesis
      proof (cases "k = 15")
        case False
        then have "8 * (15 - k) - 1 = 8 * (14 - k) + 7" "15 - (14 - k) = k + 1" using k by auto
        moreover have "1 \<le> 8 * (15 - k)" "15 - k < 16" "8 * (14 - k) < 121" using k False by auto
        ultimately show ?thesis using 0 False unfolding bit_shift1 by (simp add: bit_block_word assms)
      qed (simp only: 0 bit_shift1, simp)
    next
      case (Suc c)
      moreover have "15 - k < 16" "8 * (15 - k) + c < 127" using k b Suc by auto
      ultimately show ?thesis using k b unfolding bit_shift1 by (simp add: bit_block_word assms)
    qed
    have "\<not> 8 * (15 - k) + b < LENGTH(8)" if "k \<noteq> 15" using that k by auto
    then have "\<not> bit (0x87 :: u8) (8 * (15 - k) + b)" if "k \<noteq> 15" using that bit_imp_le_length by blast
    then have h: "bit (0x87 :: 128 word) (8 * (15 - k) + b) \<longleftrightarrow> k = 15 \<and> bit (0x87 :: u8) b"
      unfolding r bit_unsigned_iff using b by (cases "k = 15") (simp_all add: possible_bit_def)
    define u where "u = push_bit 1 (x ! k)"
    define y where "y = (if k = 15 then u else u OR drop_bit 7 (x ! (k + 1)))"
    have u: "bit u b \<longleftrightarrow> 1 \<le> b \<and> bit (x ! k) (b - 1)" unfolding u_def bit_shift1 using b by auto
    have "cmac_dbl x ! k = (if drop_bit 7 (x ! 0) \<noteq> 0 \<and> k = 15 then y XOR 0x87 else y)"
      using k unfolding cmac_dbl_def Let_def y_def u_def by (cases "k = 15") (simp_all only: if_splits, auto simp: nth_append)
    then have "bit (cmac_dbl x ! k) b \<longleftrightarrow> bit y b \<noteq> (bit (block_word x) 127 \<and> k = 15 \<and> bit (0x87 :: u8) b)"
      unfolding c [symmetric] by (simp only: bit_xor_iff split: if_split) blast
    moreover have "bit y b \<longleftrightarrow> (if b = 0 then k \<noteq> 15 \<and> bit (x ! (k + 1)) 7 else bit (x ! k) (b - 1))"
      unfolding y_def top_bit using u by (auto simp: bit_simps)
    moreover have "bit (gf_double (block_word x)) m \<longleftrightarrow>
        bit (push_bit 1 (block_word x)) m \<noteq> (bit (block_word x) 127 \<and> bit (0x87 :: 128 word) m)" for m
      unfolding gf_double_def by (simp only: bit_xor_iff split: if_split) blast
    ultimately show "bit (cmac_dbl x ! k) b \<longleftrightarrow> bit (word_block (gf_double (block_word x)) ! k) b"
      unfolding bit_word_block [OF k] s h using b by (simp only: s h) blast
  qed
qed

lemma add_key_xor: "length x = 16 \<Longrightarrow> length k = 16 \<Longrightarrow> add_key x k = map2 (XOR) x k"
  by (rule nth_equalityI) (simp_all add: add_key_def)

lemma add_key_take: "add_key x (take 16 k) = add_key x k"
  by (simp add: add_key_def)

lemma cmac_blocks:
  "(if length data \<ge> 16 then (length data - 1) div 16 else 0) = max 1 ((length data + 15) div 16) - 1"
proof (cases "length data \<ge> 16")
  case True
  then have "length data + 15 = (length data - 1) + 16" by simp
  then have "(length data + 15) div 16 = (length data - 1) div 16 + 1" by (simp only: div_add_self2)
  then show ?thesis using True by simp
next
  case False
  then have "(length data + 15) div 16 \<le> 1" by simp
  then show ?thesis using False by simp
qed

lemma cmac_last_block:
  assumes "length m \<le> 16" and "length k1 = 16" and "length k2 = 16"
  shows "(let blk = memcpy (replicate 16 0) 0 m
          in if length m = 16 then add_key blk k1 else add_key (blk[length m := 0x80]) k2) = cmac_last k1 k2 m"
proof (cases "length m = 16")
  case False
  then have l: "length m \<le> 15" using assms by simp
  have "replicate (16 - length m) (0 :: u8) = 0 # replicate (15 - length m) 0"
    using l by (simp add: Suc_diff_le replicate_Suc [symmetric] del: replicate_Suc)
  then show ?thesis
    using False l assms(3) by (simp add: cmac_last_def memcpy_def list_update_append add_key_xor)
qed (simp add: cmac_last_def memcpy_def add_key_xor assms)

lemma cmac_chain_spec:
  assumes "16 * n \<le> length p"
  shows "length (cmac_chain g rk p n (replicate 16 0)) = 16 \<and> cmac_chain g rk p n (replicate 16 0) =
    fold (\<lambda>i x. aes128_encrypt g rk (map2 (XOR) x (take 16 (drop (16 * i) p)))) [0 ..< n] (replicate 16 0)"
  using assms
proof (induction n)
  case (Suc n)
  define x where "x = cmac_chain g rk p n (replicate 16 0)"
  have "length x = 16" and "length (take 16 (drop (16 * n) p)) = 16" unfolding x_def using Suc by auto
  then have "add_key x (drop (16 * n) p) = map2 (XOR) x (take 16 (drop (16 * n) p))"
    using add_key_xor add_key_take by metis
  then show ?case using Suc by (simp add: cmac_chain_def x_def)
qed (simp add: cmac_chain_def)

subsection \<open>Properties\<close>

text \<open>
  C18: the first call that sets a key builds the tables (its table loop ends) and every later call finds
  them built; the schedule has 176 bytes and starts with the key; under it decryption and encryption of
  16-byte blocks are inverse to each other.
\<close>

theorem aes128_roundtrip:
  assumes "tables_built g \<or> g = static_tables" and "length key = 16"
  shows "\<exists>g' rk. aes128_key g key = Some (g', rk) \<and> tables_built g' \<and> length rk = 176 \<and> take 16 rk = key \<and>
    (\<forall>x. length x = 16 \<longrightarrow> aes128_decrypt g' rk (aes128_encrypt g' rk x) = x \<and> aes128_encrypt g' rk (aes128_decrypt g' rk x) = x)"
proof -
  obtain g' rk where "aes128_key g key = Some (g', rk)" "tables_built g'" "length rk = 176" "take 16 rk = key"
    using aes128_key_built [OF assms] by blast
  then show ?thesis using decrypt_encrypt encrypt_decrypt by blast
qed

theorem aes128_roundtrip_witness:
  "\<exists>g rk. aes128_key static_tables (replicate 16 7) = Some (g, rk) \<and>
     aes128_decrypt g rk (aes128_encrypt g rk (replicate 16 1)) = replicate 16 1"
proof -
  obtain g rk where k: "aes128_key static_tables (replicate 16 7) = Some (g, rk)"
      "\<forall>x. length x = 16 \<longrightarrow> aes128_decrypt g rk (aes128_encrypt g rk x) = x \<and> aes128_encrypt g rk (aes128_decrypt g rk x) = x"
    using aes128_roundtrip [of static_tables "replicate 16 7"] by auto
  from k(2) [rule_format, of "replicate 16 1"] show ?thesis using k(1) by auto
qed

text \<open>
  C19: unwrapping returns 0 and the key data \<open>p\<close> exactly for the cipher text that RFC 3394 wraps \<open>p\<close> to
  under the same key (its \<open>6 n\<close> steps over the 64-bit blocks of \<open>p\<close>, each under the AES encryption of this theory),
  and -1 for every other cipher text of that length.
\<close>

theorem aes_unwrap_iff_wrapped:
  assumes "tables_built g \<or> g = static_tables" and "length kek = 16" and "length cipher = 8 * Suc n"
  shows "\<exists>g' rk r plain. aes128_key g kek = Some (g', rk) \<and> aes_unwrap g kek n cipher = Some (g', r, plain) \<and>
    (r = 0 \<or> r = - 1) \<and>
    (\<forall>p. length p = 8 * n \<longrightarrow> (r = 0 \<and> plain = p) = (cipher = rfc3394_wrap (aes128_encrypt g' rk) (blocks8 p)))"
proof -
  obtain g' rk where k: "aes128_key g kek = Some (g', rk)" "tables_built g'"
    using aes128_key_built [OF assms(1,2)] by blast
  obtain A plain where u: "fold (unwrap_step g' rk n) (rev (wrap_order n)) (take 8 cipher, take (8 * n) (drop 8 cipher)) = (A, plain)"
    by (cases "fold (unwrap_step g' rk n) (rev (wrap_order n)) (take 8 cipher, take (8 * n) (drop 8 cipher))")
  have c: "wrap_pair n (take 8 cipher, take (8 * n) (drop 8 cipher))" "take 8 cipher @ take (8 * n) (drop 8 cipher) = cipher"
    using assms(3) by (simp_all add: wrap_pair_def)
  have lA: "length A = 8" using wrap_folds(3) [OF k(2) c(1), of rk] by (simp add: u wrap_pair_def)
  have iv: "(\<exists>k < 8. A ! k \<noteq> 0xa6) \<longleftrightarrow> A \<noteq> replicate 8 0xa6"
    using lA by (auto simp: list_eq_iff_nth_eq)
  have "(A = replicate 8 0xa6 \<and> plain = p) = (cipher = aes_wrap g' rk n p)" if p: "length p = 8 * n" for p
  proof
    assume "A = replicate 8 0xa6 \<and> plain = p"
    then show "cipher = aes_wrap g' rk n p"
      using wrap_folds(4) [OF k(2) c(1), of rk] c(2) by (simp add: u aes_wrap_def)
  next
    assume e: "cipher = aes_wrap g' rk n p"
    obtain B R where w: "fold (wrap_step g' rk n) (wrap_order n) (replicate 8 0xa6, p) = (B, R)"
      by (cases "fold (wrap_step g' rk n) (wrap_order n) (replicate 8 0xa6, p)")
    have wp: "wrap_pair n (replicate 8 0xa6, p)" using p by (simp add: wrap_pair_def)
    have "length B = 8" "length R = 8 * n" using wrap_folds(1) [OF k(2) wp, of rk] by (simp_all add: w wrap_pair_def)
    then have "(take 8 cipher, take (8 * n) (drop 8 cipher)) = (B, R)" using e w by (simp add: aes_wrap_def)
    then show "A = replicate 8 0xa6 \<and> plain = p" using wrap_folds(2) [OF k(2) wp, of rk] u w by simp
  qed
  then have "(A = replicate 8 0xa6 \<and> plain = p) = (cipher = rfc3394_wrap (aes128_encrypt g' rk) (blocks8 p))"
    if "length p = 8 * n" for p using that aes_wrap_blocks [OF that] by metis
  then show ?thesis using k(1) u iv by (auto simp: aes_unwrap_def)
qed

lemma aes_wrap_length:
  assumes "tables_built g" and "length p = 8 * n"
  shows "length (aes_wrap g rk n p) = 8 * Suc n"
  using wrap_folds(1) [OF assms(1), of n "(replicate 8 0xa6, p)" rk] assms(2)
  by (auto simp: wrap_pair_def aes_wrap_def split: prod.splits)

theorem aes_unwrap_iff_wrapped_witness:
  "\<exists>g rk cipher. aes128_key static_tables (replicate 16 0) = Some (g, rk) \<and>
     cipher = rfc3394_wrap (aes128_encrypt g rk) [replicate 8 3, replicate 8 4] \<and>
     aes_unwrap static_tables (replicate 16 0) 2 cipher = Some (g, 0, replicate 8 3 @ replicate 8 4)"
proof -
  obtain g rk where k: "aes128_key static_tables (replicate 16 0) = Some (g, rk)" "tables_built g"
    using aes128_key_built [of static_tables "replicate 16 0"] by auto
  define p where "p = replicate 8 (3 :: u8) @ replicate 8 4"
  define cipher where "cipher = rfc3394_wrap (aes128_encrypt g rk) (blocks8 p)"
  have "[0 ..< 2] = [0, 1 :: nat]" by (simp add: upt_rec)
  then have p: "length p = 8 * 2" "blocks8 p = [replicate 8 3, replicate 8 4]"
    by (simp_all add: p_def blocks8_def)
  have "length cipher = 8 * Suc 2"
    unfolding cipher_def aes_wrap_blocks [OF p(1), symmetric] by (rule aes_wrap_length [OF k(2) p(1)])
  from aes_unwrap_iff_wrapped [OF disjI2 [OF refl] _ this, of "replicate 16 0"] obtain r plain where
      u: "aes_unwrap static_tables (replicate 16 0) 2 cipher = Some (g, r, plain)"
      "\<forall>p. length p = 8 * 2 \<longrightarrow> (r = 0 \<and> plain = p) = (cipher = rfc3394_wrap (aes128_encrypt g rk) (blocks8 p))"
    using k(1) by auto
  have "r = 0 \<and> plain = p" using u(2) p(1) by (simp add: cipher_def)
  then show ?thesis using k(1) u(1) p(2) by (auto simp: cipher_def p_def)
qed

text \<open>
  C34: the message authentication code is the RFC 4493 CMAC under the AES encryption of this theory with the given key,
  for every message length: the subkeys by doubling in the 128-bit field, the chain over all blocks but the last, which
  is masked with the first subkey when it is whole and padded and masked with the second when it is short or the
  message is empty.
\<close>

theorem aes_cmac_rfc4493:
  assumes "tables_built g \<or> g = static_tables" and "length key = 16"
  shows "\<exists>g' rk. aes128_key g key = Some (g', rk) \<and> aes_cmac g key data = Some (g', cmac_spec (aes128_encrypt g' rk) data)"
proof -
  obtain g' rk where k: "aes128_key g key = Some (g', rk)" using aes128_key_built [OF assms] by blast
  define n where "n = max 1 ((length data + 15) div 16)"
  define m where "m = take 16 (drop (16 * (n - 1)) data)"
  have full: "(if length data \<ge> 16 then (length data - 1) div 16 else 0) = n - 1"
    unfolding n_def by (rule cmac_blocks)
  have "16 * (n - 1) \<le> length data" "length data \<le> 16 * n"
    unfolding n_def using div_mult_mod_eq [of "length data + 15" 16] mod_less_divisor [of 16 "length data + 15"] by linarith+
  then have r: "take (length data - (n - 1) * 16) (drop ((n - 1) * 16) data) = m" "length data - (n - 1) * 16 = length m"
    by (auto simp: m_def mult.commute min_def)
  have r': "take (length m) (drop ((n - 1) * 16) data) = m" using r by simp
  have "length m \<le> 16" by (simp add: m_def)
  note last = cmac_last_block [OF this word_block_length word_block_length, unfolded Let_def]
  note chain = cmac_chain_spec [OF \<open>16 * (n - 1) \<le> length data\<close>, of g' rk]
  define w where "w = gf_double (block_word (aes128_encrypt g' rk (replicate 16 0)))"
  have k1: "cmac_dbl (aes128_encrypt g' rk (replicate 16 0)) = word_block w" "cmac_dbl (word_block w) = word_block (gf_double w)"
    using cmac_dbl_gf [of "aes128_encrypt g' rk (replicate 16 0)"] cmac_dbl_gf [of "word_block w"]
    by (simp_all add: w_def word_block_inverse)
  have lm: "length (cmac_last (word_block a) (word_block b) m) = 16" for a b
    using \<open>length m \<le> 16\<close> by (simp add: cmac_last_def)
  have "aes_cmac g key data =
      Some (g', aes128_encrypt g' rk (add_key (cmac_chain g' rk data (n - 1) (replicate 16 0)) (cmac_last (word_block w) (word_block (gf_double w)) m)))"
    by (simp only: aes_cmac_def Let_def k option.case prod.case full r(2) r' k1 last)
  also have "add_key (cmac_chain g' rk data (n - 1) (replicate 16 0)) (cmac_last (word_block w) (word_block (gf_double w)) m) =
      map2 (XOR) (cmac_chain g' rk data (n - 1) (replicate 16 0)) (cmac_last (word_block w) (word_block (gf_double w)) m)"
    using chain lm by (intro add_key_xor) blast+
  also have "aes128_encrypt g' rk \<dots> = cmac_spec (aes128_encrypt g' rk) data"
    using chain unfolding cmac_spec_def Let_def n_def [symmetric] m_def [symmetric] w_def [symmetric] by (simp only:)
  finally show ?thesis using k by blast
qed

theorem aes_cmac_rfc4493_witness:
  "\<exists>g rk. aes128_key static_tables (replicate 16 9) = Some (g, rk) \<and>
     aes_cmac static_tables (replicate 16 9) [1, 2, 3] = Some (g, cmac_spec (aes128_encrypt g rk) [1, 2, 3])"
  using aes_cmac_rfc4493 [of static_tables "replicate 16 9" "[1, 2, 3]"] by simp

end
