(* ===== verification/P256_Field.thy ===== *)
theory P256_Field
  imports Hash
begin

text \<open>
  The field arithmetic under the P-256 code of \<^verbatim>\<open>kernel/lib/crypto.c\<close>: 256-bit integers as eight
  little-endian 32-bit limbs, addition and subtraction modulo the prime and Montgomery multiplication.
  Limbs are naturals with the machine's reductions written out; \<open>val\<close> is the number a list of limbs
  stands for, \<open>mform x v\<close> says that \<open>x\<close> is the Montgomery form of the integer \<open>v\<close>.
\<close>

subsection \<open>Limbs\<close>

type_synonym fe = "nat list"

definition P256 :: fe where
  "P256 = [0xffffffff, 0xffffffff, 0xffffffff, 0x00000000, 0x00000000, 0x00000000, 0x00000001, 0xffffffff]"

definition N256 :: fe where
  "N256 = [0xfc632551, 0xf3b9cac2, 0xa7179e84, 0xbce6faad, 0xffffffff, 0xffffffff, 0x00000000, 0xffffffff]"

definition B256 :: fe where
  "B256 = [0x27d2604b, 0x3bce3c3e, 0xcc53b0f6, 0x651d06b0, 0x769886bc, 0xb3ebbd55, 0xaa3a93e7, 0x5ac635d8]"

definition GX256 :: fe where
  "GX256 = [0xd898c296, 0xf4a13945, 0x2deb33a0, 0x77037d81, 0x63a440f2, 0xf8bce6e5, 0xe12c4247, 0x6b17d1f2]"

definition GY256 :: fe where
  "GY256 = [0x37bf51f5, 0xcbb64068, 0x6b315ece, 0x2bce3357, 0x7c0f9e16, 0x8ee7eb4a, 0xfe1a7f9b, 0x4fe342e2]"

definition fe_one :: fe where
  "fe_one = [1, 0, 0, 0, 0, 0, 0, 0]"

definition fe_zero :: fe where
  "fe_zero = [0, 0, 0, 0, 0, 0, 0, 0]"

definition fe_is_zero :: "fe \<Rightarrow> bool" where
  "fe_is_zero a = (fold (OR) a 0 = 0)"

text \<open>The comparison walks the limbs from the top: the lists are given most significant limb first.\<close>

fun cmp_from_top :: "nat list \<Rightarrow> nat list \<Rightarrow> int" where
  "cmp_from_top (a # as) (b # bs) = (if a \<noteq> b then (if a < b then - 1 else 1) else cmp_from_top as bs)"
| "cmp_from_top _ _ = 0"

definition fe_cmp :: "fe \<Rightarrow> fe \<Rightarrow> int" where
  "fe_cmp a b = cmp_from_top (rev a) (rev b)"

definition fe_eq :: "fe \<Rightarrow> fe \<Rightarrow> bool" where
  "fe_eq a b = (fe_cmp a b = 0)"

fun add_loop :: "nat list \<Rightarrow> nat list \<Rightarrow> nat \<Rightarrow> nat list \<times> nat" where
  "add_loop (a # as) (b # bs) c =
     (let s = wrap64 (a + b + c); (r, c) = add_loop as bs (s div 2 ^ 32) in (s mod 2 ^ 32 # r, c))"
| "add_loop _ _ c = ([], c)"

definition add_limbs :: "fe \<Rightarrow> fe \<Rightarrow> fe \<times> nat" where
  "add_limbs a b = add_loop a b 0"

fun sub_loop :: "nat list \<Rightarrow> nat list \<Rightarrow> nat \<Rightarrow> nat list \<times> nat" where
  "sub_loop (a # as) (b # bs) bo =
     (let d = int a - int b - int bo; (r, bo) = sub_loop as bs (if d < 0 then 1 else 0) in (nat (d mod 2 ^ 32) # r, bo))"
| "sub_loop _ _ bo = ([], bo)"

definition sub_limbs :: "fe \<Rightarrow> fe \<Rightarrow> fe \<times> nat" where
  "sub_limbs a b = sub_loop a b 0"

definition fp_add :: "fe \<Rightarrow> fe \<Rightarrow> fe" where
  "fp_add a b = (let (r, c) = add_limbs a b; (t, bo) = sub_limbs r P256 in if c \<noteq> 0 \<or> bo = 0 then t else r)"

definition fp_sub :: "fe \<Rightarrow> fe \<Rightarrow> fe" where
  "fp_sub a b = (let (r, bo) = sub_limbs a b in if bo \<noteq> 0 then fst (add_limbs r P256) else r)"

definition fe_from_be :: "u8 list \<Rightarrow> fe" where
  "fe_from_be b = map (\<lambda>j. unat (load_be32 b (7 - j))) [0 ..< 8]"

definition fe_to_be :: "fe \<Rightarrow> u8 list" where
  "fe_to_be r = concat (map (\<lambda>j. be32_bytes (of_nat (r ! (7 - j)))) [0 ..< 8])"

subsection \<open>Montgomery arithmetic\<close>

text \<open>One row of multiply and add with a 64-bit accumulator.\<close>

fun mul_row :: "nat list \<Rightarrow> nat \<Rightarrow> nat list \<Rightarrow> nat \<Rightarrow> nat list \<times> nat" where
  "mul_row (a # as) b (t # ts) c =
     (let s = wrap64 (a * b + t + c); (r, c) = mul_row as b ts (s div 2 ^ 32) in (s mod 2 ^ 32 # r, c))"
| "mul_row _ _ _ c = ([], c)"

text \<open>One pass of the outer loop: the words 0 to 7 and word 8; word 9 is written before it is read.\<close>

definition mont_row :: "fe \<Rightarrow> nat \<Rightarrow> nat list \<times> nat \<Rightarrow> nat list \<times> nat" where
  "mont_row a bi tt =
     (let (t, t8) = tt; (t, c) = mul_row a bi t 0;
          s = wrap64 (t8 + c); t8 = s mod 2 ^ 32; t9 = s div 2 ^ 32;
          m = t ! 0;
          c = wrap64 (m * P256 ! 0 + t ! 0) div 2 ^ 32;
          (u, c) = mul_row (tl P256) m (tl t) c;
          s = wrap64 (t8 + c)
      in (u @ [s mod 2 ^ 32], (t9 + s div 2 ^ 32) mod 2 ^ 32))"

definition mont_mul :: "fe \<Rightarrow> fe \<Rightarrow> fe" where
  "mont_mul a b =
     (let (r, t8) = fold (mont_row a) b (replicate 8 0, 0); (tmp, bo) = sub_limbs r P256
      in if t8 \<noteq> 0 \<or> bo = 0 then tmp else r)"

subsection \<open>The value of limbs\<close>

fun val :: "nat list \<Rightarrow> nat" where
  "val [] = 0"
| "val (x # xs) = x + 2 ^ 32 * val xs"

definition limbs :: "nat list \<Rightarrow> bool" where
  "limbs xs \<longleftrightarrow> (\<forall>x \<in> set xs. x < 2 ^ 32)"

lemma limbs_simps [simp]: "limbs []" "limbs (x # xs) \<longleftrightarrow> x < 2 ^ 32 \<and> limbs xs" "limbs (xs @ ys) \<longleftrightarrow> limbs xs \<and> limbs ys"
  by (auto simp: limbs_def)

lemma val_append: "val (xs @ ys) = val xs + 2 ^ (32 * length xs) * val ys"
  by (induction xs) (simp_all add: power_add algebra_simps)

lemma val_less: "limbs xs \<Longrightarrow> val xs < 2 ^ (32 * length xs)"
proof (induction xs)
  case (Cons x xs)
  then have "x < 2 ^ 32" "val xs + 1 \<le> 2 ^ (32 * length xs)" by simp_all
  then have "x + 2 ^ 32 * val xs < 2 ^ 32 * 2 ^ (32 * length xs)" by simp
  then show ?case by (simp add: power_add)
qed simp

lemma val_inj: "limbs xs \<Longrightarrow> limbs ys \<Longrightarrow> length xs = length ys \<Longrightarrow> val xs = val ys \<Longrightarrow> xs = ys"
proof (induction xs arbitrary: ys)
  case (Cons x xs)
  obtain y zs where ys: "ys = y # zs" using Cons.prems by (cases ys) auto
  have e: "x + 2 ^ 32 * val xs = y + 2 ^ 32 * val zs" using Cons.prems by (simp add: ys)
  have xy: "x < 2 ^ 32" "y < 2 ^ 32" using Cons.prems by (simp_all add: ys)
  have "x = y" using arg_cong [OF e, of "\<lambda>n. n mod 2 ^ 32"] xy by simp
  then show ?case using e Cons by (simp add: ys)
qed simp

lemma carry_step:
  fixes x y c :: nat
  assumes "m + 2 ^ 32 * q = s" and "s = x + y + c" and "v + k = a + b + q"
  shows "m + 2 ^ 32 * v + 2 ^ 32 * k = (x + 2 ^ 32 * a) + (y + 2 ^ 32 * b) + c"
proof -
  have "2 ^ 32 * v + 2 ^ 32 * k = 2 ^ 32 * a + 2 ^ 32 * b + 2 ^ 32 * q"
    using assms(3) by (metis distrib_left)
  then show ?thesis using assms(1,2) by linarith
qed

lemma limb_power: "(k :: nat) * 2 ^ (32 * Suc n) = 2 ^ 32 * (k * 2 ^ (32 * n))"
  by (simp add: power_add)

lemma add_loop_spec:
  "add_loop a b c = (r, c') \<Longrightarrow> limbs a \<Longrightarrow> limbs b \<Longrightarrow> length a = length b \<Longrightarrow> c \<le> 1 \<Longrightarrow>
   limbs r \<and> length r = length a \<and> c' \<le> 1 \<and> val r + c' * 2 ^ (32 * length a) = val a + val b + c"
proof (induction a b c arbitrary: r c' rule: add_loop.induct)
  case (1 x as y bs c)
  define s where "s = x + y + c"
  have s: "s < 2 ^ 33" "wrap64 (x + y + c) = s" using 1(3-) by (simp_all add: s_def wrap64_def)
  then have sd: "s div 2 ^ 32 \<le> 1" "s mod 2 ^ 32 + 2 ^ 32 * (s div 2 ^ 32) = s" by (simp_all add: div_le_mono)
  obtain r' where r': "add_loop as bs (s div 2 ^ 32) = (r', c')" "r = s mod 2 ^ 32 # r'"
    using 1(2) s by (auto simp: Let_def split: prod.splits)
  have "limbs r' \<and> length r' = length as \<and> c' \<le> 1 \<and> val r' + c' * 2 ^ (32 * length as) = val as + val bs + s div 2 ^ 32"
    using 1(1) [OF s(2) [symmetric] r'(1)] 1(3-) sd(1) by simp
  with carry_step [OF sd(2) s_def, of "val r'" "c' * 2 ^ (32 * length as)" "val as" "val bs"] show ?case
    by (simp only: r'(2) limbs_simps val.simps length_Cons limb_power) simp
qed auto

lemma sub_loop_spec:
  "sub_loop a b bo = (r, bo') \<Longrightarrow> limbs a \<Longrightarrow> limbs b \<Longrightarrow> length a = length b \<Longrightarrow> bo \<le> 1 \<Longrightarrow>
   limbs r \<and> length r = length a \<and> bo' \<le> 1 \<and> val r + val b + bo = val a + bo' * 2 ^ (32 * length a)"
proof (induction a b bo arbitrary: r bo' rule: sub_loop.induct)
  case (1 x as y bs bo)
  define d where "d = int x - int y - int bo"
  define b1 where "b1 = (if d < 0 then 1 else 0 :: nat)"
  have "d mod 2 ^ 32 = d + 2 ^ 32 * int b1"
  proof -
    have "- (2 ^ 32) \<le> d" "d < 2 ^ 32" using 1(3-) by (simp_all add: d_def)
    then show ?thesis
    proof (cases "d < 0")
      case True
      have "d mod 2 ^ 32 = (d + 2 ^ 32) mod 2 ^ 32" by simp
      also have "\<dots> = d + 2 ^ 32" using True \<open>- (2 ^ 32) \<le> d\<close> by (intro mod_pos_pos_trivial) simp_all
      finally show ?thesis using True by (simp add: b1_def)
    qed (simp add: b1_def)
  qed
  then have m: "nat (d mod 2 ^ 32) < 2 ^ 32" "nat (d mod 2 ^ 32) + y + bo = x + 2 ^ 32 * b1"
    by (auto simp: d_def nat_less_iff)
  obtain r' where r': "sub_loop as bs b1 = (r', bo')" "r = nat (d mod 2 ^ 32) # r'"
    using 1(2) by (auto simp: Let_def b1_def d_def split: prod.splits)
  have "limbs r' \<and> length r' = length as \<and> bo' \<le> 1 \<and> val r' + val bs + b1 = val as + bo' * 2 ^ (32 * length as)"
    using 1(1) [OF d_def, of r' bo'] r'(1) 1(3-) by (simp add: b1_def)
  then have e: "val as + bo' * 2 ^ (32 * length as) = val r' + val bs + b1" and r: "limbs r'" "length r' = length as" "bo' \<le> 1"
    by simp_all
  have "x + 2 ^ 32 * b1 = nat (d mod 2 ^ 32) + y + bo" using m by simp
  have "2 ^ 32 * val as + 2 ^ 32 * (bo' * 2 ^ (32 * length as)) = 2 ^ 32 * val r' + 2 ^ 32 * val bs + 2 ^ 32 * b1"
    using e by (metis distrib_left)
  then show ?case using m r by (simp only: r'(2) limbs_simps val.simps length_Cons limb_power simp_thms)
qed auto

lemmas add_limbs_spec = add_loop_spec [where c = 0, folded add_limbs_def, simplified]
lemmas sub_limbs_spec = sub_loop_spec [where bo = 0, folded sub_limbs_def, simplified]

lemma cmp_from_top_spec:
  "limbs a \<Longrightarrow> limbs b \<Longrightarrow> length a = length b \<Longrightarrow>
   cmp_from_top a b = (if val (rev a) < val (rev b) then - 1 else if val (rev a) = val (rev b) then 0 else 1)"
proof (induction a b rule: cmp_from_top.induct)
  case (1 x as y bs)
  have l: "limbs (rev as)" "limbs (rev bs)" "length (rev as) = length (rev bs)" using 1(2-) by (simp_all add: limbs_def)
  let ?W = "2 ^ (32 * length bs) :: nat"
  have v: "val (rev (x # as)) = val (rev as) + ?W * x" "val (rev (y # bs)) = val (rev bs) + ?W * y"
    using l by (simp_all add: val_append)
  have b: "val (rev as) < ?W" "val (rev bs) < ?W" using val_less [OF l(1)] val_less [OF l(2)] l(3) by simp_all
  have step: "val (rev as) + ?W * u < val (rev bs) + ?W * w" "val (rev bs) + ?W * u < val (rev as) + ?W * w" if "u < w" for u w
  proof -
    have "?W * u + ?W \<le> ?W * w" using that mult_le_mono2 [of "Suc u" w ?W] by simp
    then show "val (rev as) + ?W * u < val (rev bs) + ?W * w" "val (rev bs) + ?W * u < val (rev as) + ?W * w" using b by linarith+
  qed
  show ?case
  proof (cases "x = y")
    case True
    then show ?thesis unfolding v using 1 by simp
  next
    case False
    then show ?thesis unfolding v using step(1) [of x y] step(2) [of y x] by (auto simp: not_less)
  qed
qed auto

lemma fe_cmp_spec:
  "limbs a \<Longrightarrow> limbs b \<Longrightarrow> length a = length b \<Longrightarrow>
   fe_cmp a b = (if val a < val b then - 1 else if val a = val b then 0 else 1)"
  using cmp_from_top_spec [of "rev a" "rev b"] by (simp add: fe_cmp_def limbs_def)

lemma fe_is_zero_val: "fe_is_zero a \<longleftrightarrow> val a = 0"
proof -
  have "fold (OR) a x = 0 \<longleftrightarrow> x = 0 \<and> (\<forall>y \<in> set a. y = 0)" for x :: nat
  proof (induction a arbitrary: x)
    case (Cons y a)
    have "y OR x = 0 \<longleftrightarrow> y = 0 \<and> x = 0" by (simp add: or_eq_0_iff)
    then show ?case using Cons by auto
  qed simp
  moreover have "val a = 0 \<longleftrightarrow> (\<forall>y \<in> set a. y = 0)" by (induction a) auto
  ultimately show ?thesis by (simp add: fe_is_zero_def)
qed

subsection \<open>Arithmetic modulo the prime\<close>

definition p256 :: nat where
  "p256 = 2 ^ 256 - 2 ^ 224 + 2 ^ 192 + 2 ^ 96 - 1"

lemma val_P256 [simp]: "val P256 = p256"
  by (simp add: P256_def p256_def)

lemma limbs_consts [simp]:
  "limbs P256" "length P256 = 8" "limbs N256" "length N256 = 8" "limbs B256" "length B256 = 8"
  "limbs fe_one" "length fe_one = 8" "val fe_one = 1" "limbs fe_zero" "length fe_zero = 8" "val fe_zero = 0"
  by (simp_all add: P256_def N256_def B256_def fe_one_def fe_zero_def limbs_def)

text \<open>A reduced field element.\<close>

definition fe_ok :: "fe \<Rightarrow> bool" where
  "fe_ok a \<longleftrightarrow> limbs a \<and> length a = 8 \<and> val a < p256"

lemma sub_limbs_mod:
  assumes "limbs a" "length a = 8" "limbs b" "length b = 8" "sub_limbs a b = (r, bo)"
  shows "limbs r" and "length r = 8" and "bo = (if val a < val b then 1 else 0)"
    and "val r = (if val a < val b then val a + 2 ^ 256 - val b else val a - val b)"
proof -
  have s: "limbs r" "length r = 8" "bo \<le> 1" "val r + val b = val a + bo * 2 ^ 256"
    using sub_limbs_spec [OF assms(5,1,3)] assms(2,4) by simp_all
  have r: "val r < 2 ^ 256" "val b < 2 ^ 256" using val_less [OF s(1)] val_less [OF assms(3)] s(2) assms(4) by simp_all
  show "limbs r" "length r = 8" by (rule s)+
  consider "bo = 0" | "bo = 1" using s(3) by linarith
  then show "bo = (if val a < val b then 1 else 0)"
    and "val r = (if val a < val b then val a + 2 ^ 256 - val b else val a - val b)"
    using s(4) r by (cases; simp)+
qed

lemma add_limbs_mod:
  assumes "limbs a" "length a = 8" "limbs b" "length b = 8" "add_limbs a b = (r, c)"
  shows "limbs r" and "length r = 8" and "c \<le> 1" and "val r + c * 2 ^ 256 = val a + val b"
  using add_limbs_spec [OF assms(5,1,3)] assms(2,4) by simp_all

lemma p256_bounds: "2 ^ 255 < p256" "p256 < 2 ^ 256"
  by (simp_all add: p256_def)

lemma mod_once: "T < 2 * p \<Longrightarrow> (if T < p then T else T - p) = T mod (p :: nat)"
  by (simp add: le_mod_geq)

lemma reduce_once:
  assumes "limbs t" "length t = 8" "c \<le> 1" "val t + c * 2 ^ 256 < 2 * p256" "sub_limbs t P256 = (u, bo)"
  shows "fe_ok (if c \<noteq> 0 \<or> bo = 0 then u else t)"
    and "val (if c \<noteq> 0 \<or> bo = 0 then u else t) = (val t + c * 2 ^ 256) mod p256"
proof -
  note u = sub_limbs_mod [OF assms(1,2) _ _ assms(5), simplified val_P256, OF limbs_consts(1,2)]
  define T where "T = val t + c * 2 ^ 256"
  have le: "val t < 2 ^ 256" using val_less [OF assms(1)] assms(2) by simp
  consider "c = 0" "val t < p256" | "c = 0" "\<not> val t < p256" | "c = 1" using assms(3) by linarith
  then have "fe_ok (if c \<noteq> 0 \<or> bo = 0 then u else t) \<and> val (if c \<noteq> 0 \<or> bo = 0 then u else t) = (if T < p256 then T else T - p256)"
    using u assms(1,2,4) le p256_bounds by cases (auto simp: fe_ok_def T_def)
  moreover have "(if T < p256 then T else T - p256) = T mod p256"
    using assms(4) by (intro mod_once) (simp add: T_def)
  ultimately show "fe_ok (if c \<noteq> 0 \<or> bo = 0 then u else t)"
    and "val (if c \<noteq> 0 \<or> bo = 0 then u else t) = (val t + c * 2 ^ 256) mod p256" by (auto simp: T_def)
qed

lemma fp_add_spec:
  assumes "fe_ok a" "fe_ok b"
  shows "fe_ok (fp_add a b)" and "val (fp_add a b) = (val a + val b) mod p256"
proof -
  obtain r c t bo where e: "add_limbs a b = (r, c)" "sub_limbs r P256 = (t, bo)"
    by (cases "add_limbs a b", cases "sub_limbs (fst (add_limbs a b)) P256") auto
  note s = add_limbs_mod [OF _ _ _ _ e(1)]
  have f: "limbs a" "length a = 8" "limbs b" "length b = 8" "val a < p256" "val b < p256" using assms by (simp_all add: fe_ok_def)
  note s = s [OF f(1-4)]
  have "val r + c * 2 ^ 256 < 2 * p256" using s(4) f(5,6) by linarith
  note r = reduce_once [OF s(1-3) this e(2)]
  show "fe_ok (fp_add a b)" "val (fp_add a b) = (val a + val b) mod p256"
    using r s(4) by (simp_all add: fp_add_def e)
qed

lemma fp_sub_spec:
  assumes "fe_ok a" "fe_ok b"
  shows "fe_ok (fp_sub a b)" and "val (fp_sub a b) = (val a + (p256 - val b)) mod p256"
proof -
  obtain r bo t c where e: "sub_limbs a b = (r, bo)" "add_limbs r P256 = (t, c)"
    by (cases "sub_limbs a b", cases "add_limbs (fst (sub_limbs a b)) P256") auto
  have f: "limbs a" "length a = 8" "limbs b" "length b = 8" "val a < p256" "val b < p256" using assms by (simp_all add: fe_ok_def)
  note s = sub_limbs_mod [OF f(1-4) e(1)]
  note u = add_limbs_mod [OF s(1,2) _ _ e(2), simplified val_P256, OF limbs_consts(1,2)]
  have m: "(val a + (p256 - val b)) mod p256 = (if val a < val b then val a + p256 - val b else val a - val b)"
  proof -
    have "val a + (p256 - val b) < 2 * p256" using f(5,6) by linarith
    from mod_once [OF this] show ?thesis using f(5,6) by (simp split: if_splits)
  qed
  have "fe_ok (fp_sub a b) \<and> val (fp_sub a b) = (if val a < val b then val a + p256 - val b else val a - val b)"
  proof (cases "val a < val b")
    case True
    have t: "val t < 2 ^ 256" using val_less [OF u(1)] u(2) by simp
    have e1: "val t + c * 2 ^ 256 + val b = val a + 2 ^ 256 + p256" using u(4) s(4) True f p256_bounds by simp
    have "c \<noteq> 0"
    proof
      assume "c = 0"
      then have "val t + val b = val a + 2 ^ 256 + p256" using e1 by simp
      then show False using t f(6) by linarith
    qed
    then have "c = 1" using u(3) by simp
    then have "val t + val b = val a + p256" using e1 by simp
    then have "val t = val a + p256 - val b" by simp
    then show ?thesis using True s(3) u(1,2) f by (auto simp: fp_sub_def e fe_ok_def)
  next
    case False
    then show ?thesis using s f by (auto simp: fp_sub_def e fe_ok_def)
  qed
  then show "fe_ok (fp_sub a b)" "val (fp_sub a b) = (val a + (p256 - val b)) mod p256" using m by auto
qed

subsection \<open>Montgomery multiplication\<close>

lemma mac_bound:
  assumes "a < 2 ^ 32" "b < 2 ^ 32" "t < 2 ^ 32" "c < (2 ^ 32 :: nat)"
  shows "a * b + t + c < 2 ^ 64"
proof -
  have "a * b \<le> (2 ^ 32 - 1) * (2 ^ 32 - 1)" using assms by (intro mult_mono) auto
  then show ?thesis using assms by simp
qed

lemma mul_row_spec:
  "mul_row a b t c = (r, c') \<Longrightarrow> limbs a \<Longrightarrow> limbs t \<Longrightarrow> length a = length t \<Longrightarrow> b < 2 ^ 32 \<Longrightarrow> c < 2 ^ 32 \<Longrightarrow>
   limbs r \<and> length r = length a \<and> c' < 2 ^ 32 \<and> val r + c' * 2 ^ (32 * length a) = val a * b + val t + c"
proof (induction a b t c arbitrary: r c' rule: mul_row.induct)
  case (1 x as b y ts c)
  define s where "s = x * b + y + c"
  have s: "s < 2 ^ 64" "wrap64 (x * b + y + c) = s"
    using mac_bound [of x b y c] 1(3-) by (simp_all add: s_def wrap64_def)
  then have sd: "s div 2 ^ 32 < 2 ^ 32" "s mod 2 ^ 32 + 2 ^ 32 * (s div 2 ^ 32) = s" by (simp_all add: div_less_iff_less_mult less_mult_imp_div_less)
  obtain r' where r': "mul_row as b ts (s div 2 ^ 32) = (r', c')" "r = s mod 2 ^ 32 # r'"
    using 1(2) s by (auto simp: Let_def split: prod.splits)
  have IH: "limbs r' \<and> length r' = length as \<and> c' < 2 ^ 32 \<and> val r' + c' * 2 ^ (32 * length as) = val as * b + val ts + s div 2 ^ 32"
    using 1(1) [OF s(2) [symmetric] r'(1)] 1(3-) sd(1) by simp
  with carry_step [OF sd(2) s_def, of "val r'" "c' * 2 ^ (32 * length as)" "val as * b" "val ts"]
  have "s mod 2 ^ 32 + 2 ^ 32 * val r' + 2 ^ 32 * (c' * 2 ^ (32 * length as)) = x * b + 2 ^ 32 * (val as * b) + (y + 2 ^ 32 * val ts) + c"
    by simp
  with IH show ?case
    by (simp only: r'(2) limbs_simps val.simps length_Cons limb_power) (simp add: distrib_right mult.assoc)
qed auto

lemma split_limb:
  assumes "s < 2 ^ 64"
  shows "wrap64 s = s" and "s mod 2 ^ 32 + 2 ^ 32 * (s div 2 ^ 32) = (s :: nat)" and "s mod 2 ^ 32 < 2 ^ 32"
  using assms by (simp_all add: wrap64_def)

lemma P256_tl: "limbs (tl P256)" "length (tl P256) = 7" "P256 ! 0 = 2 ^ 32 - 1" "p256 = 2 ^ 32 * val (tl P256) + (2 ^ 32 - 1)"
proof -
  have "P256 = P256 ! 0 # tl P256" by (simp add: P256_def)
  then have "val P256 = P256 ! 0 + 2 ^ 32 * val (tl P256)" by (metis val.simps(2))
  moreover show "P256 ! 0 = 2 ^ 32 - 1" by (simp add: P256_def)
  ultimately show "p256 = 2 ^ 32 * val (tl P256) + (2 ^ 32 - 1)" by simp
qed (simp_all add: P256_def)

lemma mont_row_spec:
  assumes "limbs a" "length a = 8" "bi < 2 ^ 32" "limbs t" "length t = 8" "t8 < 2 ^ 32" "mont_row a bi (t, t8) = (u, u8)"
  shows "limbs u \<and> length u = 8 \<and> u8 < 2 ^ 32 \<and>
    (\<exists>m < 2 ^ 32. 2 ^ 32 * (val u + u8 * 2 ^ 256) = val t + t8 * 2 ^ 256 + val a * bi + m * p256)"
proof -
  obtain t1 c1 where 1: "mul_row a bi t 0 = (t1, c1)" by (cases "mul_row a bi t 0")
  have t1: "limbs t1" "length t1 = 8" "c1 < 2 ^ 32" "val t1 + c1 * 2 ^ 256 = val a * bi + val t"
    using mul_row_spec [OF 1 assms(1,4)] assms(2,3,5) by simp_all
  obtain m ts where ts: "t1 = m # ts" using t1(2) by (cases t1) auto
  have m: "m < 2 ^ 32" "limbs ts" "length ts = 7" "val t1 = m + 2 ^ 32 * val ts" using t1(1,2) by (simp_all add: ts)
  define s1 where "s1 = t8 + c1"
  have s1: "s1 < 2 ^ 33" using assms(6) t1(3) by (simp add: s1_def)
  define s1m where "s1m = s1 mod 2 ^ 32"
  define s1d where "s1d = s1 div 2 ^ 32"
  have w1: "wrap64 (t8 + c1) = s1" "s1m + 2 ^ 32 * s1d = s1" "s1m < 2 ^ 32" "s1d \<le> 1"
    using split_limb [of s1] s1 by (simp_all add: s1_def [symmetric] s1m_def s1d_def less_mult_imp_div_less [of _ 2, simplified less_2_cases_iff])
  have pm: "m * P256 ! 0 + m = m * 2 ^ 32" unfolding P256_tl(3) by simp
  have c2: "wrap64 (m * P256 ! 0 + m) div 2 ^ 32 = m" unfolding pm using m(1) by (simp add: wrap64_def)
  obtain w c3 where 2: "mul_row (tl P256) m ts m = (w, c3)" by (cases "mul_row (tl P256) m ts m")
  have w: "limbs w" "length w = 7" "c3 < 2 ^ 32" "val w + c3 * 2 ^ 224 = val (tl P256) * m + val ts + m"
    using mul_row_spec [OF 2 P256_tl(1) m(2)] m(1,3) P256_tl(2) by simp_all
  define s2 where "s2 = s1m + c3"
  have s2: "s2 < 2 ^ 33" using w1(3) w(3) by (simp add: s2_def)
  define s2m where "s2m = s2 mod 2 ^ 32"
  define s2d where "s2d = s2 div 2 ^ 32"
  have w2: "wrap64 (s1m + c3) = s2" "s2m + 2 ^ 32 * s2d = s2" "s2m < 2 ^ 32" "s2d \<le> 1"
    using split_limb [of s2] s2 by (simp_all add: s2_def [symmetric] s2m_def s2d_def less_mult_imp_div_less [of _ 2, simplified less_2_cases_iff])
  have u: "u = w @ [s2m]" "u8 = s1d + s2d"
    using assms(7) w1 w2 c2
    by (simp_all add: mont_row_def Let_def 1 ts 2 s1m_def [symmetric, simplified] s1d_def [symmetric, simplified]
        s2m_def [symmetric, simplified] s2d_def [symmetric, simplified] split: prod.splits)
  have "val u + u8 * 2 ^ 256 = val w + 2 ^ 224 * s2m + (s1d + s2d) * 2 ^ 256" using w(2) by (simp add: u val_append)
  then have "2 ^ 32 * (val u + u8 * 2 ^ 256) = 2 ^ 32 * val w + 2 ^ 256 * s2 + 2 ^ 288 * s1d" using w2(2) by simp
  also have "\<dots> = 2 ^ 32 * (val (tl P256) * m) + 2 ^ 32 * val ts + 2 ^ 32 * m + 2 ^ 256 * s1"
    using w(4) w1(2) by (simp add: s2_def)
  also have "\<dots> = m * p256 + val t1 + 2 ^ 256 * (t8 + c1)"
    unfolding P256_tl(4) m(4) s1_def by (simp add: algebra_simps)
  also have "\<dots> = val t + t8 * 2 ^ 256 + val a * bi + m * p256" using t1(4) by simp
  finally have "2 ^ 32 * (val u + u8 * 2 ^ 256) = val t + t8 * 2 ^ 256 + val a * bi + m * p256" .
  then show ?thesis using m(1) w1(4) w2(3,4) w(1,2) by (auto simp: u)
qed

lemma mont_fold_spec:
  assumes "fe_ok a"
  shows "limbs bs \<Longrightarrow> fold (mont_row a) bs (replicate 8 0, 0) = (t, t8) \<Longrightarrow>
    limbs t \<and> length t = 8 \<and> t8 < 2 ^ 32 \<and> val t + t8 * 2 ^ 256 < 2 * p256 \<and>
    (\<exists>k. (val t + t8 * 2 ^ 256) * 2 ^ (32 * length bs) = val a * val bs + k * p256)"
proof (induction bs arbitrary: t t8 rule: rev_induct)
  case Nil
  then have z: "t = fe_zero" "t8 = 0" by (simp_all add: fe_zero_def numeral_eq_Suc)
  show ?case using p256_bounds by (simp add: z)
next
  case (snoc b bs)
  obtain t' t8' where f: "fold (mont_row a) bs (replicate 8 0, 0) = (t', t8')"
    by (cases "fold (mont_row a) bs (replicate 8 0, 0)")
  then have row: "mont_row a b (t', t8') = (t, t8)" using snoc.prems(2) by simp
  have b: "limbs bs" "b < 2 ^ 32" using snoc.prems(1) by simp_all
  obtain k where IH: "limbs t'" "length t' = 8" "t8' < 2 ^ 32" "val t' + t8' * 2 ^ 256 < 2 * p256"
      "(val t' + t8' * 2 ^ 256) * 2 ^ (32 * length bs) = val a * val bs + k * p256"
    using snoc.IH [OF b(1) f] by blast
  have a: "limbs a" "length a = 8" "val a < p256" using assms by (simp_all add: fe_ok_def)
  obtain m where m: "m < 2 ^ 32" "2 ^ 32 * (val t + t8 * 2 ^ 256) = val t' + t8' * 2 ^ 256 + val a * b + m * p256"
      "limbs t" "length t = 8" "t8 < 2 ^ 32"
    using mont_row_spec [OF a(1,2) b(2) IH(1-3) row] by blast
  define T where "T = val t + t8 * 2 ^ 256"
  define T' where "T' = val t' + t8' * 2 ^ 256"
  have e: "2 ^ 32 * T = T' + val a * b + m * p256" using m(2) by (simp add: T_def T'_def)
  have "val a * b \<le> p256 * 4294967295" "m * p256 \<le> 4294967295 * p256" using a(3) b(2) m(1) by (intro mult_mono; simp)+
  moreover have "T' < 2 * p256" using IH(4) by (simp add: T'_def)
  moreover have "2 ^ 32 * (2 * p256) = 8589934592 * p256" by simp
  ultimately have "2 ^ 32 * T < 2 ^ 32 * (2 * p256)" unfolding e by linarith
  then have lt: "T < 2 * p256" by (simp only: mult_less_cancel1)
  have "T * 2 ^ (32 * length (bs @ [b])) = 2 ^ 32 * T * 2 ^ (32 * length bs)" by (simp add: power_add)
  also have "\<dots> = T' * 2 ^ (32 * length bs) + (val a * b + m * p256) * 2 ^ (32 * length bs)" unfolding e by (simp add: algebra_simps)
  also have "\<dots> = val a * val (bs @ [b]) + (k + m * 2 ^ (32 * length bs)) * p256"
    using IH(5) by (simp add: T'_def val_append algebra_simps)
  finally have "\<exists>k. T * 2 ^ (32 * length (bs @ [b])) = val a * val (bs @ [b]) + k * p256" by blast
  then show ?case using m(3-5) lt by (simp add: T_def)
qed

lemma mont_mul_spec:
  assumes "fe_ok a" "limbs b" "length b = 8"
  shows "fe_ok (mont_mul a b)" and "(val (mont_mul a b) * 2 ^ 256) mod p256 = (val a * val b) mod p256"
proof -
  obtain t t8 u bo where e: "fold (mont_row a) b (replicate 8 0, 0) = (t, t8)" "sub_limbs t P256 = (u, bo)"
    by (cases "fold (mont_row a) b (replicate 8 0, 0)", cases "sub_limbs (fst (fold (mont_row a) b (replicate 8 0, 0))) P256") auto
  obtain k where f: "limbs t" "length t = 8" "val t + t8 * 2 ^ 256 < 2 * p256"
      "(val t + t8 * 2 ^ 256) * 2 ^ 256 = val a * val b + k * p256"
    using mont_fold_spec [OF assms(1,2) e(1)] assms(3) by auto
  have "t8 * 2 ^ 256 < 2 * 2 ^ 256" using f(3) p256_bounds by linarith
  then have "t8 < 2" by (simp only: mult_less_cancel2)
  then have c: "t8 \<le> 1" by simp
  note r = reduce_once [OF f(1,2) c f(3) e(2)]
  show "fe_ok (mont_mul a b)" using r(1) by (simp add: mont_mul_def e)
  have "(val (mont_mul a b) * 2 ^ 256) mod p256 = ((val t + t8 * 2 ^ 256) * 2 ^ 256) mod p256"
    using r(2) mod_mult_left_eq [of "val t + t8 * 2 ^ 256" p256 "2 ^ 256"] by (simp add: mont_mul_def e)
  then show "(val (mont_mul a b) * 2 ^ 256) mod p256 = (val a * val b) mod p256" unfolding f(4) by simp
qed

subsection \<open>Montgomery form\<close>

text \<open>Equality modulo the prime, and the element that stands for an integer in Montgomery form.\<close>

definition eqp :: "int \<Rightarrow> int \<Rightarrow> bool" where
  "eqp x y \<longleftrightarrow> x mod int p256 = y mod int p256"

definition mform :: "fe \<Rightarrow> int \<Rightarrow> bool" where
  "mform x v \<longleftrightarrow> fe_ok x \<and> eqp (int (val x)) (v * 2 ^ 256)"

lemma eqp_refl [simp]: "eqp x x"
  and eqp_sym: "eqp x y \<Longrightarrow> eqp y x"
  and eqp_trans [trans]: "eqp x y \<Longrightarrow> eqp y z \<Longrightarrow> eqp x z"
  by (simp_all add: eqp_def)

lemma eqp_add: "eqp x y \<Longrightarrow> eqp x' y' \<Longrightarrow> eqp (x + x') (y + y')"
  and eqp_diff: "eqp x y \<Longrightarrow> eqp x' y' \<Longrightarrow> eqp (x - x') (y - y')"
  and eqp_mult: "eqp x y \<Longrightarrow> eqp x' y' \<Longrightarrow> eqp (x * x') (y * y')"
  unfolding eqp_def by (blast intro: mod_add_cong mod_diff_cong mod_mult_cong)+

lemma eqp_power: "eqp x y \<Longrightarrow> eqp (x ^ n) (y ^ n)"
  by (induction n) (simp_all add: eqp_mult)

lemma eqp_nat: "m mod p256 = n mod p256 \<longleftrightarrow> eqp (int m) (int n)"
  by (simp add: eqp_def zmod_int [symmetric])

lemma eqp_mod: "eqp (int (n mod p256)) (int n)"
  by (simp add: eqp_nat [symmetric])

lemma eqp_p256: "eqp (x + int p256 * y) x"
  by (simp add: eqp_def)

lemma R_inverse: "eqp (2 ^ 256 * 115792089183396302114378112356516095823261736990586219612555396166510339686400) 1"
  by (simp add: eqp_def p256_def)

lemma eqp_cancel_R:
  assumes "eqp (x * 2 ^ 256) (y * 2 ^ 256)"
  shows "eqp x y"
proof -
  let ?i = "115792089183396302114378112356516095823261736990586219612555396166510339686400 :: int"
  have r: "eqp (z * 2 ^ 256 * ?i) z" for z
    using eqp_mult [OF eqp_refl [of z] R_inverse] by (simp only: mult.assoc mult_1_right)
  show ?thesis using eqp_trans [OF eqp_trans [OF eqp_sym [OF r] eqp_mult [OF assms eqp_refl]] r] .
qed

lemma mform_ok: "mform x v \<Longrightarrow> fe_ok x"
  by (simp add: mform_def)

lemma fe_okD: "fe_ok x \<Longrightarrow> limbs x \<and> length x = 8 \<and> val x < p256"
  by (simp add: fe_ok_def)

lemma mform_mul:
  assumes "mform a u" "mform b v"
  shows "mform (mont_mul a b) (u * v)"
proof -
  have b: "limbs b" "length b = 8" using assms(2) by (simp_all add: mform_def fe_ok_def)
  note m = mont_mul_spec [OF mform_ok [OF assms(1)] b]
  have "eqp (int (val (mont_mul a b)) * 2 ^ 256) (int (val a) * int (val b))" using m(2) by (simp add: eqp_nat)
  also have "eqp \<dots> (u * 2 ^ 256 * (v * 2 ^ 256))" using assms by (intro eqp_mult) (simp_all add: mform_def)
  finally have "eqp (int (val (mont_mul a b)) * 2 ^ 256) (u * v * 2 ^ 256 * 2 ^ 256)" by (simp only: mult.assoc mult.left_commute)
  from eqp_cancel_R [OF this] m(1) show ?thesis unfolding mform_def by blast
qed

lemma mform_add:
  assumes "mform a u" "mform b v"
  shows "mform (fp_add a b) (u + v)"
proof -
  note m = fp_add_spec [OF mform_ok [OF assms(1)] mform_ok [OF assms(2)]]
  have "eqp (int (val (fp_add a b))) (int (val a) + int (val b))" unfolding m(2) using eqp_mod [of "val a + val b"] by simp
  also have "eqp \<dots> (u * 2 ^ 256 + v * 2 ^ 256)" using assms by (intro eqp_add) (simp_all add: mform_def)
  finally show ?thesis using m(1) by (simp only: mform_def distrib_right)
qed

lemma mform_sub:
  assumes "mform a u" "mform b v"
  shows "mform (fp_sub a b) (u - v)"
proof -
  note m = fp_sub_spec [OF mform_ok [OF assms(1)] mform_ok [OF assms(2)]]
  have "val b < p256" using assms(2) by (simp add: mform_def fe_ok_def)
  then have "int (val a + (p256 - val b)) = int (val a) - int (val b) + int p256 * 1" by simp
  then have "eqp (int (val (fp_sub a b))) (int (val a) - int (val b))"
    unfolding m(2) using eqp_trans [OF eqp_mod [of "val a + (p256 - val b)"]] eqp_p256 [of "int (val a) - int (val b)" 1] by metis
  also have "eqp \<dots> (u * 2 ^ 256 - v * 2 ^ 256)" using assms by (intro eqp_diff) (simp_all add: mform_def)
  finally show ?thesis using m(1) by (simp only: mform_def left_diff_distrib)
qed

lemma eqp_small: "m < p256 \<Longrightarrow> n < p256 \<Longrightarrow> eqp (int m) (int n) \<Longrightarrow> m = n"
  by (simp add: eqp_nat [symmetric])

lemma mform_eq:
  assumes "mform a u" "mform b v"
  shows "fe_eq a b \<longleftrightarrow> eqp u v"
proof -
  have ab: "limbs a" "length a = 8" "val a < p256" "limbs b" "length b = 8" "val b < p256" using assms by (simp_all add: mform_def fe_ok_def)
  have "fe_eq a b \<longleftrightarrow> val a = val b" using fe_cmp_spec [OF ab(1,4)] ab by (simp add: fe_eq_def)
  also have "\<dots> \<longleftrightarrow> eqp (int (val a)) (int (val b))" using eqp_small ab by auto
  also have "\<dots> \<longleftrightarrow> eqp (u * 2 ^ 256) (v * 2 ^ 256)"
    using assms unfolding mform_def by (meson eqp_sym eqp_trans)
  also have "\<dots> \<longleftrightarrow> eqp u v" using eqp_cancel_R [of u v] eqp_mult [OF _ eqp_refl, of u v "2 ^ 256"] by (rule iffI)
  finally show ?thesis .
qed

lemma mform_zero:
  assumes "mform a u"
  shows "fe_is_zero a \<longleftrightarrow> eqp u 0"
proof -
  have z: "mform fe_zero 0" using p256_bounds by (simp add: mform_def fe_ok_def)
  have "fe_is_zero a \<longleftrightarrow> val a = val fe_zero" by (simp add: fe_is_zero_val)
  also have "\<dots> \<longleftrightarrow> fe_eq a fe_zero"
    using fe_cmp_spec [of a fe_zero] fe_okD [OF mform_ok [OF assms]] by (simp add: fe_eq_def)
  finally show ?thesis using mform_eq [OF assms z] by simp
qed

end
