(* ===== verification/Klib.thy ===== *)
theory Klib
  imports Sic_Prelude "HOL-Library.Signed_Division"
begin

text \<open>
  The string routines of \<^verbatim>\<open>kernel/lib/string.c\<close> over a byte-addressed memory, the 64-bit division and
  atomics of \<^verbatim>\<open>kernel/lib/int64.c\<close> that 32-bit targets link against, and the symbol lookup of
  \<^verbatim>\<open>kernel/lib/symtab.c\<close>. A loop that ends at a terminator is a partial function: \<open>None\<close> is a scan that
  never meets one.
\<close>

subsection \<open>Memory and strings\<close>

type_synonym mem = "nat \<Rightarrow> u8"

fun memset_loop :: "mem \<Rightarrow> nat \<Rightarrow> u8 \<Rightarrow> nat \<Rightarrow> mem" where
  "memset_loop m d c 0 = m"
| "memset_loop m d c (Suc n) = memset_loop (m(d := c)) (d + 1) c n"

definition memset :: "mem \<Rightarrow> nat \<Rightarrow> int \<Rightarrow> nat \<Rightarrow> mem" where
  "memset m dst c n = memset_loop m dst (of_int c) n"

fun copy_up :: "mem \<Rightarrow> nat \<Rightarrow> nat \<Rightarrow> nat \<Rightarrow> mem" where
  "copy_up m d s 0 = m"
| "copy_up m d s (Suc n) = copy_up (m(d := m s)) (d + 1) (s + 1) n"

definition memcpy_mem :: "mem \<Rightarrow> nat \<Rightarrow> nat \<Rightarrow> nat \<Rightarrow> mem" where
  "memcpy_mem m dst src n = copy_up m dst src n"

text \<open>The descending loop, from one past the ends.\<close>

fun copy_down :: "mem \<Rightarrow> nat \<Rightarrow> nat \<Rightarrow> nat \<Rightarrow> mem" where
  "copy_down m d s 0 = m"
| "copy_down m d s (Suc n) = copy_down (m(d - 1 := m (s - 1))) (d - 1) (s - 1) n"

definition memmove :: "mem \<Rightarrow> nat \<Rightarrow> nat \<Rightarrow> nat \<Rightarrow> mem" where
  "memmove m d s n = (if d < s \<or> d \<ge> s + n then copy_up m d s n else copy_down m (d + n) (s + n) n)"

partial_function (option) strlen_from :: "mem \<Rightarrow> nat \<Rightarrow> nat \<Rightarrow> nat option" where
  "strlen_from m s n = (if m (s + n) \<noteq> 0 then strlen_from m s (n + 1) else Some n)"

definition strlen :: "mem \<Rightarrow> nat \<Rightarrow> nat option" where
  "strlen m s = strlen_from m s 0"

fun memcmp :: "mem \<Rightarrow> nat \<Rightarrow> nat \<Rightarrow> nat \<Rightarrow> int" where
  "memcmp m a b 0 = 0"
| "memcmp m a b (Suc n) = (if m a \<noteq> m b then int (unat (m a)) - int (unat (m b)) else memcmp m (a + 1) (b + 1) n)"

partial_function (option) strcmp :: "mem \<Rightarrow> nat \<Rightarrow> nat \<Rightarrow> int option" where
  "strcmp m a b =
     (if m a \<noteq> 0 \<and> m a = m b then strcmp m (a + 1) (b + 1) else Some (int (unat (m a)) - int (unat (m b))))"

partial_function (option) strcpy :: "mem \<Rightarrow> nat \<Rightarrow> nat \<Rightarrow> mem option" where
  "strcpy m d s = (let m' = m(d := m s) in if m s \<noteq> 0 then strcpy m' (d + 1) (s + 1) else Some m')"

partial_function (option) strstr_from :: "mem \<Rightarrow> nat \<Rightarrow> nat \<Rightarrow> nat \<Rightarrow> nat option" where
  "strstr_from m h n nl =
     (if m h \<noteq> 0 then (if memcmp m h n nl = 0 then Some h else strstr_from m (h + 1) n nl) else Some 0)"

text \<open>0 is the null pointer the function returns when there is no occurrence.\<close>

definition strstr :: "mem \<Rightarrow> nat \<Rightarrow> nat \<Rightarrow> nat option" where
  "strstr m h n = (case strlen m n of None \<Rightarrow> None | Some nl \<Rightarrow> if nl = 0 then Some h else strstr_from m h n nl)"

subsection \<open>64-bit division\<close>

text \<open>One pass of the loop at bit \<open>i\<close>, on the quotient and the remainder.\<close>

definition udiv_step :: "u64 \<Rightarrow> u64 \<Rightarrow> nat \<Rightarrow> u64 \<times> u64 \<Rightarrow> u64 \<times> u64" where
  "udiv_step n d i qr =
     (let (q, r) = qr; r = (push_bit 1 r OR (drop_bit i n AND 1))
      in if r \<ge> d then (q OR push_bit i 1, r - d) else (q, r))"

definition udiv64 :: "u64 \<Rightarrow> u64 \<Rightarrow> u64 \<times> u64" where
  "udiv64 n d = (if d = 0 then (0, 0) else fold (udiv_step n d) (rev [0 ..< 64]) (0, 0))"

definition udivdi3 :: "u64 \<Rightarrow> u64 \<Rightarrow> u64" where
  "udivdi3 n d = fst (udiv64 n d)"

definition umoddi3 :: "u64 \<Rightarrow> u64 \<Rightarrow> u64" where
  "umoddi3 n d = snd (udiv64 n d)"

definition abs64 :: "u64 \<Rightarrow> u64" where
  "abs64 n = (if sint n < 0 then - n else n)"

text \<open>
  Negating a signed 64-bit value: the most negative one overflows, which C leaves undefined (\<open>None\<close>). The
  conversion of the unsigned result before it keeps the bits.
\<close>

definition neg64 :: "u64 \<Rightarrow> u64 option" where
  "neg64 x = (if x = 0x8000000000000000 then None else Some (- x))"

definition divdi3 :: "u64 \<Rightarrow> u64 \<Rightarrow> u64 option" where
  "divdi3 n d =
     (let neg = ((sint n < 0) \<noteq> (sint d < 0)); q = fst (udiv64 (abs64 n) (abs64 d)) in if neg then neg64 q else Some q)"

definition moddi3 :: "u64 \<Rightarrow> u64 \<Rightarrow> u64 option" where
  "moddi3 n d = (let r = snd (udiv64 (abs64 n) (abs64 d)) in if sint n < 0 then neg64 r else Some r)"

text \<open>The atomics run under one lock: each is a single step on the word.\<close>

definition atomic_fetch_or_8 :: "u64 \<Rightarrow> u64 \<Rightarrow> u64 \<times> u64" where
  "atomic_fetch_or_8 p v = (p, p OR v)"

definition atomic_fetch_and_8 :: "u64 \<Rightarrow> u64 \<Rightarrow> u64 \<times> u64" where
  "atomic_fetch_and_8 p v = (p, p AND v)"

definition atomic_load_8 :: "u64 \<Rightarrow> u64" where
  "atomic_load_8 p = p"

definition atomic_store_8 :: "u64 \<Rightarrow> u64 \<Rightarrow> u64" where
  "atomic_store_8 p v = v"

subsection \<open>Kernel symbols\<close>

record kernel_sym =
  ks_addr :: nat
  ks_name :: string

function ksym_search :: "kernel_sym list \<Rightarrow> nat \<Rightarrow> nat \<Rightarrow> nat \<Rightarrow> nat" where
  "ksym_search syms addr lo hi =
     (if hi - lo > 1 then
        let mid = (lo + hi) div 2
        in if ks_addr (syms ! mid) \<le> addr then ksym_search syms addr mid hi else ksym_search syms addr lo mid
      else lo)"
  by pat_completeness auto
termination
  by (relation "measure (\<lambda>(syms, addr, lo, hi). hi - lo)") auto

declare ksym_search.simps [simp del]

text \<open>The name and the offset; the table is what the build generates.\<close>

definition ksym_name :: "kernel_sym list \<Rightarrow> nat \<Rightarrow> (string \<times> nat) option" where
  "ksym_name syms addr =
     (if length syms = 0 \<or> addr < ks_addr (syms ! 0) then None
      else let lo = ksym_search syms addr 0 (length syms)
           in if addr - ks_addr (syms ! lo) > 0x100000 then None
              else Some (ks_name (syms ! lo), addr - ks_addr (syms ! lo)))"

subsection \<open>Copying\<close>

lemma memset_loop_spec: "memset_loop m d c n a = (if d \<le> a \<and> a < d + n then c else m a)"
  by (induction n arbitrary: m d) (auto simp: fun_upd_def)

lemma copy_up_spec:
  "d \<le> s \<or> s + n \<le> d \<Longrightarrow> copy_up m d s n a = (if d \<le> a \<and> a < d + n then m (s + (a - d)) else m a)"
proof (induction n arbitrary: m d s)
  case (Suc n)
  have "copy_up (m(d := m s)) (d + 1) (s + 1) n a =
      (if d + 1 \<le> a \<and> a < d + 1 + n then (m(d := m s)) (s + 1 + (a - (d + 1))) else (m(d := m s)) a)"
    using Suc.prems by (intro Suc.IH) auto
  moreover have "s + 1 + (a - (d + 1)) \<noteq> d" if "d + 1 \<le> a" "a < d + 1 + n" using Suc.prems that by auto
  moreover have "s + 1 + (a - (d + 1)) = s + (a - d)" if "d + 1 \<le> a" using that by simp
  ultimately show ?case by auto
qed auto

lemma copy_down_spec:
  "s \<le> d \<Longrightarrow> copy_down m (d + n) (s + n) n a = (if d \<le> a \<and> a < d + n then m (s + (a - d)) else m a)"
proof (induction n arbitrary: m)
  case (Suc n)
  have "copy_down (m(d + n := m (s + n))) (d + n) (s + n) n a =
      (if d \<le> a \<and> a < d + n then (m(d + n := m (s + n))) (s + (a - d)) else (m(d + n := m (s + n))) a)"
    using Suc.prems by (rule Suc.IH)
  then show ?case using Suc.prems by auto
qed auto

text \<open>
  C27: \<^verbatim>\<open>memmove\<close> copies correctly however the two ranges overlap: every byte of the destination gets
  what the source byte held before the call, and no other byte changes.
\<close>

theorem memmove_copies:
  "memmove m d s n a = (if d \<le> a \<and> a < d + n then m (s + (a - d)) else m a)"
  using copy_up_spec [of d s n m a] copy_down_spec [of s d m n a] by (auto simp: memmove_def)

text \<open>The scan for a terminator returns when there is one, with the length of the string in front of it.\<close>

lemma strlen_from_spec:
  "m (s + (n + k)) = 0 \<Longrightarrow> (\<forall>j < k. m (s + (n + j)) \<noteq> 0) \<Longrightarrow> strlen_from m s n = Some (n + k)"
proof (induction k arbitrary: n)
  case 0
  then show ?case by (subst strlen_from.simps) simp
next
  case (Suc k)
  have "m (s + n) \<noteq> 0" using Suc.prems(2) by (metis add.right_neutral zero_less_Suc)
  moreover have "strlen_from m s (n + 1) = Some (n + 1 + k)"
    using Suc.prems by (intro Suc.IH) (auto simp: add.assoc)
  ultimately show ?case by (subst strlen_from.simps) simp
qed

lemma strlen_spec: "m (s + k) = 0 \<Longrightarrow> (\<forall>j < k. m (s + j) \<noteq> 0) \<Longrightarrow> strlen m s = Some k"
  using strlen_from_spec [of m s 0 k] by (simp add: strlen_def)

subsection \<open>Division\<close>

lemma or_high: "b < 2 ^ n \<Longrightarrow> push_bit n a OR b = push_bit n a + (b :: nat)"
proof -
  assume b: "b < 2 ^ n"
  have "push_bit n a AND b = 0"
  proof (rule bit_eqI)
    fix m
    have "bit b m \<Longrightarrow> m < n"
    proof (rule ccontr)
      assume "bit b m" "\<not> m < n"
      then have "b < 2 ^ m" using b by (meson le_less_trans less_le_trans not_less one_le_numeral power_increasing less_imp_le)
      then show False using \<open>bit b m\<close> by (simp add: bit_iff_odd)
    qed
    then show "bit (push_bit n a AND b) m = bit (0 :: nat) m" by (auto simp: bit_and_iff bit_push_bit_iff)
  qed
  then show ?thesis using disjunctive_add_eq_or [of "push_bit n a" b] by simp
qed

text \<open>After the bits from 63 down to \<open>i\<close>: the quotient and remainder of the number's upper part.\<close>

definition udiv_inv :: "u64 \<Rightarrow> u64 \<Rightarrow> nat \<Rightarrow> u64 \<times> u64 \<Rightarrow> bool" where
  "udiv_inv n d i qr \<longleftrightarrow>
     unat (fst qr) = unat n div 2 ^ i div unat d * 2 ^ i \<and> unat (snd qr) = unat n div 2 ^ i mod unat d"

lemma double_step:
  fixes M D b :: nat
  assumes "0 < D" "b < 2"
  shows "(2 * M + b) div D = 2 * (M div D) + (if 2 * (M mod D) + b \<ge> D then 1 else 0)"
    and "(2 * M + b) mod D = (if 2 * (M mod D) + b \<ge> D then 2 * (M mod D) + b - D else 2 * (M mod D) + b)"
proof -
  define r where "r = 2 * (M mod D) + b"
  have lt: "M mod D < D" using assms(1) by simp
  then have r: "r < 2 * D" using assms(2) by (simp add: r_def)
  have e: "2 * M + b = D * (2 * (M div D)) + r"
  proof -
    have "D * (2 * (M div D)) = 2 * (D * (M div D))" by simp
    then show ?thesis using mult_div_mod_eq [of D M] unfolding r_def by linarith
  qed
  have d: "(2 * M + b) div D = 2 * (M div D) + r div D" "(2 * M + b) mod D = r mod D" unfolding e using assms(1) by simp_all
  show "(2 * M + b) div D = 2 * (M div D) + (if 2 * (M mod D) + b \<ge> D then 1 else 0)"
    unfolding d r_def [symmetric] using r assms(1) by (auto simp: le_div_geq)
  show "(2 * M + b) mod D = (if 2 * (M mod D) + b \<ge> D then 2 * (M mod D) + b - D else 2 * (M mod D) + b)"
    unfolding d r_def [symmetric] using r by (auto simp: le_mod_geq)
qed

lemma udiv_step_inv:
  assumes "d \<noteq> 0" "i < 64" "udiv_inv n d (Suc i) (q, r)"
  shows "udiv_inv n d i (udiv_step n d i (q, r))"
proof -
  define N D M b where "N = unat n" "D = unat d" "M = unat n div 2 ^ Suc i" "b = unat n div 2 ^ i mod 2"
  note defs = this
  have D: "0 < D" using assms(1) by (simp add: defs unat_gt_0)
  have N: "N < 2 ^ 64" using unsigned_less [where ?'a = nat and w = n] by (simp add: defs)
  have Dlt: "D < 2 ^ 64" using unsigned_less [where ?'a = nat and w = d] by (simp add: defs)
  have q: "unat q = M div D * 2 ^ Suc i" and r: "unat r = M mod D" using assms(3) by (simp_all add: udiv_inv_def defs)
  have Mb: "N div 2 ^ i = 2 * M + b"
    using mult_div_mod_eq [of 2 "N div 2 ^ i"] by (simp add: defs div_mult2_eq [symmetric] mult.commute)
  have b: "b < 2" by (simp add: defs)
  have small: "M mod D < 2 ^ 63"
  proof (cases "D \<le> 2 ^ 63")
    case True
    then show ?thesis using D by (meson less_le_trans mod_less_divisor)
  next
    case False
    have "M \<le> N div 2" unfolding defs by (intro div_le_mono2) simp_all
    then have "M < 2 ^ 63" using N by simp
    then show ?thesis by (meson le_less_trans mod_less_eq_dividend)
  qed
  define r1 where "r1 = (push_bit 1 r OR (drop_bit i n AND 1))"
  have r1: "unat r1 = 2 * (M mod D) + b"
  proof -
    have "unat (push_bit 1 r) = push_bit 1 (unat r)"
      unfolding unsigned_push_bit_eq using small by (simp add: r take_bit_nat_eq_self)
    moreover have "unat (drop_bit i n AND 1) = b"
    proof -
      have "unat (drop_bit i n AND 1) = unat (drop_bit i n) AND unat (1 :: u64)" by (rule unsigned_and_eq)
      also have "unat (drop_bit i n) = unat n div 2 ^ i" unfolding unat_drop_bit_eq by (simp only: drop_bit_eq_div)
      finally show ?thesis by (simp add: and_one_eq defs)
    qed
    ultimately have "unat r1 = push_bit 1 (unat r) OR b" unfolding r1_def unsigned_or_eq by simp
    also have "\<dots> = push_bit 1 (unat r) + b" using b by (intro or_high) simp
    finally show ?thesis by (simp add: r)
  qed
  note ds = double_step [OF D b, of M]
  show ?thesis
  proof (cases "r1 \<ge> d")
    case True
    then have ge: "2 * (M mod D) + b \<ge> D" using r1 by (simp add: word_le_nat_alt defs)
    have "unat (q OR push_bit i 1) = M div D * 2 ^ Suc i + 2 ^ i"
    proof -
      have "unat (push_bit i (1 :: u64)) = 2 ^ i" unfolding unsigned_push_bit_eq
        using assms(2) power_strict_increasing [of i 64 "2 :: nat"] by (simp add: take_bit_nat_eq_self push_bit_eq_mult)
      moreover have "unat q = push_bit (Suc i) (M div D)" by (simp add: q push_bit_eq_mult)
      ultimately have "unat (q OR push_bit i 1) = push_bit (Suc i) (M div D) OR 2 ^ i" by (simp only: unsigned_or_eq)
      also have "\<dots> = push_bit (Suc i) (M div D) + 2 ^ i" by (rule or_high) simp
      finally show ?thesis by (simp add: push_bit_eq_mult)
    qed
    moreover have "unat (r1 - d) = 2 * (M mod D) + b - D" using True r1 by (simp add: unat_sub word_le_nat_alt defs)
    moreover have "udiv_step n d i (q, r) = (q OR push_bit i 1, r1 - d)" using True by (simp add: udiv_step_def Let_def r1_def)
    ultimately show ?thesis using ge ds Mb by (simp add: udiv_inv_def defs [symmetric] algebra_simps)
  next
    case False
    then have lt: "\<not> 2 * (M mod D) + b \<ge> D" using r1 by (simp add: word_le_nat_alt defs)
    have "udiv_step n d i (q, r) = (q, r1)" using False by (simp add: udiv_step_def Let_def r1_def)
    then show ?thesis using lt ds Mb q r1 by (simp add: udiv_inv_def defs [symmetric] algebra_simps)
  qed
qed

lemma udiv64_spec:
  assumes "d \<noteq> 0"
  shows "udiv64 n d = (n div d, n mod d)"
proof -
  have l: "udiv_inv n d i qr \<Longrightarrow> i \<le> 64 \<Longrightarrow> udiv_inv n d 0 (fold (udiv_step n d) (rev [0 ..< i]) qr)" for i qr
  proof (induction i arbitrary: qr)
    case (Suc i)
    have "udiv_inv n d i (udiv_step n d i qr)" using udiv_step_inv [OF assms, of i n "fst qr" "snd qr"] Suc.prems by simp
    then show ?case using Suc.IH [of "udiv_step n d i qr"] Suc.prems(2) by simp
  qed simp
  have "unat n < 2 ^ 64" using unsigned_less [where ?'a = nat and w = n] by simp
  then have "udiv_inv n d 64 (0, 0)" by (simp add: udiv_inv_def)
  from l [OF this] have "udiv_inv n d 0 (udiv64 n d)" using assms by (simp add: udiv64_def)
  then have "unat (fst (udiv64 n d)) = unat (n div d)" "unat (snd (udiv64 n d)) = unat (n mod d)"
    by (simp_all add: udiv_inv_def unat_div_distrib unat_mod_distrib)
  then show ?thesis by (simp add: word_unat_eq_iff prod_eq_iff)
qed

lemma uint_abs64: "uint (abs64 n) = \<bar>sint n\<bar>"
proof (cases "sint n < 0")
  case True
  have "- n = word_of_int (- sint n)" by simp
  then have "uint (- n) = (- sint n) mod 2 ^ 64" by (simp only: uint_word_of_int) simp
  moreover have "- sint n \<le> 2 ^ 63" using sint_range_size [of n] by (simp add: word_size)
  ultimately show ?thesis using True by (simp add: abs64_def)
next
  case False
  have "uint (word_of_int (sint n) :: u64) = sint n mod 2 ^ 64" by (simp only: uint_word_of_int) simp
  then have "uint n = sint n mod 2 ^ 64" by simp
  moreover have "sint n < 2 ^ 63" using sint_range_size [of n] by (simp add: word_size)
  ultimately show ?thesis using False by (simp add: abs64_def)
qed

lemma sint_bound: "\<bar>sint (n :: u64)\<bar> \<le> 2 ^ 63"
  using sint_range_size [of n] by (auto simp: word_size)

text \<open>The quotient and the remainder of the absolute values, with their signs.\<close>

lemma abs64_div_mod:
  assumes "d \<noteq> 0"
  shows "(if (sint n < 0) \<noteq> (sint d < 0) then - (abs64 n div abs64 d) else abs64 n div abs64 d) = word_of_int (sint n sdiv sint d)"
    and "(if sint n < 0 then - (abs64 n mod abs64 d) else abs64 n mod abs64 d) = word_of_int (sint n smod sint d)"
    and "(sint n < 0) \<noteq> (sint d < 0) \<Longrightarrow> abs64 n div abs64 d = 0x8000000000000000 \<longleftrightarrow> n = 0x8000000000000000 \<and> d = 1"
    and "abs64 n mod abs64 d \<noteq> 0x8000000000000000"
proof -
  define N D where "N = sint n" and "D = sint d"
  have d: "d = word_of_int D" by (simp add: D_def)
  then have D: "D \<noteq> 0" using assms by auto
  have q: "abs64 n div abs64 d = word_of_int (\<bar>N\<bar> div \<bar>D\<bar>)" "abs64 n mod abs64 d = word_of_int (\<bar>N\<bar> mod \<bar>D\<bar>)"
    by (simp_all add: word_div_def word_mod_def uint_abs64 N_def D_def)
  show "(if (sint n < 0) \<noteq> (sint d < 0) then - (abs64 n div abs64 d) else abs64 n div abs64 d) = word_of_int (sint n sdiv sint d)"
    unfolding q N_def [symmetric] D_def [symmetric] signed_divide_int_def using D by (auto simp: sgn_if)
  show "(if sint n < 0 then - (abs64 n mod abs64 d) else abs64 n mod abs64 d) = word_of_int (sint n smod sint d)"
    unfolding q N_def [symmetric] D_def [symmetric] signed_modulo_int_def by (auto simp: sgn_if)
  have u: "uint (abs64 n div abs64 d) = \<bar>N\<bar> div \<bar>D\<bar>" "uint (abs64 n mod abs64 d) = \<bar>N\<bar> mod \<bar>D\<bar>"
    by (simp_all add: uint_div uint_mod uint_abs64 N_def D_def)
  have "\<bar>N\<bar> mod \<bar>D\<bar> < \<bar>D\<bar>" using D by (intro pos_mod_bound) simp
  then have "\<bar>N\<bar> mod \<bar>D\<bar> < 2 ^ 63" using sint_bound [of d] unfolding D_def by linarith
  then show "abs64 n mod abs64 d \<noteq> 0x8000000000000000" using u(2) by auto
  have top: "x = 0x8000000000000000 \<longleftrightarrow> uint x = 2 ^ 63" for x :: u64 by (simp add: word_uint_eq_iff)
  assume neg: "(sint n < 0) \<noteq> (sint d < 0)"
  show "abs64 n div abs64 d = 0x8000000000000000 \<longleftrightarrow> n = 0x8000000000000000 \<and> d = 1"
  proof
    assume "n = 0x8000000000000000 \<and> d = 1"
    then show "abs64 n div abs64 d = 0x8000000000000000" by (simp add: abs64_def)
  next
    assume "abs64 n div abs64 d = 0x8000000000000000"
    then have e: "\<bar>N\<bar> div \<bar>D\<bar> = 2 ^ 63" using u(1) top by simp
    have N: "\<bar>N\<bar> \<le> 2 ^ 63" "N < 2 ^ 63" using sint_range_size [of n] by (auto simp: N_def word_size)
    have "0 \<le> \<bar>N\<bar> mod \<bar>D\<bar>" using D by (intro pos_mod_sign) simp
    then have "\<bar>D\<bar> * 2 ^ 63 \<le> \<bar>N\<bar>" using e mult_div_mod_eq [of "\<bar>D\<bar>" "\<bar>N\<bar>"] by simp
    moreover have "1 \<le> \<bar>D\<bar>" using D by simp
    ultimately have D1: "\<bar>D\<bar> = 1" and "\<bar>N\<bar> = 2 ^ 63" using N(1) by auto
    then have "N = - (2 ^ 63)" using N(2) by auto
    moreover then have "D = 1" using neg D1 by (auto simp: N_def [symmetric] D_def [symmetric])
    moreover have "n = word_of_int N" "d = word_of_int D" by (simp_all add: N_def D_def)
    ultimately show "n = 0x8000000000000000 \<and> d = 1" by simp
  qed
qed

text \<open>
  C28: the shift-and-subtract division of the 32-bit targets divides: for a divisor other than zero the
  unsigned functions return quotient and remainder. The signed ones return the quotient rounded towards zero
  and the remainder with the sign of the dividend, as 64-bit values; only the quotient of the most negative
  number by 1 is undefined, where \<^verbatim>\<open>__divdi3\<close> negates a value that has no negation.
\<close>

theorem udiv64_divides:
  assumes "d \<noteq> 0"
  shows "udivdi3 n d = n div d \<and> umoddi3 n d = n mod d \<and>
         divdi3 n d = (if n = 0x8000000000000000 \<and> d = 1 then None else Some (word_of_int (sint n sdiv sint d))) \<and>
         moddi3 n d = Some (word_of_int (sint n smod sint d))"
proof -
  have a: "abs64 d \<noteq> 0" using assms by (simp add: abs64_def)
  note s = udiv64_spec [OF a, of "abs64 n"] and m = abs64_div_mod [OF assms, of n]
  have z: "sint n < 0 \<and> \<not> sint d < 0" if "n = 0x8000000000000000 \<and> d = 1" using that by simp
  have "divdi3 n d = (if n = 0x8000000000000000 \<and> d = 1 then None else Some (word_of_int (sint n sdiv sint d)))"
    unfolding divdi3_def Let_def s fst_conv neg64_def m(1) [symmetric] using m(3) z by auto
  moreover have "moddi3 n d = Some (word_of_int (sint n smod sint d))"
    unfolding moddi3_def Let_def s snd_conv neg64_def m(2) [symmetric] using m(4) by auto
  ultimately show ?thesis using udiv64_spec [OF assms] by (simp add: udivdi3_def umoddi3_def)
qed

theorem udiv64_divides_witness:
  "udivdi3 17 5 = 3 \<and> umoddi3 17 5 = 2 \<and> divdi3 (- 17) 5 = Some (- 3) \<and> moddi3 (- 17) 5 = Some (- 2) \<and>
   divdi3 0x8000000000000000 1 = None"
  using udiv64_divides [of 5 17] udiv64_divides [of 5 "- 17"] udiv64_divides [of 1 "0x8000000000000000"]
  by (simp add: signed_divide_int_def signed_modulo_int_def)

subsection \<open>Symbol lookup\<close>

lemma ksym_search_spec:
  "lo < hi \<Longrightarrow> hi \<le> length syms \<Longrightarrow> ks_addr (syms ! lo) \<le> addr \<Longrightarrow> (hi < length syms \<Longrightarrow> addr < ks_addr (syms ! hi)) \<Longrightarrow>
   ksym_search syms addr lo hi < length syms \<and> ks_addr (syms ! ksym_search syms addr lo hi) \<le> addr \<and>
   (Suc (ksym_search syms addr lo hi) < length syms \<longrightarrow> addr < ks_addr (syms ! Suc (ksym_search syms addr lo hi)))"
proof (induction syms addr lo hi rule: ksym_search.induct)
  case (1 syms addr lo hi)
  show ?case
  proof (cases "hi - lo > 1")
    case True
    define mid where "mid = (lo + hi) div 2"
    have m: "lo < mid" "mid < hi" using True by (auto simp: mid_def)
    show ?thesis
    proof (cases "ks_addr (syms ! mid) \<le> addr")
      case le: True
      have "ksym_search syms addr lo hi = ksym_search syms addr mid hi"
        using True le by (subst ksym_search.simps) (simp add: Let_def mid_def)
      then show ?thesis using 1(1) [OF True mid_def le m(2)] 1(4-) le by simp
    next
      case gt: False
      have "ksym_search syms addr lo hi = ksym_search syms addr lo mid"
        using True gt by (subst ksym_search.simps) (simp add: Let_def mid_def)
      then show ?thesis using 1(2) [OF True mid_def gt m(1)] 1(4,5) m gt by simp
    qed
  next
    case False
    then have "ksym_search syms addr lo hi = lo" "hi = Suc lo" using 1(3) by (subst ksym_search.simps, simp, simp)
    then show ?thesis using 1(3-) by simp
  qed
qed

text \<open>
  On a symbol table sorted by address the lookup finds the symbol an address belongs to: the last
  one that starts at or below it, with the distance from its start, unless the address is below every
  symbol or more than one megabyte behind the start.
\<close>

theorem ksym_name_floor:
  assumes "sorted (map ks_addr syms)"
  shows "ksym_name syms addr = None \<and> (\<forall>i < length syms. addr < ks_addr (syms ! i)) \<or>
    (\<exists>i < length syms. ks_addr (syms ! i) \<le> addr \<and> (\<forall>j < length syms. i < j \<longrightarrow> addr < ks_addr (syms ! j)) \<and>
      ksym_name syms addr = (if addr - ks_addr (syms ! i) \<le> 0x100000 then Some (ks_name (syms ! i), addr - ks_addr (syms ! i)) else None))"
proof (cases "length syms = 0 \<or> addr < ks_addr (syms ! 0)")
  case True
  have "addr < ks_addr (syms ! i)" if "i < length syms" for i
  proof -
    have "0 < length syms" using that by linarith
    then have m: "map ks_addr syms ! 0 = ks_addr (syms ! 0)" "map ks_addr syms ! i = ks_addr (syms ! i)"
      using that by (simp_all only: nth_map)
    have "map ks_addr syms ! 0 \<le> map ks_addr syms ! i" by (rule sorted_nth_mono [OF assms]) (use that in simp_all)
    then have "ks_addr (syms ! 0) \<le> ks_addr (syms ! i)" unfolding m .
    then show ?thesis using True that by auto
  qed
  then show ?thesis using True by (auto simp: ksym_name_def)
next
  case False
  define i where "i = ksym_search syms addr 0 (length syms)"
  have s: "i < length syms" "ks_addr (syms ! i) \<le> addr" "Suc i < length syms \<longrightarrow> addr < ks_addr (syms ! Suc i)"
    using ksym_search_spec [of 0 "length syms" syms addr] False by (auto simp: i_def)
  have "addr < ks_addr (syms ! j)" if "j < length syms" "i < j" for j
  proof -
    have "ks_addr (syms ! Suc i) \<le> ks_addr (syms ! j)" using sorted_nth_mono [OF assms, of "Suc i" j] that by simp
    then show ?thesis using s(3) that by simp
  qed
  then have "\<exists>i < length syms. ks_addr (syms ! i) \<le> addr \<and> (\<forall>j < length syms. i < j \<longrightarrow> addr < ks_addr (syms ! j)) \<and>
      ksym_name syms addr = (if addr - ks_addr (syms ! i) \<le> 0x100000 then Some (ks_name (syms ! i), addr - ks_addr (syms ! i)) else None)"
    using s False by (intro exI [of _ i]) (auto simp: ksym_name_def Let_def i_def)
  then show ?thesis by blast
qed

theorem ksym_name_floor_witness:
  "ksym_name [\<lparr>ks_addr = 16, ks_name = ''a''\<rparr>, \<lparr>ks_addr = 32, ks_name = ''b''\<rparr>] 40 = Some (''b'', 8)"
  using ksym_name_floor [of "[\<lparr>ks_addr = 16, ks_name = ''a''\<rparr>, \<lparr>ks_addr = 32, ks_name = ''b''\<rparr>]" 40]
  by (auto simp: less_Suc_eq)

end
