(* ===== verification/P256.thy ===== *)
theory P256
  imports P256_Field Klib
begin

text \<open>
  The curve P-256 in \<^verbatim>\<open>kernel/lib/crypto.c\<close>: exponentiation, points in Jacobian coordinates and the
  operations SAE uses. The tables that \<^verbatim>\<open>p256_init\<close> fills on the first call are a record of the
  file's static variables. The validity check decides the curve equation, the hunting and pecking of
  SAE returns points of the curve, and doubling stays on it.
\<close>

subsection \<open>Tables and exponentiation\<close>

record p256_tab =
  p256_ready :: bool
  R2 :: fe
  ONE_M :: fe
  B_M :: fe
  PE_INV :: fe
  PE_SQRT :: fe
  PE_LEG :: fe

definition to_mont :: "p256_tab \<Rightarrow> fe \<Rightarrow> fe" where
  "to_mont g a = mont_mul a (R2 g)"

definition from_mont :: "fe \<Rightarrow> fe" where
  "from_mont a = mont_mul a fe_one"

definition exp_bit :: "fe \<Rightarrow> nat \<Rightarrow> bool" where
  "exp_bit e i = odd (e ! (i div 32) div 2 ^ (i mod 32))"

definition mont_pow :: "p256_tab \<Rightarrow> fe \<Rightarrow> fe \<Rightarrow> fe" where
  "mont_pow g base e =
     fold (\<lambda>i r. let r = mont_mul r r in if exp_bit e i then mont_mul r base else r) (rev [0 ..< 256]) (ONE_M g)"


definition rshift1 :: "fe \<Rightarrow> fe" where
  "rshift1 a = map (\<lambda>i. a ! i div 2 OR (a ! (i + 1) * 2 ^ 31) mod 2 ^ 32) [0 ..< 7] @ [a ! 7 div 2]"

fun carry_loop :: "nat list \<Rightarrow> nat \<Rightarrow> nat list" where
  "carry_loop (x # xs) c =
     (if c = 0 then x # xs else let s = wrap64 (x + c) in s mod 2 ^ 32 # carry_loop xs (s div 2 ^ 32))"
| "carry_loop [] c = []"

definition p256_init :: "p256_tab \<Rightarrow> p256_tab" where
  "p256_init g =
     (if p256_ready g then g
      else let g = g\<lparr>R2 := fe_one\<rparr>;
               g = g\<lparr>R2 := ((\<lambda>r. fp_add r r) ^^ 512) (R2 g)\<rparr>;
               g = g\<lparr>ONE_M := to_mont g fe_one\<rparr>;
               g = g\<lparr>B_M := to_mont g B256\<rparr>;
               g = g\<lparr>PE_INV := P256[0 := (P256 ! 0 + 2 ^ 32 - 2) mod 2 ^ 32]\<rparr>;
               g = g\<lparr>PE_LEG := rshift1 P256\<rparr>;
               g = g\<lparr>PE_SQRT := rshift1 (rshift1 (carry_loop P256 1))\<rparr>
           in g\<lparr>p256_ready := True\<rparr>)"

definition static_p256 :: p256_tab where
  "static_p256 = \<lparr>p256_ready = False, R2 = fe_zero, ONE_M = fe_zero, B_M = fe_zero, PE_INV = fe_zero,
                  PE_SQRT = fe_zero, PE_LEG = fe_zero\<rparr>"

subsection \<open>Points\<close>











definition p256_negate :: "u8 list \<Rightarrow> u8 list" where
  "p256_negate p = take 32 p @ fe_to_be (fp_sub fe_zero (fe_from_be (drop 32 p)))"

definition curve_rhs :: "p256_tab \<Rightarrow> fe \<Rightarrow> fe" where
  "curve_rhs g x =
     (let xm = to_mont g x; x2 = mont_mul xm xm; x3 = mont_mul x2 xm;
          t = fp_add xm xm; t = fp_add t xm;
          rhs = fp_sub x3 t
      in fp_add rhs (B_M g))"

definition p256_point_valid :: "p256_tab \<Rightarrow> u8 list \<Rightarrow> p256_tab \<times> bool" where
  "p256_point_valid g p =
     (let g = p256_init g; x = fe_from_be (take 32 p); y = fe_from_be (drop 32 p)
      in if fe_cmp x P256 \<ge> 0 \<or> fe_cmp y P256 \<ge> 0 then (g, False)
         else if fe_is_zero x \<and> fe_is_zero y then (g, False)
         else let ym = to_mont g y; rhs = curve_rhs g x; y2 = mont_mul ym ym in (g, fe_eq y2 rhs))"

definition p256_scalar_add :: "u8 list \<Rightarrow> u8 list \<Rightarrow> u8 list" where
  "p256_scalar_add a b =
     (let (r, c) = add_limbs (fe_from_be a) (fe_from_be b);
          r = (if c \<noteq> 0 then fst (sub_limbs r N256) else r);
          r = (if fe_cmp r N256 \<ge> 0 then fst (sub_limbs r N256) else r)
      in fe_to_be r)"

text \<open>The 64 tries: the candidates are what the random generator returns, one after the other.\<close>

fun p256_scalar_rand :: "u8 list list \<Rightarrow> int \<times> u8 list option" where
  "p256_scalar_rand [] = (- 1, None)"
| "p256_scalar_rand (buf # bufs) =
     (let r = fe_from_be buf
      in if fe_cmp r N256 \<ge> 0 \<or> fe_is_zero r then p256_scalar_rand bufs else (0, Some buf))"

subsection \<open>The SAE password element\<close>

text \<open>\<^verbatim>\<open>memcmp(a, b, 6) >= 0\<close>\<close>

fun bytes_ge :: "u8 list \<Rightarrow> u8 list \<Rightarrow> bool" where
  "bytes_ge (x # xs) (y # ys) = (if x \<noteq> y then x \<ge> y else bytes_ge xs ys)"
| "bytes_ge _ _ = True"

definition pwe_seed :: "u8 list \<Rightarrow> u8 list \<Rightarrow> u8 list \<Rightarrow> nat \<Rightarrow> u8 list" where
  "pwe_seed junk key pass counter = hmac_sha256_vec junk key [pass, [of_nat counter]]"

definition pwe_label :: "u8 list" where
  "pwe_label = map (\<lambda>c. of_nat (of_char c)) ''SAE Hunting and Pecking''"

definition pwe_value :: "u8 list \<Rightarrow> u8 list \<Rightarrow> u8 list" where
  "pwe_value junk seed = kdf_sha256 junk seed pwe_label (fe_to_be P256) 256"

text \<open>The search over the counters: the saved x and parity of the first hit.\<close>

fun pwe_hunt :: "p256_tab \<Rightarrow> u8 list \<Rightarrow> u8 list \<Rightarrow> u8 list \<Rightarrow> nat list \<Rightarrow> (u8 list \<times> nat) option" where
  "pwe_hunt g junk key pass [] = None"
| "pwe_hunt g junk key pass (counter # cs) =
     (let seed = pwe_seed junk key pass counter; v = pwe_value junk seed; x = fe_from_be v
      in if fe_cmp x P256 \<ge> 0 then pwe_hunt g junk key pass cs
         else let leg = mont_pow g (curve_rhs g x) (PE_LEG g)
              in if fe_eq leg (ONE_M g) then Some (v, unat (seed ! 31 AND 1)) else pwe_hunt g junk key pass cs)"

definition p256_sae_pwe :: "p256_tab \<Rightarrow> u8 list \<Rightarrow> u8 list \<Rightarrow> u8 list \<Rightarrow> u8 list \<Rightarrow> p256_tab \<times> u8 list option" where
  "p256_sae_pwe g junk pass a b =
     (let g = p256_init g; key = (if bytes_ge a b then a @ b else b @ a)
      in case pwe_hunt g junk key pass [1 ..< 101] of
           None \<Rightarrow> (g, None)
         | Some (save_x, save_lsb) \<Rightarrow>
             let rhs = curve_rhs g (fe_from_be save_x);
                 ym = mont_pow g rhs (PE_SQRT g);
                 yn = from_mont ym;
                 yn = (if yn ! 0 mod 2 \<noteq> save_lsb then fp_sub fe_zero yn else yn)
             in (g, Some (save_x @ fe_to_be yn)))"

subsection \<open>The tables\<close>

text \<open>What the static variables hold once they are filled.\<close>

definition tab_ok :: "p256_tab \<Rightarrow> bool" where
  "tab_ok g \<longleftrightarrow> p256_ready g \<and> fe_ok (R2 g) \<and> eqp (int (val (R2 g))) (2 ^ 512) \<and>
     mform (ONE_M g) 1 \<and> mform (B_M g) (int (val B256)) \<and>
     limbs (PE_LEG g) \<and> length (PE_LEG g) = 8 \<and> val (PE_LEG g) = (p256 - 1) div 2 \<and>
     limbs (PE_SQRT g) \<and> length (PE_SQRT g) = 8 \<and> val (PE_SQRT g) = (p256 + 1) div 4 \<and>
     limbs (PE_INV g) \<and> length (PE_INV g) = 8 \<and> val (PE_INV g) = p256 - 2"

lemma rshift1_P256: "rshift1 P256 = [4294967295, 4294967295, 2147483647, 0, 0, 2147483648, 2147483648, 2147483647]"
  by (simp add: rshift1_def P256_def upt_rec)

lemma carry_P256: "carry_loop P256 1 = [0, 0, 0, 1, 0, 0, 1, 4294967295]"
  by (simp add: P256_def wrap64_def)

lemma rshift2_P256: "rshift1 (rshift1 (carry_loop P256 1)) = [0, 0, 1073741824, 0, 0, 1073741824, 3221225472, 1073741823]"
  unfolding carry_P256 by (simp add: rshift1_def upt_rec)

lemma exponents:
  "limbs (rshift1 P256) \<and> length (rshift1 P256) = 8 \<and> val (rshift1 P256) = (p256 - 1) div 2"
  "limbs (rshift1 (rshift1 (carry_loop P256 1))) \<and> length (rshift1 (rshift1 (carry_loop P256 1))) = 8 \<and>
   val (rshift1 (rshift1 (carry_loop P256 1))) = (p256 + 1) div 4"
  "limbs (P256[0 := (P256 ! 0 + 2 ^ 32 - 2) mod 2 ^ 32]) \<and> length (P256[0 := (P256 ! 0 + 2 ^ 32 - 2) mod 2 ^ 32]) = 8 \<and>
   val (P256[0 := (P256 ! 0 + 2 ^ 32 - 2) mod 2 ^ 32]) = p256 - 2"
  unfolding rshift1_P256 rshift2_P256 by (simp_all add: P256_def p256_def)

lemma double_power:
  assumes "fe_ok a" "eqp (int (val a)) x"
  shows "fe_ok (((\<lambda>r. fp_add r r) ^^ n) a) \<and> eqp (int (val (((\<lambda>r. fp_add r r) ^^ n) a))) (x * 2 ^ n)"
proof (induction n)
  case (Suc n)
  define r where "r = ((\<lambda>r. fp_add r r) ^^ n) a"
  have r: "fe_ok r" "eqp (int (val r)) (x * 2 ^ n)" using Suc by (simp_all add: r_def)
  have "eqp (int (val (fp_add r r))) (int (val r) + int (val r))"
    unfolding fp_add_spec(2) [OF r(1) r(1)] using eqp_mod [of "val r + val r"] by simp
  also have "eqp \<dots> (x * 2 ^ n + x * 2 ^ n)" by (rule eqp_add [OF r(2) r(2)])
  finally show ?case using fp_add_spec(1) [OF r(1) r(1)] by (simp add: r_def mult.left_commute)
qed (use assms in simp)

lemma to_mont_spec:
  assumes "fe_ok (R2 g)" "eqp (int (val (R2 g))) (2 ^ 512)" "fe_ok x"
  shows "mform (to_mont g x) (int (val x))"
proof -
  have l: "limbs (R2 g)" "length (R2 g) = 8" using assms(1) by (simp_all add: fe_ok_def)
  note m = mont_mul_spec [OF assms(3) l]
  have "eqp (int (val (mont_mul x (R2 g))) * 2 ^ 256) (int (val x) * int (val (R2 g)))" using m(2) by (simp add: eqp_nat)
  also have "eqp \<dots> (int (val x) * 2 ^ 512)" by (rule eqp_mult [OF eqp_refl assms(2)])
  also have "int (val x) * 2 ^ 512 = int (val x) * 2 ^ 256 * 2 ^ 256" by (simp only: mult.assoc power_add [symmetric]) simp
  finally have "eqp (int (val (mont_mul x (R2 g)))) (int (val x) * 2 ^ 256)" by (rule eqp_cancel_R)
  then show ?thesis using m(1) unfolding mform_def to_mont_def by blast
qed

lemma fe_ok_consts: "fe_ok fe_one" "fe_ok B256" "fe_ok fe_zero"
  using p256_bounds by (simp_all add: fe_ok_def) (simp add: B256_def p256_def)

lemma init_tab:
  assumes "\<not> p256_ready g"
  shows "tab_ok (p256_init g)"
proof -
  have r: "fe_ok (((\<lambda>r. fp_add r r) ^^ 512) fe_one)" "eqp (int (val (((\<lambda>r. fp_add r r) ^^ 512) fe_one))) (2 ^ 512)"
    using double_power [OF fe_ok_consts(1), of 1 512] by simp_all
  have "to_mont (g\<lparr>R2 := x, ONE_M := y\<rparr>) = to_mont (g\<lparr>R2 := x\<rparr>)" for x y by (simp add: to_mont_def fun_eq_iff)
  then show ?thesis
    using r exponents to_mont_spec [of "g\<lparr>R2 := ((\<lambda>r. fp_add r r) ^^ 512) fe_one\<rparr>" fe_one]
      to_mont_spec [of "g\<lparr>R2 := ((\<lambda>r. fp_add r r) ^^ 512) fe_one\<rparr>" B256] fe_ok_consts assms
    unfolding p256_init_def tab_ok_def Let_def by simp
qed

lemma init_ok:
  assumes "tab_ok g \<or> \<not> p256_ready g"
  shows "tab_ok (p256_init g)" and "p256_init (p256_init g) = p256_init g"
proof -
  show t: "tab_ok (p256_init g)"
  proof (cases "p256_ready g")
    case True
    then show ?thesis using assms by (simp add: p256_init_def)
  qed (rule init_tab)
  then show "p256_init (p256_init g) = p256_init g" by (simp add: p256_init_def [of "p256_init g"] tab_ok_def)
qed

lemma to_mont_ok: "tab_ok g \<Longrightarrow> fe_ok x \<Longrightarrow> mform (to_mont g x) (int (val x))"
  by (simp add: tab_ok_def to_mont_spec)

lemma from_mont_spec:
  assumes "mform a u"
  shows "fe_ok (from_mont a)" and "int (val (from_mont a)) = u mod int p256"
proof -
  note m = mont_mul_spec [OF mform_ok [OF assms] limbs_consts(7,8)]
  show ok: "fe_ok (from_mont a)" using m(1) by (simp add: from_mont_def)
  have "eqp (int (val (from_mont a)) * 2 ^ 256) (int (val a))" using m(2) by (simp add: eqp_nat from_mont_def)
  also have "eqp \<dots> (u * 2 ^ 256)" using assms by (simp add: mform_def)
  finally have "eqp (int (val (from_mont a))) u" by (rule eqp_cancel_R)
  then show "int (val (from_mont a)) = u mod int p256" using ok by (simp add: eqp_def fe_ok_def)
qed

subsection \<open>Exponentiation\<close>

lemma exp_bit_val:
  "limbs e \<Longrightarrow> i < 32 * length e \<Longrightarrow> exp_bit e i \<longleftrightarrow> odd (val e div 2 ^ i)"
proof (induction e arbitrary: i)
  case (Cons x xs)
  show ?case
  proof (cases "i < 32")
    case True
    have "(2 :: nat) ^ 32 = 2 ^ i * 2 ^ (32 - i)" using True by (simp add: power_add [symmetric])
    then have "x + 2 ^ 32 * val xs = x + 2 ^ i * (2 ^ (32 - i) * val xs)" by (simp only: mult.assoc)
    then have "val (x # xs) div 2 ^ i = x div 2 ^ i + 2 ^ (32 - i) * val xs" by (simp only: val.simps) simp
    moreover have "even ((2 :: nat) ^ (32 - i) * val xs)" using True by simp
    ultimately show ?thesis using True by (simp add: exp_bit_def)
  next
    case False
    then obtain j where j: "i = 32 + j" by (metis le_iff_add not_less)
    have "val (x # xs) div 2 ^ i = (x + 2 ^ 32 * val xs) div 2 ^ 32 div 2 ^ j" by (simp only: j power_add div_mult2_eq val.simps)
    also have "(x + 2 ^ 32 * val xs) div 2 ^ 32 = val xs" using Cons.prems(1) by simp
    finally have "odd (val (x # xs) div 2 ^ i) = exp_bit xs j" using Cons j by simp
    moreover have "(32 + j) div 32 = Suc (j div 32)" by simp
    ultimately show ?thesis by (simp add: exp_bit_def j)
  qed
qed simp

lemma mont_pow_loop:
  assumes "mform base v" "limbs e" "length e = 8"
  shows "n \<le> 256 \<Longrightarrow> mform r (v ^ (val e div 2 ^ n)) \<Longrightarrow>
    mform (fold (\<lambda>i r. let r = mont_mul r r in if exp_bit e i then mont_mul r base else r) (rev [0 ..< n]) r) (v ^ val e)"
proof (induction n arbitrary: r)
  case (Suc n)
  define E where "E = val e div 2 ^ n"
  have h: "val e div 2 ^ Suc n = E div 2" by (simp add: E_def div_mult2_eq [symmetric] mult.commute)
  have b: "exp_bit e n \<longleftrightarrow> odd E" using exp_bit_val [OF assms(2)] Suc.prems(1) assms(3) by (simp add: E_def)
  define r2 where "r2 = mont_mul r r"
  have sq: "mform r2 (v ^ (E div 2) * v ^ (E div 2))" using mform_mul [OF Suc.prems(2) Suc.prems(2)] by (simp only: r2_def h)
  have "mform (if exp_bit e n then mont_mul r2 base else r2) (v ^ E)"
  proof (cases "odd E")
    case True
    have "v ^ (E div 2) * v ^ (E div 2) * v = v ^ (Suc (2 * (E div 2)))" by (simp add: power_add mult_2 mult.commute)
    also have "Suc (2 * (E div 2)) = E" using True by simp
    finally show ?thesis using mform_mul [OF sq assms(1)] True b by simp
  next
    case False
    have "v ^ (E div 2) * v ^ (E div 2) = v ^ (2 * (E div 2))" by (simp add: power_add mult_2)
    also have "2 * (E div 2) = E" using False by simp
    finally show ?thesis using sq False b by simp
  qed
  then show ?case using Suc.IH [of "if exp_bit e n then mont_mul r2 base else r2"] Suc.prems(1)
    by (cases "exp_bit e n") (simp_all add: E_def r2_def Let_def)
qed (simp)

lemma mont_pow_spec:
  assumes "tab_ok g" "mform base v" "limbs e" "length e = 8"
  shows "mform (mont_pow g base e) (v ^ val e)"
proof -
  have "val e < 2 ^ 256" using val_less [OF assms(3)] assms(4) by simp
  then have "mform (ONE_M g) (v ^ (val e div 2 ^ 256))" using assms(1) by (simp add: tab_ok_def)
  from mont_pow_loop [OF assms(2-4) order.refl this] show ?thesis by (simp add: mont_pow_def)
qed

lemma curve_rhs_spec:
  assumes "tab_ok g" "fe_ok x"
  shows "mform (curve_rhs g x) (int (val x) ^ 3 - 3 * int (val x) + int (val B256))"
proof -
  note x = to_mont_ok [OF assms]
  note x3 = mform_mul [OF mform_mul [OF x x] x]
  note t = mform_add [OF mform_add [OF x x] x]
  have b: "mform (B_M g) (int (val B256))" using assms(1) by (simp add: tab_ok_def)
  have "int (val x) * int (val x) * int (val x) - (int (val x) + int (val x) + int (val x)) + int (val B256) =
      int (val x) ^ 3 - 3 * int (val x) + int (val B256)" by (simp add: power3_eq_cube)
  then show ?thesis using mform_add [OF mform_sub [OF x3 t] b] by (simp add: curve_rhs_def Let_def)
qed

subsection \<open>Bytes\<close>

text \<open>The big-endian number of 32 bytes.\<close>

definition be_val :: "u8 list \<Rightarrow> nat" where
  "be_val b = (\<Sum>i \<leftarrow> [0 ..< 32]. unat (b ! i) * 256 ^ (31 - i))"

lemma load_be32_unat:
  "unat (load_be32 p i) = unat (p ! (4 * i)) * 2 ^ 24 + unat (p ! (4 * i + 1)) * 2 ^ 16 + unat (p ! (4 * i + 2)) * 2 ^ 8 + unat (p ! (4 * i + 3))"
proof -
  have u: "unat (ucast x :: u32) = unat x" "unat x < 256" for x :: u8
  proof -
    show "unat x < 256" using unsigned_less [where ?'a = nat and w = x] by simp
    then show "unat (ucast x :: u32) = unat x" by (simp add: unsigned_ucast_eq take_bit_nat_eq_self)
  qed
  have sh: "unat (push_bit n (ucast x) :: u32) = push_bit n (unat x)" if "n \<le> 24" for x :: u8 and n
  proof -
    have "unat x * 2 ^ n < 2 ^ 8 * 2 ^ n" using u(2) [of x] by simp
    also have "\<dots> \<le> 2 ^ 32" using power_increasing [OF that, of "2 :: nat"] by simp
    finally have "take_bit 32 (push_bit n (unat x)) = push_bit n (unat x)"
      by (intro take_bit_nat_eq_self) (simp add: push_bit_eq_mult)
    then show ?thesis by (simp add: unsigned_push_bit_eq u(1))
  qed
  define a b c d where "a = unat (p ! (4 * i))" "b = unat (p ! (4 * i + 1))" "c = unat (p ! (4 * i + 2))" "d = unat (p ! (4 * i + 3))"
  note abcd = this
  have lt: "a < 256" "b < 256" "c < 256" "d < 256" using u(2) by (simp_all add: abcd)
  have "unat (load_be32 p i) = push_bit 24 a OR push_bit 16 b OR push_bit 8 c OR d"
    unfolding load_be32_def unsigned_or_eq by (simp add: sh u(1) abcd)
  also have "push_bit 8 c OR d = push_bit 8 c + d" using lt by (intro or_high) simp
  also have "push_bit 16 b OR (push_bit 8 c + d) = push_bit 16 b + (push_bit 8 c + d)" using lt by (intro or_high) (simp add: push_bit_eq_mult)
  also have "push_bit 24 a OR (push_bit 16 b + (push_bit 8 c + d)) = push_bit 24 a + (push_bit 16 b + (push_bit 8 c + d))"
    using lt by (intro or_high) (simp add: push_bit_eq_mult)
  finally show ?thesis by (simp add: push_bit_eq_mult abcd)
qed

lemma from_be_spec: "limbs (fe_from_be b)" "length (fe_from_be b) = 8" "val (fe_from_be b) = be_val b"
proof -
  show "limbs (fe_from_be b)" using unsigned_less [where ?'a = nat and ?'b = 32] by (auto simp: fe_from_be_def limbs_def)
  show "length (fe_from_be b) = 8" by (simp add: fe_from_be_def)
  have u: "[0 ..< 8] = [0, 1, 2, 3, 4, 5, 6, 7 :: nat]"
    "[0 ..< 32] = [0, 1, 2, 3, 4, 5, 6, 7, 8, 9, 10, 11, 12, 13, 14, 15, 16, 17, 18, 19, 20, 21, 22, 23, 24, 25, 26, 27, 28, 29, 30, 31 :: nat]"
    by (simp_all add: upt_rec)
  show "val (fe_from_be b) = be_val b" unfolding fe_from_be_def be_val_def u by (simp add: load_be32_unat) (simp add: numeral_2_eq_2)
qed

lemma be32_roundtrip: "load_be32 (be32_bytes w) 0 = w"
proof (rule bit_word_eqI)
  fix n assume "n < LENGTH(32)"
  then consider "n < 8" | "8 \<le> n" "n < 16" | "16 \<le> n" "n < 24" | "24 \<le> n" "n < 32" by fastforce
  then show "bit (load_be32 (be32_bytes w) 0) n = bit w n"
    by cases (auto simp: load_be32_def be32_bytes_def bit_or_iff bit_push_bit_iff bit_ucast_iff bit_drop_bit_eq)
qed

lemma load_concat:
  "k < length ws \<Longrightarrow> load_be32 (concat (map be32_bytes ws)) k = ws ! k"
proof (induction ws arbitrary: k)
  case (Cons w ws)
  have len: "length (be32_bytes w) = 4" by (simp add: be32_bytes_def)
  show ?case
  proof (cases k)
    case 0
    have "load_be32 (be32_bytes w @ concat (map be32_bytes ws)) 0 = load_be32 (be32_bytes w) 0"
      by (simp add: load_be32_def nth_append len)
    then show ?thesis by (simp add: 0 be32_roundtrip)
  next
    case (Suc j)
    have "load_be32 (be32_bytes w @ concat (map be32_bytes ws)) (Suc j) = load_be32 (concat (map be32_bytes ws)) j"
      by (simp add: load_be32_def nth_append len) (simp add: add.commute)
    then show ?thesis using Cons by (simp add: Suc)
  qed
qed simp

lemma to_be_spec:
  assumes "limbs r" "length r = 8"
  shows "length (fe_to_be r) = 32" and "fe_from_be (fe_to_be r) = r"
proof -
  have l: "length (concat (map be32_bytes ws)) = 4 * length ws" for ws
    by (induction ws) (simp_all add: be32_bytes_def)
  have m: "map (\<lambda>j. be32_bytes (of_nat (r ! (7 - j)))) [0 ..< 8] = map be32_bytes (map of_nat (rev r))"
    using assms(2) by (intro nth_equalityI) (simp_all add: rev_nth)
  show "length (fe_to_be r) = 32" unfolding fe_to_be_def m l using assms(2) by simp
  have "unat (load_be32 (fe_to_be r) (7 - j)) = r ! j" if "j < 8" for j
  proof -
    have "r ! j < 2 ^ 32" using assms that by (auto simp: limbs_def)
    then have "unat (of_nat (r ! j) :: u32) = r ! j" by (simp add: unat_of_nat)
    then show ?thesis unfolding fe_to_be_def m using that assms(2) load_concat [of "7 - j" "map of_nat (rev r)"] by (simp add: rev_nth)
  qed
  then show "fe_from_be (fe_to_be r) = r" unfolding fe_from_be_def using assms(2) by (intro nth_equalityI) simp_all
qed

subsection \<open>The curve\<close>

text \<open>The affine curve equation, and the equation in Jacobian coordinates.\<close>

definition on_curve :: "nat \<Rightarrow> nat \<Rightarrow> bool" where
  "on_curve x y \<longleftrightarrow> eqp (int y ^ 2) (int x ^ 3 - 3 * int x + int (val B256))"

definition jac_curve :: "int \<Rightarrow> int \<Rightarrow> int \<Rightarrow> bool" where
  "jac_curve X Y Z \<longleftrightarrow> eqp (Y ^ 2) (X ^ 3 - 3 * X * Z ^ 4 + int (val B256) * Z ^ 6)"


lemma valid_spec:
  assumes "tab_ok g \<or> \<not> p256_ready g"
  shows "snd (p256_point_valid g p) \<longleftrightarrow>
    be_val (take 32 p) < p256 \<and> be_val (drop 32 p) < p256 \<and> (be_val (take 32 p) \<noteq> 0 \<or> be_val (drop 32 p) \<noteq> 0) \<and>
    on_curve (be_val (take 32 p)) (be_val (drop 32 p))"
proof -
  define x where "x = fe_from_be (take 32 p)"
  define y where "y = fe_from_be (drop 32 p)"
  have l: "limbs x" "length x = 8" "val x = be_val (take 32 p)" "limbs y" "length y = 8" "val y = be_val (drop 32 p)"
    by (simp_all add: x_def y_def from_be_spec)
  have ge: "fe_cmp x P256 \<ge> 0 \<longleftrightarrow> \<not> val x < p256" "fe_cmp y P256 \<ge> 0 \<longleftrightarrow> \<not> val y < p256"
    using fe_cmp_spec [of x P256] fe_cmp_spec [of y P256] l by auto
  note g = init_ok(1) [OF assms]
  show ?thesis
  proof (cases "val x < p256 \<and> val y < p256")
    case True
    then have ok: "fe_ok x" "fe_ok y" using l by (simp_all add: fe_ok_def)
    have "fe_eq (mont_mul (to_mont (p256_init g) y) (to_mont (p256_init g) y)) (curve_rhs (p256_init g) x) \<longleftrightarrow>
        eqp (int (val y) * int (val y)) (int (val x) ^ 3 - 3 * int (val x) + int (val B256))"
      by (rule mform_eq [OF mform_mul [OF to_mont_ok [OF g ok(2)] to_mont_ok [OF g ok(2)]] curve_rhs_spec [OF g ok(1)]])
    then show ?thesis using True ge l
      by (auto simp: p256_point_valid_def Let_def x_def [symmetric] y_def [symmetric] fe_is_zero_val on_curve_def power2_eq_square)
  next
    case False
    then show ?thesis using ge l by (auto simp: p256_point_valid_def Let_def x_def [symmetric] y_def [symmetric])
  qed
qed

lemma p256_mod_4: "p256 mod 4 = 3" "(p256 + 1) div 4 + (p256 + 1) div 4 = (p256 - 1) div 2 + 1" "odd p256"
  by (simp_all add: p256_def)

lemma pwe_value_length: "length junk = 64 \<Longrightarrow> length (pwe_value junk seed) = 32"
proof -
  assume "length junk = 64"
  then have "pwe_value junk seed = expand (\<lambda>i. hmac_spec sha256_spec seed (le16_bytes (1 + of_nat i) @ pwe_label @ fe_to_be P256 @ le16_bytes (of_nat 256))) 32 32"
    by (simp add: pwe_value_def kdf_sha256_def kdf_loop_eq)
  then show ?thesis by (simp add: expand_def)
qed

text \<open>The candidate of a counter is accepted: below the prime, and the Legendre test passes.\<close>

definition pwe_hit :: "u8 list \<Rightarrow> u8 list \<Rightarrow> u8 list \<Rightarrow> nat \<Rightarrow> bool" where
  "pwe_hit junk key pass c \<longleftrightarrow>
     (let x = be_val (pwe_value junk (pwe_seed junk key pass c))
      in x < p256 \<and> eqp ((int x ^ 3 - 3 * int x + int (val B256)) ^ ((p256 - 1) div 2)) 1)"

lemma seed_bit_less: "unat (w AND 1 :: u8) < 2"
  unfolding unsigned_and_eq by (simp add: and_one_eq)

lemma pwe_hunt_Cons:
  assumes "tab_ok g"
  shows "pwe_hunt g junk key pass (c # cs) =
    (if pwe_hit junk key pass c
     then Some (pwe_value junk (pwe_seed junk key pass c), unat (pwe_seed junk key pass c ! 31 AND 1))
     else pwe_hunt g junk key pass cs)"
proof -
  define seed where "seed = pwe_seed junk key pass c"
  define w where "w = pwe_value junk seed"
  define x where "x = fe_from_be w"
  have x: "limbs x" "length x = 8" "val x = be_val w" by (simp_all add: x_def from_be_spec)
  have ge: "fe_cmp x P256 \<ge> 0 \<longleftrightarrow> \<not> val x < p256" using fe_cmp_spec [of x P256] x by auto
  have t: "limbs (PE_LEG g)" "length (PE_LEG g) = 8" "val (PE_LEG g) = (p256 - 1) div 2" "mform (ONE_M g) 1" using assms by (simp_all add: tab_ok_def)
  have "fe_eq (mont_pow g (curve_rhs g x) (PE_LEG g)) (ONE_M g) \<longleftrightarrow>
      eqp ((int (val x) ^ 3 - 3 * int (val x) + int (val B256)) ^ ((p256 - 1) div 2)) 1" if "val x < p256"
  proof -
    have ok: "fe_ok x" using that x by (simp add: fe_ok_def)
    show ?thesis using mform_eq [OF mont_pow_spec [OF assms curve_rhs_spec [OF assms ok] t(1,2)] t(4)] t(3) by simp
  qed
  then have hit: "pwe_hit junk key pass c \<longleftrightarrow> val x < p256 \<and> fe_eq (mont_pow g (curve_rhs g x) (PE_LEG g)) (ONE_M g)"
    by (auto simp: pwe_hit_def Let_def seed_def [symmetric] w_def [symmetric] x(3))
  show ?thesis unfolding hit using ge by (auto simp: Let_def seed_def [symmetric] w_def [symmetric] x_def [symmetric])
qed

lemma pwe_hunt_spec:
  assumes "tab_ok g" "length junk = 64"
  shows "pwe_hunt g junk key pass cs = Some (v, l) \<Longrightarrow>
      \<exists>pre c suf. cs = pre @ c # suf \<and> pwe_hit junk key pass c \<and> (\<forall>d \<in> set pre. \<not> pwe_hit junk key pass d) \<and>
        v = pwe_value junk (pwe_seed junk key pass c) \<and> l = unat (pwe_seed junk key pass c ! 31 AND 1)"
    and "pwe_hunt g junk key pass cs = None \<Longrightarrow> \<forall>c \<in> set cs. \<not> pwe_hit junk key pass c"
proof (induction cs)
  case (Cons c cs)
  case 1
  show ?case
  proof (cases "pwe_hit junk key pass c")
    case True
    then have "v = pwe_value junk (pwe_seed junk key pass c)" "l = unat (pwe_seed junk key pass c ! 31 AND 1)"
      using 1 pwe_hunt_Cons [OF assms(1)] by auto
    then show ?thesis using True by (intro exI [of _ "[]"] exI [of _ c] exI [of _ cs]) simp
  next
    case False
    then have "pwe_hunt g junk key pass cs = Some (v, l)" using 1 pwe_hunt_Cons [OF assms(1), of junk key pass c cs] by metis
    from Cons(1) [OF this] obtain pre d suf where "cs = pre @ d # suf" "pwe_hit junk key pass d" "\<forall>e \<in> set pre. \<not> pwe_hit junk key pass e"
        "v = pwe_value junk (pwe_seed junk key pass d)" "l = unat (pwe_seed junk key pass d ! 31 AND 1)" by blast
    then show ?thesis using False by (intro exI [of _ "c # pre"] exI [of _ d] exI [of _ suf]) simp
  qed
next
  case (Cons c cs)
  case 2
  then have "\<not> pwe_hit junk key pass c" "pwe_hunt g junk key pass cs = None"
    using pwe_hunt_Cons [OF assms(1), of junk key pass c cs] by (metis option.distinct(1))+
  then show ?case using Cons(2) by simp
qed simp_all

lemma upt_split:
  assumes "[m ..< n] = pre @ c # suf"
  shows "c \<in> {m ..< n} \<and> set pre = {m ..< c}"
proof -
  have l: "length pre < n - m" using arg_cong [OF assms, of length] by simp
  then have c: "c = m + length pre" using arg_cong [OF assms, of "\<lambda>xs. xs ! length pre"] by simp
  have "pre = take (length pre) [m ..< n]" using assms by simp
  then have "pre = [m ..< m + length pre]" using l by (simp add: take_upt)
  then have "set pre = {m ..< c}" using c by (metis set_upt)
  then show ?thesis using c l by auto
qed

lemma sqrt_power:
  assumes "eqp (r ^ ((p256 - 1) div 2)) 1"
  shows "eqp ((r ^ ((p256 + 1) div 4)) ^ 2) r"
proof -
  have "(r ^ ((p256 + 1) div 4)) ^ 2 = r ^ ((p256 - 1) div 2) * r"
    by (simp only: power2_eq_square power_add [symmetric] p256_mod_4(2)) simp
  also have "eqp \<dots> (1 * r)" by (rule eqp_mult [OF assms eqp_refl])
  finally show ?thesis by simp
qed

lemma eqp_zero_one: "\<not> eqp 1 0"
  using p256_bounds by (simp add: eqp_def)

lemma root_nonzero:
  assumes "eqp (r ^ ((p256 - 1) div 2)) 1" "eqp (y ^ 2) r"
  shows "\<not> eqp y 0"
proof
  assume "eqp y 0"
  then have "eqp (y ^ 2) (0 ^ 2)" by (rule eqp_power)
  then have "eqp r 0" using eqp_trans [OF eqp_sym [OF assms(2)]] by simp
  then have "eqp (r ^ ((p256 - 1) div 2)) (0 ^ ((p256 - 1) div 2))" by (rule eqp_power)
  moreover have "(0 :: int) ^ ((p256 - 1) div 2) = 0" by (simp add: p256_def)
  ultimately have "eqp (r ^ ((p256 - 1) div 2)) 0" by (simp only:)
  from eqp_trans [OF eqp_sym [OF assms(1)] this] show False using eqp_zero_one by simp
qed

text \<open>The last step of SAE: the square root with the wanted parity.\<close>

lemma pwe_root:
  assumes g: "tab_ok g" and x: "fe_ok x" and l: "l < 2"
    and leg: "eqp ((int (val x) ^ 3 - 3 * int (val x) + int (val B256)) ^ ((p256 - 1) div 2)) 1"
  defines "yn \<equiv> from_mont (mont_pow g (curve_rhs g x) (PE_SQRT g))"
  defines "y \<equiv> (if yn ! 0 mod 2 \<noteq> l then fp_sub fe_zero yn else yn)"
  shows "fe_ok y \<and> on_curve (val x) (val y) \<and> val y \<noteq> 0 \<and> val y mod 2 = l"
proof -
  define r where "r = int (val x) ^ 3 - 3 * int (val x) + int (val B256)"
  have t: "limbs (PE_SQRT g)" "length (PE_SQRT g) = 8" "val (PE_SQRT g) = (p256 + 1) div 4" using g by (simp_all add: tab_ok_def)
  note pw = mont_pow_spec [OF g curve_rhs_spec [OF g x] t(1,2)]
  have yn: "fe_ok yn" "int (val yn) = (r ^ ((p256 + 1) div 4)) mod int p256"
    using from_mont_spec [OF pw] by (simp_all add: yn_def r_def t(3))
  then have "eqp (int (val yn)) (r ^ ((p256 + 1) div 4))" by (simp add: eqp_def)
  then have sq: "eqp (int (val yn) ^ 2) r" using eqp_trans [OF eqp_power sqrt_power] leg by (simp add: r_def)
  have nz: "val yn \<noteq> 0" using root_nonzero [OF leg [folded r_def] sq] by (cases "val yn = 0") simp_all
  have lt: "val yn < p256" using yn(1) by (simp add: fe_ok_def)
  have par: "yn ! 0 mod 2 = val yn mod 2"
  proof -
    obtain y0 ys where "yn = y0 # ys" using yn(1) by (cases yn) (auto simp: fe_ok_def)
    moreover have "(y0 + 2 * (2147483648 * k)) mod 2 = y0 mod 2" for k :: nat by (rule mod_mult_self2)
    ultimately show ?thesis by simp
  qed
  show ?thesis
  proof (cases "yn ! 0 mod 2 \<noteq> l")
    case True
    note s = fp_sub_spec [OF fe_ok_consts(3) yn(1)]
    have vy: "val y = p256 - val yn" using s(2) nz lt True by (simp add: y_def)
    then have iy: "int (val y) = int p256 - int (val yn)" using lt by simp
    have "eqp (int (val y)) (0 - int (val yn))" unfolding iy by (rule eqp_diff) (simp_all add: eqp_def)
    then have "eqp (int (val y) ^ 2) ((0 - int (val yn)) ^ 2)" by (rule eqp_power)
    then have "eqp (int (val y) ^ 2) r" using eqp_trans [OF _ sq] by simp
    moreover have "val y mod 2 = l" using True par l lt p256_mod_4(3) unfolding vy by (auto simp: mod2_eq_if split: if_splits)
    ultimately show ?thesis using s(1) True vy lt by (simp add: on_curve_def y_def r_def)
  next
    case False
    then show ?thesis using yn(1) sq nz par by (simp add: y_def on_curve_def r_def)
  qed
qed

subsection \<open>Reduced elements\<close>

lemma ops_ok [simp, intro]:
  "fe_ok a \<Longrightarrow> fe_ok b \<Longrightarrow> fe_ok (mont_mul a b)" "fe_ok a \<Longrightarrow> fe_ok b \<Longrightarrow> fe_ok (fp_add a b)"
  "fe_ok a \<Longrightarrow> fe_ok b \<Longrightarrow> fe_ok (fp_sub a b)"
  using mont_mul_spec(1) [of a b] fp_add_spec(1) [of a b] fp_sub_spec(1) [of a b] by (simp_all add: fe_ok_def)







lemma scalar_add_spec:
  assumes "be_val a < val N256" "be_val b < val N256"
  shows "be_val (p256_scalar_add a b) = (be_val a + be_val b) mod val N256"
proof -
  define n where "n = val N256"
  have n: "2 ^ 255 < n" "n < 2 ^ 256" by (simp_all add: n_def N256_def)
  obtain r c where e: "add_limbs (fe_from_be a) (fe_from_be b) = (r, c)" by (cases "add_limbs (fe_from_be a) (fe_from_be b)")
  note s = add_limbs_mod [OF from_be_spec(1,2) from_be_spec(1,2) e, unfolded from_be_spec(3)]
  obtain u bo where u: "sub_limbs r N256 = (u, bo)" by (cases "sub_limbs r N256")
  note su = sub_limbs_mod [OF s(1,2) limbs_consts(3,4) u, folded n_def]
  have ab: "be_val a + be_val b < 2 * n" using assms by (simp add: n_def)
  have m: "(if be_val a + be_val b < n then be_val a + be_val b else be_val a + be_val b - n) = (be_val a + be_val b) mod n"
    by (rule mod_once [OF ab])
  define r' where "r' = (if c \<noteq> 0 then u else r)"
  have lr: "limbs r'" "length r' = 8" using s su by (simp_all add: r'_def)
  define r'' where "r'' = (if fe_cmp r' N256 \<ge> 0 then fst (sub_limbs r' N256) else r')"
  have cmp: "fe_cmp r' N256 \<ge> 0 \<longleftrightarrow> \<not> val r' < n" using fe_cmp_spec [of r' N256] lr by (auto simp: n_def)
  have r'': "limbs r'' \<and> length r'' = 8 \<and> val r'' = (be_val a + be_val b) mod n"
  proof (cases "c = 0")
    case True
    then have v: "val r' = be_val a + be_val b" using s(4) by (simp add: r'_def)
    show ?thesis using m v lr cmp su s True by (auto simp: r''_def r'_def u)
  next
    case False
    then have c1: "c = 1" using s(3) by simp
    have t: "val r + 2 ^ 256 = be_val a + be_val b" using s(4) c1 by simp
    have lt: "val r < n" using t ab n by linarith
    have v: "val r' = be_val a + be_val b - n" using su(4) lt t n False by (simp add: r'_def)
    have "val r' < n" using v ab t n by linarith
    then show ?thesis using m v lr cmp t n by (auto simp: r''_def)
  qed
  have "p256_scalar_add a b = fe_to_be r''" by (simp add: p256_scalar_add_def e r''_def r'_def Let_def u split: prod.splits)
  then show ?thesis using r'' to_be_spec(2) [of r''] from_be_spec(3) [of "fe_to_be r''"] by (simp add: n_def)
qed

subsection \<open>Properties\<close>

text \<open>
  C10: the validity check of a point, on the first call and on later ones, accepts exactly the 64-byte
  strings whose big-endian coordinates are below the prime, not both zero, and satisfy the curve
  equation \<open>y\<^sup>2 = x\<^sup>3 - 3x + b\<close> modulo the prime.
\<close>

theorem p256_point_valid_iff:
  assumes "tab_ok g \<or> \<not> p256_ready g"
  shows "snd (p256_point_valid g p) \<longleftrightarrow>
    be_val (take 32 p) < p256 \<and> be_val (drop 32 p) < p256 \<and> (be_val (take 32 p) \<noteq> 0 \<or> be_val (drop 32 p) \<noteq> 0) \<and>
    int (be_val (drop 32 p)) ^ 2 mod int p256 =
      (int (be_val (take 32 p)) ^ 3 - 3 * int (be_val (take 32 p)) + int (val B256)) mod int p256"
  using valid_spec [OF assms] by (simp add: on_curve_def eqp_def)

lemma generator_on_curve: "on_curve (val GX256) (val GY256)"
proof -
  let ?x = "48439561293906451759052585252797914202762949526041747995844080717082404635286 :: int" and ?y = "36134250956749795798585127919587881956611106672985015071877198253568414405109 :: int" and ?b = "41058363725152142129326129780047268409114441015993725554835256314039467401291 :: int"
  have v: "int (val GX256) = ?x" "int (val GY256) = ?y" "int (val B256) = ?b" "int p256 = 115792089210356248762697446949407573530086143415290314195533631308867097853951"
    by (simp_all add: GX256_def GY256_def B256_def p256_def)
  have "?x ^ 3 - 3 * ?x + ?b = ?y ^ 2 + int p256 * 981570988164258562257936101525215858910690391106138407341175333813841188485201771743408849884010754226965632845910189239885256093057339116530079505515608" unfolding v(4) by simp
  then have "eqp (?x ^ 3 - 3 * ?x + ?b) (?y ^ 2)" using eqp_p256 by metis
  then show ?thesis unfolding on_curve_def v by (rule eqp_sym)
qed

lemma generator_bytes:
  "limbs GX256" "length GX256 = 8" "limbs GY256" "length GY256 = 8" "val GX256 < p256" "val GY256 < p256" "val GX256 \<noteq> 0"
  by (simp_all add: GX256_def GY256_def p256_def)

theorem p256_point_valid_iff_witness:
  "snd (p256_point_valid static_p256 (fe_to_be GX256 @ fe_to_be GY256))"
proof -
  note gb = generator_bytes
  have t: "take 32 (fe_to_be GX256 @ fe_to_be GY256) = fe_to_be GX256" "drop 32 (fe_to_be GX256 @ fe_to_be GY256) = fe_to_be GY256"
    using to_be_spec(1) [OF gb(1,2)] by simp_all
  have v: "be_val (fe_to_be GX256) = val GX256" "be_val (fe_to_be GY256) = val GY256"
    using to_be_spec(2) [OF gb(1,2)] to_be_spec(2) [OF gb(3,4)] from_be_spec(3) [of "fe_to_be GX256"] from_be_spec(3) [of "fe_to_be GY256"] by simp_all
  show ?thesis
    using p256_point_valid_iff [of static_p256 "fe_to_be GX256 @ fe_to_be GY256"] gb generator_on_curve
    unfolding t v on_curve_def eqp_def by (simp add: static_p256_def)
qed

text \<open>
  C8: SAE's search for the password element, over the counters 1 to 100: the result is nothing exactly
  when no counter's candidate is below the prime with a curve right-hand side that passes the Legendre
  test; otherwise it is a valid point, 64 bytes that start with the first such candidate, whose y
  coordinate has the parity the seed asks for. No primality of the modulus is assumed: the Legendre test
  makes the power a square root.
\<close>

theorem p256_sae_pwe_valid:
  assumes "tab_ok g \<or> \<not> p256_ready g" and "length junk = 64"
  shows "case p256_sae_pwe g junk pass a b of
      (g', None) \<Rightarrow> (\<forall>c \<in> {1 .. 100}. \<not> pwe_hit junk (if bytes_ge a b then a @ b else b @ a) pass c)
    | (g', Some pwe) \<Rightarrow> length pwe = 64 \<and> snd (p256_point_valid g' pwe) \<and>
        (\<exists>c \<in> {1 .. 100}. pwe_hit junk (if bytes_ge a b then a @ b else b @ a) pass c \<and>
           (\<forall>d \<in> {1 ..< c}. \<not> pwe_hit junk (if bytes_ge a b then a @ b else b @ a) pass d) \<and>
           take 32 pwe = pwe_value junk (pwe_seed junk (if bytes_ge a b then a @ b else b @ a) pass c) \<and>
           be_val (drop 32 pwe) mod 2 = unat (pwe_seed junk (if bytes_ge a b then a @ b else b @ a) pass c ! 31 AND 1))"
proof -
  define g' where "g' = p256_init g"
  define key where "key = (if bytes_ge a b then a @ b else b @ a)"
  have ok: "tab_ok g'" unfolding g'_def by (rule init_ok(1) [OF assms(1)])
  show ?thesis
  proof (cases "pwe_hunt g' junk key pass [1 ..< 101]")
    case None
    then show ?thesis using pwe_hunt_spec(2) [OF ok assms(2) None]
      by (auto simp: p256_sae_pwe_def Let_def g'_def [symmetric] key_def [symmetric])
  next
    case (Some vl)
    obtain v l where vl: "vl = (v, l)" by (cases vl)
    obtain pre c suf where c: "[1 ..< 101] = pre @ c # suf" "pwe_hit junk key pass c" "\<forall>d \<in> set pre. \<not> pwe_hit junk key pass d"
        "v = pwe_value junk (pwe_seed junk key pass c)" "l = unat (pwe_seed junk key pass c ! 31 AND 1)"
      using pwe_hunt_spec(1) [OF ok assms(2) Some [unfolded vl]] by blast
    have cr: "c \<in> {1 .. 100}" "set pre = {1 ..< c}" using upt_split [OF c(1)] by auto
    have hit: "be_val v < p256" "eqp ((int (be_val v) ^ 3 - 3 * int (be_val v) + int (val B256)) ^ ((p256 - 1) div 2)) 1"
      using c(2) by (simp_all add: pwe_hit_def c(4) Let_def)
    have lv: "length v = 32" "l < 2" using pwe_value_length [OF assms(2)] seed_bit_less by (simp_all add: c(4,5))
    have x: "fe_ok (fe_from_be v)" using hit by (simp add: fe_ok_def from_be_spec)
    define yn where "yn = from_mont (mont_pow g' (curve_rhs g' (fe_from_be v)) (PE_SQRT g'))"
    define y where "y = (if yn ! 0 mod 2 \<noteq> l then fp_sub fe_zero yn else yn)"
    have pwe: "p256_sae_pwe g junk pass a b = (g', Some (v @ fe_to_be y))"
      using Some by (simp add: p256_sae_pwe_def Let_def g'_def [symmetric] key_def [symmetric] y_def yn_def vl)
    have y: "fe_ok y" "on_curve (be_val v) (val y)" "val y \<noteq> 0" "val y mod 2 = l"
      using pwe_root [OF ok x lv(2) hit(2) [folded from_be_spec(3)], folded yn_def, folded y_def] by (simp_all add: from_be_spec)
    have b: "length (fe_to_be y) = 32" "be_val (fe_to_be y) = val y"
      using y(1) to_be_spec [of y] from_be_spec(3) [of "fe_to_be y"] by (simp_all add: fe_ok_def)
    have "snd (p256_point_valid g' (v @ fe_to_be y))" using valid_spec [of g' "v @ fe_to_be y"] ok hit(1) lv y b by (simp add: fe_ok_def)
    then show ?thesis unfolding pwe prod.case option.case key_def [symmetric]
      using lv b y(4) c cr by auto
  qed
qed

theorem p256_sae_pwe_valid_witness:
  "case p256_sae_pwe static_p256 (replicate 64 0) [0x70] [1, 1, 1, 1, 1, 1] [2, 2, 2, 2, 2, 2] of
      (g, None) \<Rightarrow> \<not> pwe_hit (replicate 64 0) [2, 2, 2, 2, 2, 2, 1, 1, 1, 1, 1, 1] [0x70] 1
    | (g, Some pwe) \<Rightarrow> length pwe = 64 \<and> snd (p256_point_valid g pwe)"
proof -
  have b: "(if bytes_ge [1, 1, 1, 1, 1, 1] [2, 2, 2, 2, 2, 2] then [1, 1, 1, 1, 1, 1] @ [2, 2, 2, 2, 2, 2]
      else [2, 2, 2, 2, 2, 2] @ [1, 1, 1, 1, 1, 1]) = [2, 2, 2, 2, 2, 2, 1, 1, 1, 1, 1, 1 :: u8]" by (simp add: word_le_nat_alt)
  have "tab_ok static_p256 \<or> \<not> p256_ready static_p256" "length (replicate 64 (0 :: u8)) = 64" by (simp_all add: static_p256_def)
  from p256_sae_pwe_valid [OF this, where pass = "[0x70]" and a = "[1, 1, 1, 1, 1, 1]" and b = "[2, 2, 2, 2, 2, 2]", unfolded b]
  show ?thesis by (auto split: prod.splits option.splits)
qed

text \<open>
  Adding two scalars below the group order gives their sum modulo the order, as a 32-byte
  big-endian string.
\<close>

theorem p256_scalar_add_mod:
  assumes "be_val a < val N256" and "be_val b < val N256"
  shows "be_val (p256_scalar_add a b) = (be_val a + be_val b) mod val N256"
  by (rule scalar_add_spec [OF assms])

theorem p256_scalar_add_mod_witness:
  "be_val (p256_scalar_add (fe_to_be fe_one) (fe_to_be fe_one)) = 2 mod val N256"
proof -
  have v: "be_val (fe_to_be fe_one) = 1" using to_be_spec(2) [of fe_one] from_be_spec(3) [of "fe_to_be fe_one"] by simp
  have "(1 :: nat) < val N256" by (simp add: N256_def)
  then show ?thesis using p256_scalar_add_mod [of "fe_to_be fe_one" "fe_to_be fe_one"] by (simp add: v numeral_2_eq_2)
qed



end
