(* ===== verification/Rng.thy ===== *)
theory Rng
  imports Hash
begin

text \<open>
  The random number generator, \<^verbatim>\<open>kernel/lib/random.c\<close>: ChaCha20 blocks under a key that every request
  mixes with the cycle counter and replaces afterwards. The processor's random instruction and its cycle
  counter are arguments: \<open>hw i\<close> is what the \<open>i\<close>-th attempt of the seeding gets, \<open>cyc t\<close> the value of the
  \<open>t\<close>-th reading of the counter.
\<close>

record rng =
  r_key :: "u32 list"            \<comment> \<open>8 words\<close>
  r_counter :: u64
  r_seeded :: bool
  r_hw :: nat
  r_at :: nat                    \<comment> \<open>the static variable of \<open>mix\<close>\<close>
  r_tick :: nat                  \<comment> \<open>readings of the cycle counter so far\<close>

definition static_rng :: rng where
  "static_rng = \<lparr>r_key = replicate 8 0, r_counter = 0, r_seeded = False, r_hw = 0, r_at = 0, r_tick = 0\<rparr>"

subsection \<open>ChaCha20\<close>

definition rotl :: "u32 \<Rightarrow> nat \<Rightarrow> u32" where
  "rotl v n = (push_bit n v OR drop_bit (32 - n) v)"

text \<open>The quarter round on four places of the state.\<close>

definition QR :: "nat \<Rightarrow> nat \<Rightarrow> nat \<Rightarrow> nat \<Rightarrow> u32 list \<Rightarrow> u32 list" where
  "QR a b c d x =
     (let x = x[a := x ! a + x ! b]; x = x[d := rotl (x ! d XOR x ! a) 16];
          x = x[c := x ! c + x ! d]; x = x[b := rotl (x ! b XOR x ! c) 12];
          x = x[a := x ! a + x ! b]; x = x[d := rotl (x ! d XOR x ! a) 8];
          x = x[c := x ! c + x ! d]; x = x[b := rotl (x ! b XOR x ! c) 7]
      in x)"

definition double_round :: "u32 list \<Rightarrow> u32 list" where
  "double_round x =
     (let x = QR 0 4 8 12 x; x = QR 1 5 9 13 x; x = QR 2 6 10 14 x; x = QR 3 7 11 15 x;
          x = QR 0 5 10 15 x; x = QR 1 6 11 12 x; x = QR 2 7 8 13 x; x = QR 3 4 9 14 x
      in x)"

definition chacha_start :: "u32 list \<Rightarrow> u64 \<Rightarrow> u32 list" where
  "chacha_start key counter =
     [0x61707865, 0x3320646e, 0x79622d32, 0x6b206574] @ map (\<lambda>i. key ! i) [0 ..< 8] @
     [ucast counter, ucast (drop_bit 32 counter), 0, 0]"

definition block :: "rng \<Rightarrow> rng \<times> u32 list" where
  "block g =
     (let s = chacha_start (r_key g) (r_counter g); x = (double_round ^^ 10) s
      in (g\<lparr>r_counter := r_counter g + 1\<rparr>, map (\<lambda>i. x ! i + s ! i) [0 ..< 16]))"

subsection \<open>Mixing and seeding\<close>

definition xor_at :: "nat \<Rightarrow> u32 \<Rightarrow> u32 list \<Rightarrow> u32 list" where
  "xor_at i v key = key[i mod 8 := key ! (i mod 8) XOR v]"

definition mix :: "u64 \<Rightarrow> rng \<Rightarrow> rng" where
  "mix v g =
     (let g = g\<lparr>r_key := xor_at (r_at g) (ucast v) (r_key g), r_at := (r_at g + 1) mod 2 ^ 32\<rparr>;
          g = g\<lparr>r_key := xor_at (r_at g) (ucast (drop_bit 32 v)) (r_key g), r_at := (r_at g + 1) mod 2 ^ 32\<rparr>;
          (g, b) = block g
      in g\<lparr>r_key := map (\<lambda>i. r_key g ! i XOR b ! i) [0 ..< 8]\<rparr>)"

definition arch_cycles :: "(nat \<Rightarrow> u64) \<Rightarrow> rng \<Rightarrow> rng \<times> u64" where
  "arch_cycles cyc g = (g\<lparr>r_tick := r_tick g + 1\<rparr>, cyc (r_tick g))"

definition seed_hw :: "(nat \<Rightarrow> u64 option) \<Rightarrow> nat \<Rightarrow> rng \<Rightarrow> rng" where
  "seed_hw hw i g = (case hw i of None \<Rightarrow> g | Some v \<Rightarrow> (mix v g)\<lparr>r_hw := r_hw g + 1\<rparr>)"

text \<open>One round of the timing loop; the memory traffic it times has no other effect.\<close>

definition seed_jitter :: "(nat \<Rightarrow> u64) \<Rightarrow> nat \<Rightarrow> rng \<Rightarrow> rng" where
  "seed_jitter cyc i g =
     (let (g, t0) = arch_cycles cyc g; (g, t1) = arch_cycles cyc g; d = t1 - t0
      in if i mod 32 = 31 then mix (d XOR push_bit 17 t0) g
         else g\<lparr>r_key := xor_at i (push_bit (i mod 24) (ucast d)) (r_key g)\<rparr>)"

definition seed :: "(nat \<Rightarrow> u64 option) \<Rightarrow> (nat \<Rightarrow> u64) \<Rightarrow> rng \<Rightarrow> rng" where
  "seed hw cyc g =
     (let g = fold (seed_hw hw) [0 ..< 16] g; g = fold (seed_jitter cyc) [0 ..< 4096] g in g\<lparr>r_seeded := True\<rparr>)"

definition random_add :: "(nat \<Rightarrow> u64) \<Rightarrow> u64 \<Rightarrow> rng \<Rightarrow> rng" where
  "random_add cyc v g = (let (g, t) = arch_cycles cyc g in mix (v XOR t) g)"

subsection \<open>Requests\<close>

text \<open>The words of a block in memory, least significant byte first.\<close>

definition block_bytes :: "u32 list \<Rightarrow> u8 list" where
  "block_bytes b = concat (map (\<lambda>w. [ucast w, ucast (drop_bit 8 w), ucast (drop_bit 16 w), ucast (drop_bit 24 w)]) b)"

function random_loop :: "rng \<Rightarrow> nat \<Rightarrow> rng \<times> u8 list" where
  "random_loop g len =
     (if len = 0 then (g, [])
      else let (g, b) = block g; n = (if len < 64 then len else 64); (g, out) = random_loop g (len - n)
           in (g, take n (block_bytes b) @ out))"
  by pat_completeness auto
termination
  by (relation "measure (\<lambda>(g, len). len)") (auto split: if_splits)

declare random_loop.simps [simp del]

definition random_bytes :: "(nat \<Rightarrow> u64 option) \<Rightarrow> (nat \<Rightarrow> u64) \<Rightarrow> rng \<Rightarrow> nat \<Rightarrow> rng \<times> u8 list" where
  "random_bytes hw cyc g len =
     (let g = (if \<not> r_seeded g then seed hw cyc g else g);
          (g, t) = arch_cycles cyc g; g = mix t g;
          (g, out) = random_loop g len;
          (g, b) = block g
      in (g\<lparr>r_key := take 8 b\<rparr>, out))"

definition random_init :: "(nat \<Rightarrow> u64 option) \<Rightarrow> (nat \<Rightarrow> u64) \<Rightarrow> rng \<Rightarrow> rng" where
  "random_init hw cyc g = (if \<not> r_seeded g then seed hw cyc g else g)"

subsection \<open>The stream\<close>

definition keystream :: "u32 list \<Rightarrow> u64 \<Rightarrow> u32 list" where
  "keystream key c = snd (block (static_rng\<lparr>r_key := key, r_counter := c\<rparr>))"

lemma block_eq: "block g = (g\<lparr>r_counter := r_counter g + 1\<rparr>, keystream (r_key g) (r_counter g))"
  by (simp add: block_def keystream_def Let_def)

lemma keystream_length [simp]: "length (keystream key c) = 16"
  by (simp add: keystream_def block_def Let_def)

lemma block_bytes_length [simp]: "length (block_bytes b) = 4 * length b"
  by (induction b) (simp_all add: block_bytes_def)

lemma random_loop_spec:
  "random_loop g n =
     (g\<lparr>r_counter := r_counter g + of_nat ((n + 63) div 64)\<rparr>,
      expand (\<lambda>i. block_bytes (keystream (r_key g) (r_counter g + of_nat i))) 64 n)"
proof (induction g n rule: random_loop.induct)
  case (1 g n)
  show ?case
  proof (cases "n = 0")
    case True
    then show ?thesis by (subst random_loop.simps) (simp add: expand_def)
  next
    case False
    define m where "m = (if n < 64 then n else 64)"
    define g1 where "g1 = g\<lparr>r_counter := r_counter g + 1\<rparr>"
    have IH: "random_loop g1 (n - m) = (g1\<lparr>r_counter := r_counter g1 + of_nat ((n - m + 63) div 64)\<rparr>,
        expand (\<lambda>i. block_bytes (keystream (r_key g1) (r_counter g1 + of_nat i))) 64 (n - m))"
      by (rule 1 [OF False refl block_eq [of g, folded g1_def, symmetric] m_def])
    have d: "(n + 63) div 64 = Suc ((n - m + 63) div 64)"
    proof (cases "n < 64")
      case True
      then have "(n + 63) div 64 = 1" using False by (intro div_nat_eqI) auto
      then show ?thesis using True by (simp add: m_def)
    next
      case big: False
      then have "n + 63 = 64 + (n - m + 63)" by (simp add: m_def)
      then show ?thesis by (simp only: div_add_self1)
    qed
    have e: "expand (\<lambda>i. block_bytes (keystream (r_key g) (r_counter g + of_nat i))) 64 n =
        take m (block_bytes (keystream (r_key g) (r_counter g))) @
        expand (\<lambda>i. block_bytes (keystream (r_key g1) (r_counter g1 + of_nat i))) 64 (n - m)"
      using expand_step [of n 64 "\<lambda>i. block_bytes (keystream (r_key g) (r_counter g + of_nat i))"] False
      by (simp add: m_def g1_def min_def algebra_simps)
    have "random_loop g n = (fst (random_loop g1 (n - m)), take m (block_bytes (keystream (r_key g) (r_counter g))) @ snd (random_loop g1 (n - m)))"
      using False by (subst random_loop.simps) (simp add: Let_def block_eq g1_def [symmetric] m_def [symmetric] case_prod_beta)
    then show ?thesis unfolding IH e d by (simp add: g1_def algebra_simps)
  qed
qed

text \<open>The state a request starts from: seeded, and mixed with a fresh reading of the cycle counter.\<close>

definition stirred :: "(nat \<Rightarrow> u64 option) \<Rightarrow> (nat \<Rightarrow> u64) \<Rightarrow> rng \<Rightarrow> rng" where
  "stirred hw cyc g = (let (g, t) = arch_cycles cyc (random_init hw cyc g) in mix t g)"

text \<open>
  C35: a request for \<open>len\<close> bytes returns the first \<open>len\<close> bytes of the ChaCha20 key stream under the key
  that seeding (on the first request) and the mixing of the cycle counter left, from the current block
  counter on; afterwards the key is the first half of the next block, which was not handed out, and the
  counter has moved past both.
\<close>

theorem random_bytes_stream:
  "snd (random_bytes hw cyc g len) =
     expand (\<lambda>i. block_bytes (keystream (r_key (stirred hw cyc g)) (r_counter (stirred hw cyc g) + of_nat i))) 64 len \<and>
   r_key (fst (random_bytes hw cyc g len)) =
     take 8 (keystream (r_key (stirred hw cyc g)) (r_counter (stirred hw cyc g) + of_nat ((len + 63) div 64))) \<and>
   r_counter (fst (random_bytes hw cyc g len)) = r_counter (stirred hw cyc g) + of_nat ((len + 63) div 64) + 1"
proof -
  have "random_bytes hw cyc g len =
      (let (g2, out) = random_loop (stirred hw cyc g) len; (g3, b) = block g2 in (g3\<lparr>r_key := take 8 b\<rparr>, out))"
    by (simp add: random_bytes_def random_init_def stirred_def Let_def case_prod_beta)
  then show ?thesis by (simp add: random_loop_spec block_eq Let_def)
qed

end
