(* ===== verification/Printf.thy ===== *)
theory Printf
  imports Ring "HOL-Library.Char_ord"
begin

text \<open>
  The kernel's formatted output, \<^verbatim>\<open>kernel/lib/printf.c\<close>: the log ring behind \<^verbatim>\<open>/proc/kmsg\<close>, the
  formatter over an output callback, and its two users, the console and a bounded buffer. A callback is
  a function on the state it writes to. \<open>None\<close> is undefined behaviour of the C code: an argument that is
  missing or of the wrong kind, a format that ends inside a conversion, a number wider than the digit
  buffer.
\<close>

subsection \<open>The log\<close>

definition KLOG_SIZE :: nat where
  "KLOG_SIZE = 65536"

record klog_state =
  klog :: "char list"
  klog_total :: nat

fun klog_loop :: "klog_state \<Rightarrow> nat \<Rightarrow> nat \<Rightarrow> char list" where
  "klog_loop s p 0 = []"
| "klog_loop s p (Suc n) = (if p < klog_total s then klog s ! (p mod KLOG_SIZE) # klog_loop s (p + 1) n else [])"

definition klog_read :: "klog_state \<Rightarrow> nat \<Rightarrow> nat \<Rightarrow> char list" where
  "klog_read s off n =
     (let start = (if klog_total s > KLOG_SIZE then klog_total s - KLOG_SIZE else 0)
      in klog_loop s (add64 start off) n)"

text \<open>The framebuffer and serial drivers get the same character; they are not part of this state.\<close>

definition raw_putc :: "klog_state \<Rightarrow> char \<Rightarrow> klog_state" where
  "raw_putc s c = s\<lparr>klog := (klog s)[klog_total s mod KLOG_SIZE := c], klog_total := add64 (klog_total s) 1\<rparr>"

definition kputc :: "klog_state \<Rightarrow> char \<Rightarrow> klog_state" where
  "kputc s c = raw_putc s c"

definition raw_puts :: "klog_state \<Rightarrow> string \<Rightarrow> klog_state" where
  "raw_puts s str = foldl raw_putc s str"

definition kputs :: "klog_state \<Rightarrow> string \<Rightarrow> klog_state" where
  "kputs s str = raw_puts s str"

subsection \<open>Output callbacks\<close>

record out_state =
  o_buf :: "char list"
  o_cap :: nat
  o_len :: nat


definition out_buf :: "out_state \<Rightarrow> char \<Rightarrow> out_state" where
  "out_buf s c =
     (let s = (if add64 (o_len s) 1 < o_cap s then s\<lparr>o_buf := (o_buf s)[o_len s := c]\<rparr> else s)
      in s\<lparr>o_len := add64 (o_len s) 1\<rparr>)"

definition out_str :: "('o \<Rightarrow> char \<Rightarrow> 'o) \<Rightarrow> 'o \<Rightarrow> string \<Rightarrow> 'o" where
  "out_str put s str = foldl put s str"

subsection \<open>Numbers\<close>

definition digit_chars :: "bool \<Rightarrow> string" where
  "digit_chars upper = (if upper then ''0123456789ABCDEF'' else ''0123456789abcdef'')"

text \<open>The do-while loop over the digits, least significant first.\<close>

function num_digits :: "bool \<Rightarrow> nat \<Rightarrow> nat \<Rightarrow> char list" where
  "num_digits upper base v =
     digit_chars upper ! (v mod base) # (if v div base \<noteq> 0 \<and> 2 \<le> base then num_digits upper base (v div base) else [])"
  by pat_completeness auto
termination
  by (relation "measure (\<lambda>(upper, base, v). v)") (auto simp: div_eq_0_iff intro!: div_less_dividend)

declare num_digits.simps [simp del]

definition print_num :: "('o \<Rightarrow> char \<Rightarrow> 'o) \<Rightarrow> 'o \<Rightarrow> u64 \<Rightarrow> nat \<Rightarrow> bool \<Rightarrow> nat \<Rightarrow> char \<Rightarrow> bool \<Rightarrow> 'o option" where
  "print_num put o1 v base is_signed width pad upper =
     (let neg = (is_signed \<and> sint v < 0); v = (if neg then - v else v);
          buf = num_digits upper base (unat v);
          buf = (if neg then buf @ ''-'' else buf);
          buf = buf @ replicate (width - length buf) pad
      in if length buf > 32 then None else Some (foldl put o1 (rev buf)))"

subsection \<open>The formatter\<close>

text \<open>A variable argument: an integer or pointer in a 64-bit slot, or a string pointer.\<close>

datatype varg = VNum u64 | VStr "string option"

definition low32 :: "u64 \<Rightarrow> u32" where
  "low32 w = ucast w"

fun arg_signed :: "nat \<Rightarrow> varg list \<Rightarrow> (u64 \<times> varg list) option" where
  "arg_signed longflag (VNum w # as) = Some (if longflag \<ge> 1 then w else scast (low32 w), as)"
| "arg_signed longflag _ = None"

fun arg_unsigned :: "nat \<Rightarrow> varg list \<Rightarrow> (u64 \<times> varg list) option" where
  "arg_unsigned longflag (VNum w # as) = Some (if longflag \<ge> 1 then w else ucast (low32 w), as)"
| "arg_unsigned longflag _ = None"

fun scan_width :: "nat \<Rightarrow> string \<Rightarrow> nat \<times> string" where
  "scan_width width (c # fmt) =
     (if CHR ''0'' \<le> c \<and> c \<le> CHR ''9'' then scan_width (width * 10 + (of_char c - 48)) fmt else (width, c # fmt))"
| "scan_width width [] = (width, [])"

fun scan_long :: "nat \<Rightarrow> string \<Rightarrow> nat \<times> string" where
  "scan_long n (c # fmt) = (if c = CHR ''l'' \<or> c = CHR ''z'' then scan_long (n + 1) fmt else (n, c # fmt))"
| "scan_long n [] = (n, [])"

fun scan_left :: "string \<Rightarrow> bool \<times> string" where
  "scan_left (c # fmt) = (if c = CHR ''-'' then (True, fmt) else (False, c # fmt))"
| "scan_left [] = (False, [])"

fun scan_pad :: "string \<Rightarrow> char \<times> string" where
  "scan_pad (c # fmt) = (if c = CHR ''0'' then (CHR ''0'', fmt) else (CHR '' '', c # fmt))"
| "scan_pad [] = (CHR '' '', [])"

record conv =
  c_left :: bool
  c_pad :: char
  c_width :: nat
  c_long :: nat

text \<open>
  From after the percent sign to the conversion character. A \<open>long\<close> has 64 bits on the x86-64 target,
  so one \<open>l\<close> counts as two.
\<close>

definition scan_conv :: "string \<Rightarrow> conv \<times> string" where
  "scan_conv fmt =
     (let (left, fmt) = scan_left fmt;
          (pad, fmt) = scan_pad fmt;
          (width, fmt) = scan_width 0 fmt;
          (lng, fmt) = scan_long 0 fmt;
          lng = (if lng = 1 then 2 else lng)
      in (\<lparr>c_left = left, c_pad = pad, c_width = width, c_long = lng\<rparr>, fmt))"

definition print_str :: "('o \<Rightarrow> char \<Rightarrow> 'o) \<Rightarrow> 'o \<Rightarrow> conv \<Rightarrow> string option \<Rightarrow> 'o" where
  "print_str put o1 cv s =
     (let str = (case s of None \<Rightarrow> ''(null)'' | Some str \<Rightarrow> str);
          fill = replicate (c_width cv - length str) (CHR '' '');
          o1 = (if \<not> c_left cv then foldl put o1 fill else o1);
          o1 = out_str put o1 str
      in if c_left cv then foldl put o1 fill else o1)"

text \<open>The switch over the conversion character.\<close>

definition do_conv :: "('o \<Rightarrow> char \<Rightarrow> 'o) \<Rightarrow> conv \<Rightarrow> char \<Rightarrow> varg list \<Rightarrow> 'o \<Rightarrow> ('o \<times> varg list) option" where
  "do_conv put cv c args o1 =
     (if c = CHR ''d'' then
        case arg_signed (c_long cv) args of None \<Rightarrow> None
        | Some (v, as) \<Rightarrow> map_option (\<lambda>o1. (o1, as)) (print_num put o1 v 10 True (c_width cv) (c_pad cv) False)
      else if c = CHR ''u'' then
        case arg_unsigned (c_long cv) args of None \<Rightarrow> None
        | Some (v, as) \<Rightarrow> map_option (\<lambda>o1. (o1, as)) (print_num put o1 v 10 False (c_width cv) (c_pad cv) False)
      else if c = CHR ''x'' \<or> c = CHR ''X'' then
        case arg_unsigned (c_long cv) args of None \<Rightarrow> None
        | Some (v, as) \<Rightarrow> map_option (\<lambda>o1. (o1, as)) (print_num put o1 v 16 False (c_width cv) (c_pad cv) (c = CHR ''X''))
      else if c = CHR ''p'' then
        case arg_unsigned 2 args of None \<Rightarrow> None
        | Some (v, as) \<Rightarrow> map_option (\<lambda>o1. (o1, as)) (print_num put (out_str put o1 ''0x'') v 16 False 16 (CHR ''0'') False)
      else if c = CHR ''c'' then
        case args of VNum w # as \<Rightarrow> Some (put o1 (char_of (unat w mod 256)), as) | _ \<Rightarrow> None
      else if c = CHR ''s'' then
        case args of VStr s # as \<Rightarrow> Some (print_str put o1 cv s, as) | _ \<Rightarrow> None
      else if c = CHR ''%'' then Some (put o1 (CHR ''%''), args)
      else Some (put (put o1 (CHR ''%'')) c, args))"

lemma scan_lengths:
  "length (snd (scan_width n fmt)) \<le> length fmt" "length (snd (scan_long n fmt)) \<le> length fmt"
  "length (snd (scan_left fmt)) \<le> length fmt" "length (snd (scan_pad fmt)) \<le> length fmt"
proof -
  show "length (snd (scan_width n fmt)) \<le> length fmt" by (induction n fmt rule: scan_width.induct) auto
  show "length (snd (scan_long n fmt)) \<le> length fmt" by (induction n fmt rule: scan_long.induct) auto
qed (cases fmt; simp)+

lemma scan_conv_snd:
  "snd (scan_conv fmt) = snd (scan_long 0 (snd (scan_width 0 (snd (scan_pad (snd (scan_left fmt)))))))"
  by (simp add: scan_conv_def Let_def case_prod_beta)

lemma scan_conv_length: "length (snd (scan_conv fmt)) \<le> length fmt"
  unfolding scan_conv_snd by (meson scan_lengths order_trans)

function format :: "('o \<Rightarrow> char \<Rightarrow> 'o) \<Rightarrow> string \<Rightarrow> varg list \<Rightarrow> 'o \<Rightarrow> 'o option" where
  "format put [] args o1 = Some o1"
| "format put (c # fmt) args o1 =
     (if c \<noteq> CHR ''%'' then format put fmt args (put o1 c)
      else case snd (scan_conv fmt) of
             [] \<Rightarrow> None
           | d # rest \<Rightarrow>
               (case do_conv put (fst (scan_conv fmt)) d args o1 of
                  None \<Rightarrow> None
                | Some (o1, as) \<Rightarrow> format put rest as o1))"
  by pat_completeness auto
termination
proof (relation "measure (\<lambda>(put, fmt, args, o1). length fmt)")
  fix put :: "'o \<Rightarrow> char \<Rightarrow> 'o" and c fmt args o1 d rest p q and r :: "'o \<times> varg list"
  assume "snd (scan_conv fmt) = d # rest"
  then show "((put, rest, q, p), (put, c # fmt, args, o1)) \<in> measure (\<lambda>(put, fmt, args, o1). length fmt)"
    using scan_conv_length [of fmt] by simp
qed auto


definition kvsnprintf :: "char list \<Rightarrow> nat \<Rightarrow> string \<Rightarrow> varg list \<Rightarrow> (char list \<times> nat) option" where
  "kvsnprintf buf cap fmt args =
     (case format out_buf fmt args \<lparr>o_buf = buf, o_cap = cap, o_len = 0\<rparr> of
        None \<Rightarrow> None
      | Some s \<Rightarrow>
          Some (if cap \<noteq> 0 then (o_buf s)[(if o_len s < cap then o_len s else cap - 1) := CHR 0x00] else o_buf s, o_len s))"

definition ksnprintf :: "char list \<Rightarrow> nat \<Rightarrow> string \<Rightarrow> varg list \<Rightarrow> (char list \<times> nat) option" where
  "ksnprintf buf cap fmt args = kvsnprintf buf cap fmt args"

subsection \<open>The characters of a format\<close>

text \<open>What the formatter passes to its callback, in order: the callback that collects them.\<close>

definition snoc :: "char list \<Rightarrow> char \<Rightarrow> char list" where
  "snoc xs c = xs @ [c]"


lemma foldl_snoc [simp]: "foldl snoc xs cs = xs @ cs"
  by (induction cs arbitrary: xs) (simp_all add: snoc_def)






subsection \<open>The two outputs\<close>


text \<open>The log holds the last \<^verbatim>\<open>KLOG_SIZE\<close> characters of everything printed.\<close>

definition klog_empty :: klog_state where
  "klog_empty = \<lparr>klog = replicate KLOG_SIZE (CHR 0x00), klog_total = 0\<rparr>"

definition klog_holds :: "klog_state \<Rightarrow> char list \<Rightarrow> bool" where
  "klog_holds s hist \<longleftrightarrow> length (klog s) = KLOG_SIZE \<and> klog_total s = length hist \<and>
     (\<forall>i < length hist. length hist \<le> i + KLOG_SIZE \<longrightarrow> klog s ! (i mod KLOG_SIZE) = hist ! i)"

lemma KLOG_pos: "0 < KLOG_SIZE"
  by (simp add: KLOG_SIZE_def)

lemma raw_putc_holds:
  assumes "klog_holds s hist" "Suc (length hist) < 2 ^ 64"
  shows "klog_holds (raw_putc s c) (hist @ [c])"
proof -
  have "(klog s)[length hist mod KLOG_SIZE := c] ! (i mod KLOG_SIZE) = (hist @ [c]) ! i"
    if "i < Suc (length hist)" "Suc (length hist) \<le> i + KLOG_SIZE" for i
  proof (cases "i = length hist")
    case True
    then show ?thesis using assms(1) KLOG_pos by (simp add: klog_holds_def)
  next
    case False
    have "length hist - i < KLOG_SIZE" using that by linarith
    then have "i mod KLOG_SIZE \<noteq> length hist mod KLOG_SIZE"
      using mod_distinct [of 0 KLOG_SIZE "length hist - i" i] that KLOG_pos False by auto
    then show ?thesis using assms(1) that False by (simp add: klog_holds_def nth_append)
  qed
  then show ?thesis using assms by (simp add: klog_holds_def raw_putc_def add64_def wrap64_def)
qed

lemma raw_puts_holds:
  "klog_holds s hist \<Longrightarrow> length hist + length cs < 2 ^ 64 \<Longrightarrow> klog_holds (foldl raw_putc s cs) (hist @ cs)"
proof (induction cs arbitrary: s hist)
  case (Cons c cs)
  then show ?case using Cons.IH [OF raw_putc_holds [of s hist c]] by simp
qed simp

lemma klog_loop_spec:
  "klog_holds s hist \<Longrightarrow> length hist \<le> p + KLOG_SIZE \<Longrightarrow> klog_loop s p n = take n (drop p hist)"
proof (induction n arbitrary: p)
  case (Suc n)
  show ?case
  proof (cases "p < length hist")
    case True
    have "klog_loop s (p + 1) n = take n (drop (p + 1) hist)" using Suc by simp
    then show ?thesis using True Suc.prems by (simp add: klog_holds_def Cons_nth_drop_Suc [symmetric])
  qed (use Suc.prems in \<open>simp add: klog_holds_def\<close>)
qed simp

subsection \<open>Reading numbers back\<close>








subsection \<open>Properties\<close>




text \<open>
  After any output, reading the log from offset \<open>off\<close> returns the characters of the last
  \<^verbatim>\<open>KLOG_SIZE\<close> bytes printed from that offset on, at most as many as asked for: the ring has forgotten
  older output and nothing else.
\<close>

theorem klog_read_last:
  assumes "length hist + off < 2 ^ 64"
  shows "klog_read (raw_puts klog_empty hist) off n = take n (drop off (drop (length hist - KLOG_SIZE) hist))"
proof -
  have "klog_holds klog_empty []" by (simp add: klog_holds_def klog_empty_def)
  then have h: "klog_holds (raw_puts klog_empty hist) hist"
    using raw_puts_holds [of klog_empty "[]" hist] assms by (simp add: raw_puts_def)
  then have t: "klog_total (raw_puts klog_empty hist) = length hist" by (simp add: klog_holds_def)
  have "klog_read (raw_puts klog_empty hist) off n = klog_loop (raw_puts klog_empty hist) (length hist - KLOG_SIZE + off) n"
    using assms by (simp add: klog_read_def t add64_def wrap64_def)
  also have "\<dots> = take n (drop (length hist - KLOG_SIZE + off) hist)" by (rule klog_loop_spec [OF h]) simp
  finally show ?thesis by (simp add: add.commute)
qed

theorem klog_read_last_witness: "klog_read (raw_puts klog_empty ''abc'') 1 10 = ''bc''"
  using klog_read_last [of "''abc''" 1 10] by (simp add: KLOG_SIZE_def)

end
