(* ===== verification/Spec2Isabelle.thy ===== *)
theory Spec2Isabelle
  imports Pmm Mmu Heap Pipe Eventfd Pty Unix_Runs Futex Vfile Udp Hash Aes P256 Rng Printf Klib
begin

text \<open>
  \<^bold>\<open>The sic kernel.\<close> A small Unix-like kernel in C for x86-64 (with AArch64 and PowerPC ports). This
  development models the parts of it whose behaviour is decided by the C sources alone: memory
  management, byte channels, and the kernel library. The layers call downwards: the heap takes pages
  from the page tables of the kernel and frames from the physical memory manager; pipes, event counters,
  terminals and local sockets are byte channels over rings; the P-256 code uses the hash functions.

  \<^bold>\<open>Conventions.\<close> A C struct is a record with the struct's fields, static variables of a file are a record
  that its functions pass on, an array is a list or a function of the index, a pointer is an address (0
  is the null pointer) or an index. Counters and sizes of 64 bits are natural numbers with the wrap
  written out (\<open>wrap64\<close>, \<open>add64\<close>, \<open>sub64\<close>) where it can matter, and words of the library's word type where
  the code works on bits. A critical section under a spin lock is one function. A blocking call is one
  function per pass of its loop, whose result says whether the call returns or sleeps; interleavings of
  such passes are step relations. \<open>None\<close> stands for code that does not return (the halt loop of the page
  table allocator, a scan that meets no terminator) or for undefined behaviour in C; each theory says
  which.

  \<^bold>\<open>Theories.\<close>

  \<^item> \<^verbatim>\<open>Sic_Prelude\<close>: words, 64-bit wrap-around, page rounding, counting, and the error numbers.

  \<^item> \<^verbatim>\<open>Pmm\<close>: \<^verbatim>\<open>kernel/mm/pmm.c\<close>. The frame bitmap, the reference counts and the search hint; set-up from
  the boot memory map, allocation below a limit, reference counting, freeing. The lemmas give the
  invariant (the counter of used frames is the population of the bitmap, the hint has no free frame
  below it, counts and bits agree), that allocation is first fit, and that freeing restores the state.
  The locale \<^verbatim>\<open>frame_source\<close> is what the page tables need of it, interpreted as \<^verbatim>\<open>pmm_frames\<close>.

  \<^item> \<^verbatim>\<open>Mmu\<close>: \<^verbatim>\<open>kernel/arch/x86_64/mmu.c\<close>. Four-level tables in a memory of words: walking, mapping,
  unmapping, creating and destroying address spaces. The lemmas relate the entries to a translation
  function, show that a map changes one page only, that the tables stay a tree, and that destroying a
  space gives back exactly the frames it used.

  \<^item> \<^verbatim>\<open>Heap_Pages\<close>, \<^verbatim>\<open>Heap\<close>: \<^verbatim>\<open>kernel/mm/heap.c\<close>. The page layer (ranges of the heap's window and
  their backing) and the slab and large allocators over it. The invariant says that the slabs' lists are
  linked lists without sharing, free objects are those on the free lists, and live blocks do not overlap.

  \<^item> \<^verbatim>\<open>Ring\<close>: contents of a ring, copies into arrays, and the locale \<^verbatim>\<open>fifo\<close> of a bounded byte queue,
  interpreted for pipes, terminals and local sockets.

  \<^item> \<^verbatim>\<open>Pipe\<close>, \<^verbatim>\<open>Eventfd\<close>, \<^verbatim>\<open>Pty\<close>: \<^verbatim>\<open>kernel/fs/pipe.c\<close>, \<^verbatim>\<open>kernel/fs/eventfd.c\<close>, \<^verbatim>\<open>kernel/drivers/pty.c\<close>.
  What goes in comes out, in order, under every interleaving of readers and writers; the line discipline
  refines a list-based line editor.

  \<^item> \<^verbatim>\<open>Unix_Socket\<close>, \<^verbatim>\<open>Unix_Runs\<close>: \<^verbatim>\<open>kernel/net/unix.c\<close>. The first has the sockets, names, queues
  and rings with one function per critical section; the second the transition system of all calls
  with the history of what was sent and received, its invariant, and what a socket delivers.

  \<^item> \<^verbatim>\<open>Futex\<close>: \<^verbatim>\<open>kernel/proc/futex.c\<close>. Waiting, waking and requeueing on words named through the page
  tables of \<^verbatim>\<open>Mmu\<close>; over all interleavings no wake is lost.

  \<^item> \<^verbatim>\<open>Tmpfs\<close>: \<^verbatim>\<open>kernel/fs/tmpfs.c\<close>. The data of memory files: a write is an overlay of the contents, with
  zeros in a gap; and the sharing of data between names, with what goes wrong there.

  \<^item> \<^verbatim>\<open>Vfile\<close>: the open files of \<^verbatim>\<open>kernel/fs/vfs.c\<close>. The locale \<^verbatim>\<open>byte_store\<close> is what a file system
  promises for the data of a file, interpreted for tmpfs as \<^verbatim>\<open>tmpfs_bytes\<close>; over it, reads, writes,
  seeks and truncations refine a list of bytes with a position.

  \<^item> \<^verbatim>\<open>Ip\<close>, \<^verbatim>\<open>Udp\<close>: \<^verbatim>\<open>kernel/net/ip.c\<close> and \<^verbatim>\<open>kernel/net/udp.c\<close>. The checksum, routing, headers on
  their way out and in, and the socket of a datagram; what is sent passes the receiver's checks and
  arrives unchanged.

  \<^item> \<^verbatim>\<open>Hash\<close>, \<^verbatim>\<open>Aes_Tables\<close>, \<^verbatim>\<open>Aes\<close>, \<^verbatim>\<open>P256_Field\<close>, \<^verbatim>\<open>P256\<close>: \<^verbatim>\<open>kernel/lib/crypto.c\<close>. The locale
  \<^verbatim>\<open>block_hash\<close> states what the buffering of a hash needs of its block function; its interpretations
  \<^verbatim>\<open>sha1h\<close> and \<^verbatim>\<open>sha256h\<close> give hashing in pieces, on which HMAC and the key derivations rest. AES
  decryption inverts encryption, key unwrapping inverts RFC 3394 wrapping. The Montgomery arithmetic of
  P-256 is related to integers modulo the prime by the predicate \<open>mform\<close>; the point check and the SAE
  password element are characterised by the curve equation.

  \<^item> \<^verbatim>\<open>Rng\<close>: \<^verbatim>\<open>kernel/lib/random.c\<close>. The ChaCha20 generator with its mixing, seeding and re-keying; a
  request returns the key stream and replaces the key.

  \<^item> \<^verbatim>\<open>Printf\<close>: \<^verbatim>\<open>kernel/lib/printf.c\<close>. The log ring and the formatter over an output callback; every
  callback sees the same characters.

  \<^item> \<^verbatim>\<open>Klib\<close>: \<^verbatim>\<open>kernel/lib/string.c\<close>, \<^verbatim>\<open>int64.c\<close> and \<^verbatim>\<open>symtab.c\<close>.

  \<^bold>\<open>Bounds and fuel.\<close> Loops are total recursive functions with their termination proofs, except: the
  table loop of AES has fuel 255, and the theorem on it says that this is exactly the number of rounds it
  takes; the scans of \<^verbatim>\<open>string.c\<close> are partial functions, defined when a terminator is met, and
  the doubling loop of \<^verbatim>\<open>tmpfs.c\<close> is one that ends when the size asked for is at most \<open>2 ^ 63\<close>. The lengths
  of messages are arbitrary: the 64-bit length counter of the hashes wraps in the model as in the code.

  \<^bold>\<open>Outside the model.\<close> Uninitialised stack buffers are arguments (\<open>junk\<close>), as are the boot memory map, the
  symbol table the build generates, the cycle counter and the random instruction of the processor, and
  the buffers \<^verbatim>\<open>p256_scalar_rand\<close> tries. The theorems that use them state what they need of them.

  \<^bold>\<open>Not modelled.\<close> Device drivers, interrupt and start-up code and context switches, whose behaviour
  depends on hardware that is not in the sources. The scheduler, signals, system calls, path lookup, the
  other file systems, and TCP, ARP and the packet buffers of the network stack, whose state is shared by many files: the modelled components meet
  them only in the choice of the next step and in the results (a signal to send, a waiter to wake) of
  their operations. The AArch64 and PowerPC ports of the page tables. In \<^verbatim>\<open>crypto.c\<close>, the self test of
  P-256; that its Jacobian formulas are the group law is not proved.
\<close>

end
